(* ===== verification/Prelude.thy ===== *)
theory Prelude
  imports "HOL-Library.Word"
begin

text \<open>
  Shared vocabulary of the development: the machine types of the C code, the
  named fact collections, and the generic lemmas on lists and words that the
  component theories use.

  The C code is compiled for Android (little endian, \<^verbatim>\<open>NDEBUG\<close>, so the
  \<^verbatim>\<open>ASSERT\<close> macros are empty). A memory area of bytes is a list of \<open>byte\<close>;
  a pointer with a length is the list of the bytes it spans.
\<close>

unbundle bit_operations_syntax

type_synonym byte = "8 word"
type_synonym u16 = "16 word"
type_synonym u32 = "32 word"
type_synonym u64 = "64 word"

text \<open>The address of an object in memory.\<close>

type_synonym addr = nat

abbreviation (input) "NULL \<equiv> (0::addr)"
abbreviation (input) "INT_MAX \<equiv> (2147483647::int)"
abbreviation (input) "UINT16_MAX \<equiv> (65535::int)"

text \<open>
  Operations that check the assertions of the source return an option: \<open>None\<close> is a failed
  assertion.
\<close>

definition ASSERT :: "bool \<Rightarrow> unit option" where
  "ASSERT c = (if c then Some () else None)"

lemma ASSERT_True [simp]: "ASSERT True = Some ()"
  by (simp add: ASSERT_def)

text \<open>
  \<open>bytes_simps\<close> rewrites byte images of structs, \<open>inv_simps\<close>
  unfolds the well-formedness invariants.
\<close>

named_theorems bytes_simps "lengths and elements of the memory images of C structs"
named_theorems inv_simps "unfolding of the well-formedness invariants"

subsection \<open>Lists\<close>

lemma take_append_le: "n = length xs \<Longrightarrow> take n (xs @ ys) = xs"
  by simp

lemma drop_append_le: "n = length xs \<Longrightarrow> drop n (xs @ ys) = ys"
  by simp

lemma take_drop_split: "n \<le> length xs \<Longrightarrow> xs = take n xs @ drop n xs"
  by simp

lemma list_eq_16:
  assumes "length xs = 16"
  shows "xs = [xs!0, xs!1, xs!2, xs!3, xs!4, xs!5, xs!6, xs!7,
               xs!8, xs!9, xs!10, xs!11, xs!12, xs!13, xs!14, xs!15]"
proof -
  have "xs = map ((!) xs) [0..<16]"
    using assms by (metis map_nth)
  then show ?thesis
    by (simp add: upt_conv_Cons eval_nat_numeral)
qed

subsection \<open>Words\<close>

lemma unat_byte_less: "unat (b :: byte) < 256"
  using unsigned_less [of b] by simp

subsection \<open>The queue interface\<close>

text \<open>
  A bounded first-in first-out store as its clients see it: \<open>rep s xs\<close> says that \<open>s\<close>
  holds the elements \<open>xs\<close>, oldest first, \<open>room s x\<close> that \<open>x\<close> may be put.
\<close>

datatype 'a fifo_op = Put 'a | Get

text \<open>
  A sequence of operations: what is refused or not there is skipped. The result is the
  final store, what was accepted and what was delivered.
\<close>

fun fifo_run :: "('s \<Rightarrow> 'a \<Rightarrow> 's) \<Rightarrow> ('s \<Rightarrow> 's) \<Rightarrow> ('s \<Rightarrow> 'a option) \<Rightarrow> ('s \<Rightarrow> 'a \<Rightarrow> bool) \<Rightarrow>
    's \<Rightarrow> 'a fifo_op list \<Rightarrow> 's \<times> 'a list \<times> 'a list" where
  "fifo_run put get front room s [] = (s, [], [])"
| "fifo_run put get front room s (Put x # ops) =
     (if room s x then
        case fifo_run put get front room (put s x) ops of (s', ins, outs) \<Rightarrow> (s', x # ins, outs)
      else fifo_run put get front room s ops)"
| "fifo_run put get front room s (Get # ops) =
     (case front s of
        None \<Rightarrow> fifo_run put get front room s ops
      | Some x \<Rightarrow>
          (case fifo_run put get front room (get s) ops of (s', ins, outs) \<Rightarrow> (s', ins, x # outs)))"

locale packet_fifo =
  fixes rep :: "'s \<Rightarrow> 'a list \<Rightarrow> bool"
    and put :: "'s \<Rightarrow> 'a \<Rightarrow> 's"
    and get :: "'s \<Rightarrow> 's"
    and front :: "'s \<Rightarrow> 'a option"
    and room :: "'s \<Rightarrow> 'a \<Rightarrow> bool"
  assumes rep_put: "rep s xs \<Longrightarrow> room s x \<Longrightarrow> rep (put s x) (xs @ [x])"
    and rep_get: "rep s (x # xs) \<Longrightarrow> rep (get s) xs"
    and rep_front: "rep s xs \<Longrightarrow> front s = (case xs of [] \<Rightarrow> None | x # _ \<Rightarrow> Some x)"
begin

lemma run_order:
  assumes "rep s xs" "fifo_run put get front room s ops = (s', ins, outs)"
  shows "\<exists>ys. rep s' ys \<and> xs @ ins = outs @ ys"
  using assms
proof (induction ops arbitrary: s xs s' ins outs)
  case (Cons opn ops)
  show ?case
  proof (cases opn)
    case (Put x)
    then show ?thesis
      using Cons.prems Cons.IH [of s xs] Cons.IH [OF rep_put, of s xs x]
      by (auto split: if_splits prod.splits)
  next
    case Get
    show ?thesis
    proof (cases xs)
      case Nil
      then show ?thesis
        using Get Cons.prems Cons.IH [of s xs] rep_front [of s xs] by auto
    next
      case (Cons x xs')
      then have "rep (get s) xs'" "front s = Some x"
        using \<open>rep s xs\<close> rep_get rep_front by auto
      then show ?thesis
        using Get Cons Cons.prems Cons.IH [of "get s" xs'] by (auto split: prod.splits)
    qed
  qed
qed auto

end

end
