(* ===== verification/Bytes.thy ===== *)
theory Bytes
  imports Prelude
begin

text \<open>
  Machine integers in memory (\<^verbatim>\<open>misc/byteorder.h\<close>, \<^verbatim>\<open>misc/read_write_int.h\<close>),
  alignment arithmetic (\<^verbatim>\<open>misc/balign.h\<close>), arithmetic with overflow detection
  (\<^verbatim>\<open>misc/bsize.h\<close>) and three-way comparison (\<^verbatim>\<open>misc/compare.h\<close>).

  \<open>mem16\<close> and \<open>mem32\<close> are the little-endian host's view of consecutive bytes as an
  unsigned integer; \<open>bytes16\<close> and \<open>bytes32\<close> are the bytes an unsigned integer
  occupies. Struct fields are kept as the host sees them, so that the byte order
  conversions of the source appear in the model where they appear in the source.
\<close>

subsection \<open>The host's memory layout\<close>

definition mem16 :: "byte \<Rightarrow> byte \<Rightarrow> u16" where
  "mem16 b0 b1 = push_bit 8 (ucast b1) OR ucast b0"

definition bytes16 :: "u16 \<Rightarrow> byte list" where
  "bytes16 x = [ucast x, ucast (drop_bit 8 x)]"

definition mem32 :: "byte \<Rightarrow> byte \<Rightarrow> byte \<Rightarrow> byte \<Rightarrow> u32" where
  "mem32 b0 b1 b2 b3 =
     push_bit 24 (ucast b3) OR push_bit 16 (ucast b2) OR push_bit 8 (ucast b1) OR ucast b0"

definition bytes32 :: "u32 \<Rightarrow> byte list" where
  "bytes32 x = [ucast x, ucast (drop_bit 8 x), ucast (drop_bit 16 x), ucast (drop_bit 24 x)]"

lemma length_bytes16 [simp, bytes_simps]: "length (bytes16 x) = 2"
  by (simp add: bytes16_def)

lemma length_bytes32 [simp, bytes_simps]: "length (bytes32 x) = 4"
  by (simp add: bytes32_def)

lemma mem16_bytes [simp]: "mem16 (ucast x) (ucast (drop_bit 8 x)) = x"
  unfolding mem16_def by (rule bit_word_eqI) (auto simp add: bit_simps not_less)

lemma bytes16_mem [simp]: "bytes16 (mem16 b0 b1) = [b0, b1]"
proof -
  have "ucast (mem16 b0 b1) = b0"
    unfolding mem16_def by (rule bit_word_eqI) (auto simp add: bit_simps)
  moreover have "ucast (drop_bit 8 (mem16 b0 b1)) = b1"
    unfolding mem16_def by (rule bit_word_eqI) (auto simp add: bit_simps dest: bit_imp_le_length)
  ultimately show ?thesis
    by (simp add: bytes16_def)
qed

lemma mem32_bytes [simp]:
  "mem32 (ucast x) (ucast (drop_bit 8 x)) (ucast (drop_bit 16 x)) (ucast (drop_bit 24 x)) = x"
proof (rule bit_word_eqI)
  fix n assume "n < LENGTH(32)"
  then consider "n < 8" | "8 \<le> n" "n < 16" | "16 \<le> n" "n < 24" | "24 \<le> n" "n < 32"
    by fastforce
  then show "bit (mem32 (ucast x) (ucast (drop_bit 8 x)) (ucast (drop_bit 16 x))
      (ucast (drop_bit 24 x))) n = bit x n"
    unfolding mem32_def by cases (auto simp add: bit_simps)
qed

lemma bytes32_mem [simp]: "bytes32 (mem32 b0 b1 b2 b3) = [b0, b1, b2, b3]"
proof -
  have "ucast (mem32 b0 b1 b2 b3) = b0"
    unfolding mem32_def by (rule bit_word_eqI) (auto simp add: bit_simps)
  moreover have "ucast (drop_bit 8 (mem32 b0 b1 b2 b3)) = b1"
    unfolding mem32_def by (rule bit_word_eqI) (auto simp add: bit_simps dest: bit_imp_le_length)
  moreover have "ucast (drop_bit 16 (mem32 b0 b1 b2 b3)) = b2"
    unfolding mem32_def by (rule bit_word_eqI) (auto simp add: bit_simps dest: bit_imp_le_length)
  moreover have "ucast (drop_bit 24 (mem32 b0 b1 b2 b3)) = b3"
    unfolding mem32_def by (rule bit_word_eqI) (auto simp add: bit_simps dest: bit_imp_le_length)
  ultimately show ?thesis
    by (simp add: bytes32_def)
qed

lemma mem16_0 [simp]: "mem16 0 0 = 0" and mem32_0 [simp]: "mem32 0 0 0 0 = 0"
  by (simp_all add: mem16_def mem32_def)

lemma bytes16_inject [simp]: "bytes16 x = bytes16 y \<longleftrightarrow> x = y"
proof
  assume "bytes16 x = bytes16 y"
  then have "mem16 (bytes16 x ! 0) (bytes16 x ! 1) = mem16 (bytes16 y ! 0) (bytes16 y ! 1)"
    by simp
  then show "x = y"
    by (simp add: bytes16_def)
qed simp

lemma mem16_inject [simp]: "mem16 a b = mem16 c d \<longleftrightarrow> a = c \<and> b = d"
  by (auto dest: arg_cong [where f = bytes16])

lemma mem32_inject [simp]:
  "mem32 a b c d = mem32 a' b' c' d' \<longleftrightarrow> a = a' \<and> b = b' \<and> c = c' \<and> d = d'"
  by (auto dest: arg_cong [where f = bytes32])

subsection \<open>Byte order conversion\<close>

definition badvpn_reverse16 :: "u16 \<Rightarrow> u16" where
  "badvpn_reverse16 x = mem16 (bytes16 x ! 1) (bytes16 x ! 0)"

definition badvpn_reverse32 :: "u32 \<Rightarrow> u32" where
  "badvpn_reverse32 x =
     mem32 (bytes32 x ! 3) (bytes32 x ! 2) (bytes32 x ! 1) (bytes32 x ! 0)"

definition hton8 :: "byte \<Rightarrow> byte" where "hton8 x = x"
definition htol8 :: "byte \<Rightarrow> byte" where "htol8 x = x"
definition hton16 :: "u16 \<Rightarrow> u16" where "hton16 x = badvpn_reverse16 x"
definition hton32 :: "u32 \<Rightarrow> u32" where "hton32 x = badvpn_reverse32 x"
definition htol16 :: "u16 \<Rightarrow> u16" where "htol16 x = x"
definition htol32 :: "u32 \<Rightarrow> u32" where "htol32 x = x"
definition ntoh8 :: "byte \<Rightarrow> byte" where "ntoh8 x = hton8 x"
definition ntoh16 :: "u16 \<Rightarrow> u16" where "ntoh16 x = hton16 x"
definition ntoh32 :: "u32 \<Rightarrow> u32" where "ntoh32 x = hton32 x"
definition ltoh8 :: "byte \<Rightarrow> byte" where "ltoh8 x = htol8 x"
definition ltoh16 :: "u16 \<Rightarrow> u16" where "ltoh16 x = htol16 x"
definition ltoh32 :: "u32 \<Rightarrow> u32" where "ltoh32 x = htol32 x"

lemmas byteorder_defs = hton8_def htol8_def hton16_def hton32_def htol16_def htol32_def
  ntoh8_def ntoh16_def ntoh32_def ltoh8_def ltoh16_def ltoh32_def

lemma reverse16_mem [simp]: "badvpn_reverse16 (mem16 a b) = mem16 b a"
  by (simp add: badvpn_reverse16_def)

lemma reverse32_mem [simp]: "badvpn_reverse32 (mem32 a b c d) = mem32 d c b a"
  by (simp add: badvpn_reverse32_def)

lemma mem16_cases: obtains a b where "x = mem16 a b"
  using mem16_bytes [of x, symmetric] by blast

lemma mem32_cases: obtains a b c d where "x = mem32 a b c d"
  using mem32_bytes [of x, symmetric] by blast

lemma reverse16_reverse16 [simp]: "badvpn_reverse16 (badvpn_reverse16 x) = x"
  by (rule mem16_cases [of x]) simp

lemma reverse32_reverse32 [simp]: "badvpn_reverse32 (badvpn_reverse32 x) = x"
  by (rule mem32_cases [of x]) simp

lemma ntoh16_hton16 [simp]: "ntoh16 (hton16 x) = x" and hton16_ntoh16 [simp]: "hton16 (ntoh16 x) = x"
  by (simp_all add: byteorder_defs)

lemma ntoh32_hton32 [simp]: "ntoh32 (hton32 x) = x" and hton32_ntoh32 [simp]: "hton32 (ntoh32 x) = x"
  by (simp_all add: byteorder_defs)

lemma ltoh16_htol16 [simp]: "ltoh16 (htol16 x) = x"
  by (simp add: byteorder_defs)

lemma hton16_0 [simp]: "hton16 0 = 0"
  by (simp add: byteorder_defs badvpn_reverse16_def bytes16_def)

lemma ntoh16_inject [simp]: "ntoh16 x = ntoh16 y \<longleftrightarrow> x = y"
  by (auto dest: arg_cong [where f = hton16])

lemma ntoh32_inject [simp]: "ntoh32 x = ntoh32 y \<longleftrightarrow> x = y"
  by (auto dest: arg_cong [where f = hton32])

subsection \<open>Reading and writing integers of a given byte order\<close>

definition badvpn_read_be16 :: "byte list \<Rightarrow> u16" where
  "badvpn_read_be16 ptr = push_bit 8 (ucast (ptr ! 0)) OR ucast (ptr ! 1)"

definition badvpn_read_le16 :: "byte list \<Rightarrow> u16" where
  "badvpn_read_le16 ptr = push_bit 8 (ucast (ptr ! 1)) OR ucast (ptr ! 0)"

definition badvpn_read_be32 :: "byte list \<Rightarrow> u32" where
  "badvpn_read_be32 ptr =
     push_bit 24 (ucast (ptr ! 0)) OR push_bit 16 (ucast (ptr ! 1)) OR
     push_bit 8 (ucast (ptr ! 2)) OR ucast (ptr ! 3)"

definition badvpn_read_le32 :: "byte list \<Rightarrow> u32" where
  "badvpn_read_le32 ptr =
     push_bit 24 (ucast (ptr ! 3)) OR push_bit 16 (ucast (ptr ! 2)) OR
     push_bit 8 (ucast (ptr ! 1)) OR ucast (ptr ! 0)"

definition badvpn_write_be16 :: "u16 \<Rightarrow> byte list \<Rightarrow> byte list" where
  "badvpn_write_be16 x ptr = ptr[0 := ucast (drop_bit 8 x), 1 := ucast x]"

definition badvpn_write_le16 :: "u16 \<Rightarrow> byte list \<Rightarrow> byte list" where
  "badvpn_write_le16 x ptr = ptr[1 := ucast (drop_bit 8 x), 0 := ucast x]"

definition badvpn_write_be32 :: "u32 \<Rightarrow> byte list \<Rightarrow> byte list" where
  "badvpn_write_be32 x ptr =
     ptr[0 := ucast (drop_bit 24 x), 1 := ucast (drop_bit 16 x),
         2 := ucast (drop_bit 8 x), 3 := ucast x]"

definition badvpn_write_le32 :: "u32 \<Rightarrow> byte list \<Rightarrow> byte list" where
  "badvpn_write_le32 x ptr =
     ptr[3 := ucast (drop_bit 24 x), 2 := ucast (drop_bit 16 x),
         1 := ucast (drop_bit 8 x), 0 := ucast x]"

lemma read_be16_mem: "badvpn_read_be16 ptr = mem16 (ptr ! 1) (ptr ! 0)"
  by (simp add: badvpn_read_be16_def mem16_def)

lemma read_le16_mem: "badvpn_read_le16 ptr = mem16 (ptr ! 0) (ptr ! 1)"
  by (simp add: badvpn_read_le16_def mem16_def)

lemma read_be32_mem: "badvpn_read_be32 ptr = mem32 (ptr ! 3) (ptr ! 2) (ptr ! 1) (ptr ! 0)"
  by (simp add: badvpn_read_be32_def mem32_def)

lemma read_le32_mem: "badvpn_read_le32 ptr = mem32 (ptr ! 0) (ptr ! 1) (ptr ! 2) (ptr ! 3)"
  by (simp add: badvpn_read_le32_def mem32_def)

lemma read_be16_hton16: "badvpn_read_be16 (bytes16 x) = ntoh16 x"
  by (simp add: read_be16_mem byteorder_defs badvpn_reverse16_def)

subsection \<open>Alignment\<close>

text \<open>\<^verbatim>\<open>size_t\<close> has 64 bits.\<close>

type_synonym size_t = u64

abbreviation (input) SIZE_MAX :: size_t where "SIZE_MAX \<equiv> - 1"

definition balign_up_overflows :: "size_t \<Rightarrow> size_t \<Rightarrow> bool" where
  "balign_up_overflows x n = (let r = x mod n in r \<noteq> 0 \<and> x > SIZE_MAX - (n - r))"

definition balign_up :: "size_t \<Rightarrow> size_t \<Rightarrow> size_t" where
  "balign_up x n = (let r = x mod n in if r \<noteq> 0 then x + (n - r) else x)"

definition balign_down :: "size_t \<Rightarrow> size_t \<Rightarrow> size_t" where
  "balign_down x n = x - x mod n"

definition bdivide_up :: "size_t \<Rightarrow> size_t \<Rightarrow> size_t" where
  "bdivide_up a b = (let r = a mod b in if r > 0 then a div b + 1 else a div b)"

subsection \<open>Sizes with overflow detection\<close>

record bsize_t =
  is_overflow :: bool
  size_value :: size_t

definition bsize_fromsize :: "size_t \<Rightarrow> bsize_t" where
  "bsize_fromsize v = \<lparr>is_overflow = False, size_value = v\<rparr>"

text \<open>The comparison \<^verbatim>\<open>v > SIZE_MAX\<close> converts the \<^verbatim>\<open>int\<close> to \<^verbatim>\<open>size_t\<close> first.\<close>

definition bsize_fromint :: "int \<Rightarrow> bsize_t" where
  "bsize_fromint v =
     \<lparr>is_overflow = (v < 0 \<or> word_of_int v > SIZE_MAX), size_value = word_of_int v\<rparr>"

definition bsize_overflow :: bsize_t where
  "bsize_overflow = \<lparr>is_overflow = True, size_value = 0\<rparr>"

definition bsize_tosize :: "bsize_t \<Rightarrow> size_t option" where
  "bsize_tosize s = (if is_overflow s then None else Some (size_value s))"

definition bsize_toint :: "bsize_t \<Rightarrow> int option" where
  "bsize_toint s =
     (if is_overflow s \<or> size_value s > word_of_int INT_MAX then None
      else Some (uint (size_value s)))"

definition bsize_add :: "bsize_t \<Rightarrow> bsize_t \<Rightarrow> bsize_t" where
  "bsize_add s1 s2 =
     \<lparr>is_overflow = (is_overflow s1 \<or> is_overflow s2 \<or> size_value s2 > SIZE_MAX - size_value s1),
      size_value = size_value s1 + size_value s2\<rparr>"

definition bsize_max :: "bsize_t \<Rightarrow> bsize_t \<Rightarrow> bsize_t" where
  "bsize_max s1 s2 =
     \<lparr>is_overflow = (is_overflow s1 \<or> is_overflow s2),
      size_value = of_bool (size_value s1 > size_value s2) * size_value s1 +
                   of_bool (size_value s1 \<le> size_value s2) * size_value s2\<rparr>"

definition bsize_mul :: "bsize_t \<Rightarrow> bsize_t \<Rightarrow> bsize_t" where
  "bsize_mul s1 s2 =
     \<lparr>is_overflow = (is_overflow s1 \<or> is_overflow s2 \<or>
        (size_value s1 \<noteq> 0 \<and> size_value s2 > SIZE_MAX div size_value s1)),
      size_value = size_value s1 * size_value s2\<rparr>"

text \<open>
  What a \<^verbatim>\<open>bsize_t\<close> stands for: the exact natural number, or \<open>None\<close> when it was too
  large at some point.
\<close>

definition bsize_abs :: "bsize_t \<Rightarrow> nat option" where
  "bsize_abs s = (if is_overflow s then None else Some (unat (size_value s)))"

definition bsize_fit :: "nat \<Rightarrow> nat option" where
  "bsize_fit n = (if n < 2 ^ 64 then Some n else None)"

lemma bsize_abs_fromsize [simp]: "bsize_abs (bsize_fromsize v) = Some (unat v)"
  by (simp add: bsize_abs_def bsize_fromsize_def)

lemma unat_SIZE_MAX: "unat SIZE_MAX = 2 ^ 64 - 1"
  by (simp add: unsigned_minus_1_eq_mask mask_eq_exp_minus_1)

lemma unat_size_t_less: "unat (a :: size_t) < 2 ^ 64"
  using unsigned_less [of a] by simp

lemma SIZE_MAX_minus: "unat (SIZE_MAX - a) = 2 ^ 64 - 1 - unat a"
  using unat_sub [of a SIZE_MAX] by (simp add: word_order.extremum unat_SIZE_MAX del: unat_sub)

lemma add_overflow_iff: "(b::size_t) > SIZE_MAX - a \<longleftrightarrow> unat a + unat b \<ge> 2 ^ 64"
  using unat_size_t_less [of a] by (auto simp: word_less_nat_alt SIZE_MAX_minus)

lemma bsize_abs_add:
  "bsize_abs (bsize_add s1 s2) =
     Option.bind (bsize_abs s1) (\<lambda>a. Option.bind (bsize_abs s2) (\<lambda>b. bsize_fit (a + b)))"
  by (simp add: bsize_abs_def bsize_add_def bsize_fit_def add_overflow_iff unat_word_ariths)

lemma mul_overflow_iff:
  fixes a b :: size_t
  assumes "a \<noteq> 0"
  shows "b > SIZE_MAX div a \<longleftrightarrow> unat a * unat b \<ge> 2 ^ 64"
proof -
  have pos: "0 < unat a"
    using assms by (simp add: unat_gt_0)
  have "b > SIZE_MAX div a \<longleftrightarrow> (2 ^ 64 - 1) div unat a < unat b"
    by (simp add: word_less_nat_alt unat_div unat_SIZE_MAX)
  also have "\<dots> \<longleftrightarrow> 2 ^ 64 - 1 < unat b * unat a"
    using pos by (rule div_less_iff_less_mult)
  also have "\<dots> \<longleftrightarrow> unat a * unat b \<ge> 2 ^ 64"
    by (auto simp: mult.commute)
  finally show ?thesis .
qed

lemma bsize_abs_mul:
  "bsize_abs (bsize_mul s1 s2) =
     Option.bind (bsize_abs s1) (\<lambda>a. Option.bind (bsize_abs s2) (\<lambda>b. bsize_fit (a * b)))"
  by (cases "size_value s1 = 0")
    (simp_all add: bsize_abs_def bsize_mul_def bsize_fit_def mul_overflow_iff unat_word_ariths)

lemma bsize_abs_max:
  "bsize_abs (bsize_max s1 s2) =
     Option.bind (bsize_abs s1) (\<lambda>a. Option.bind (bsize_abs s2) (\<lambda>b. Some (max a b)))"
  by (auto simp: bsize_abs_def bsize_max_def word_le_nat_alt word_less_nat_alt max_def)

lemma bsize_abs_fromint:
  assumes "v \<le> INT_MAX"
  shows "bsize_abs (bsize_fromint v) = (if v < 0 then None else Some (nat v))"
  using assms
  by (auto simp: bsize_abs_def bsize_fromint_def word_order.extremum not_less
      unsigned_of_int take_bit_int_eq_self)

lemma bsize_toint_abs:
  "bsize_toint s =
     (case bsize_abs s of None \<Rightarrow> None
      | Some n \<Rightarrow> if int n \<le> INT_MAX then Some (int n) else None)"
proof -
  have "size_value s > word_of_int INT_MAX \<longleftrightarrow> \<not> int (unat (size_value s)) \<le> INT_MAX"
    by (simp add: word_less_def not_le)
  then show ?thesis
    by (simp add: bsize_toint_def bsize_abs_def)
qed

subsection \<open>Three-way comparison\<close>

definition B_COMPARE :: "'a::linorder \<Rightarrow> 'a \<Rightarrow> int" where
  "B_COMPARE a b = of_bool (a > b) - of_bool (a < b)"

lemma B_COMPARE_simps [simp]:
  "B_COMPARE a b = 0 \<longleftrightarrow> a = b"
  "B_COMPARE a b = - 1 \<longleftrightarrow> a < b"
  "B_COMPARE a b = 1 \<longleftrightarrow> b < a"
  by (auto simp: B_COMPARE_def)

lemma B_COMPARE_neg: "B_COMPARE a b = - B_COMPARE b a"
  by (auto simp: B_COMPARE_def)

definition B_COMPARE_COMBINE :: "int \<Rightarrow> int \<Rightarrow> int" where
  "B_COMPARE_COMBINE cmp1 cmp2 = (if cmp1 \<noteq> 0 then cmp1 else cmp2)"

definition B_COMPARE2 :: "'a::linorder \<Rightarrow> 'a \<Rightarrow> 'b::linorder \<Rightarrow> 'b \<Rightarrow> int" where
  "B_COMPARE2 a b c d = B_COMPARE_COMBINE (B_COMPARE a b) (B_COMPARE c d)"

subsection \<open>The comparator interface\<close>

text \<open>
  What \<^verbatim>\<open>structure/BAVL.h\<close> asks of a comparator: it returns -1, 0 or 1, swapping the
  arguments negates the result, and it is transitive. Two values it does not
  distinguish compare alike with every other value.
\<close>

locale cmp_order =
  fixes cmp :: "'k \<Rightarrow> 'k \<Rightarrow> int"
  assumes cmp_range: "cmp a b \<in> {-1, 0, 1}"
    and cmp_anti: "cmp b a = - cmp a b"
    and cmp_trans: "cmp a b \<le> 0 \<Longrightarrow> cmp b c \<le> 0 \<Longrightarrow> cmp a c \<le> 0"
begin

lemma cmp_refl [simp]: "cmp a a = 0"
  using cmp_anti [of a a] by simp

lemma cmp_eq_sym: "cmp a b = 0 \<Longrightarrow> cmp b a = 0"
  using cmp_anti [of b a] by simp

lemma cmp_less_iff: "cmp a b = -1 \<longleftrightarrow> cmp b a = 1"
  using cmp_anti [of a b] by simp

lemma cmp_le_iff: "cmp a b \<le> 0 \<longleftrightarrow> cmp a b = -1 \<or> cmp a b = 0"
  using cmp_range [of a b] by auto

lemma cmp_cong: "cmp a b = 0 \<Longrightarrow> cmp a c = cmp b c"
proof -
  assume eq: "cmp a b = 0"
  then have "cmp a c \<le> 0 \<longleftrightarrow> cmp b c \<le> 0" "cmp c a \<le> 0 \<longleftrightarrow> cmp c b \<le> 0"
    using cmp_trans cmp_eq_sym by (metis order_refl)+
  then show ?thesis
    using cmp_range [of a c] cmp_range [of b c] cmp_anti [of c a] cmp_anti [of c b] by auto
qed

lemma cmp_cong2: "cmp a b = 0 \<Longrightarrow> cmp c a = cmp c b"
  using cmp_cong cmp_anti by metis

lemma cmp_less_trans: "cmp a b = -1 \<Longrightarrow> cmp b c = -1 \<Longrightarrow> cmp a c = -1"
proof -
  assume ab: "cmp a b = -1" and bc: "cmp b c = -1"
  then have "cmp a c \<le> 0"
    using cmp_trans [of a b c] by simp
  moreover have "cmp a c \<noteq> 0"
    using ab bc cmp_cong2 [of a c b] cmp_less_iff by force
  ultimately show ?thesis
    using cmp_le_iff by blast
qed

lemma cmp_cases [case_names less equal greater]:
  obtains "cmp a b = -1" | "cmp a b = 0" | "cmp a b = 1"
  using cmp_range by blast

end

lemma cmp_order_pullback: "cmp_order c \<Longrightarrow> cmp_order (\<lambda>a b. c (f a) (f b))"
  unfolding cmp_order_def by blast

lemma cmp_order_combine:
  assumes "cmp_order c1" "cmp_order c2"
  shows "cmp_order (\<lambda>a b. B_COMPARE_COMBINE (c1 a b) (c2 a b))"
proof
  fix a b c
  note l1 = cmp_order.cmp_range [OF assms(1)] cmp_order.cmp_anti [OF assms(1)]
    and l2 = cmp_order.cmp_range [OF assms(2)] cmp_order.cmp_anti [OF assms(2)]
  show "B_COMPARE_COMBINE (c1 a b) (c2 a b) \<in> {-1, 0, 1}"
    using l1(1) [of a b] l2(1) [of a b] by (auto simp: B_COMPARE_COMBINE_def)
  show "B_COMPARE_COMBINE (c1 b a) (c2 b a) = - B_COMPARE_COMBINE (c1 a b) (c2 a b)"
    using l1(2) [of a b] l2(2) [of a b] by (simp add: B_COMPARE_COMBINE_def)
  assume *: "B_COMPARE_COMBINE (c1 a b) (c2 a b) \<le> 0" "B_COMPARE_COMBINE (c1 b c) (c2 b c) \<le> 0"
  then have le: "c1 a b \<le> 0" "c1 b c \<le> 0"
    by (auto simp: B_COMPARE_COMBINE_def split: if_splits)
  then have ac: "c1 a c \<le> 0"
    by (rule cmp_order.cmp_trans [OF assms(1)])
  show "B_COMPARE_COMBINE (c1 a c) (c2 a c) \<le> 0"
  proof (cases "c1 a c = 0")
    case True
    then have "c1 a b = c1 c b"
      by (rule cmp_order.cmp_cong [OF assms(1)])
    then have "c1 a b = 0" "c1 b c = 0"
      using le l1(2) [of b c] by auto
    then show ?thesis
      using * True cmp_order.cmp_trans [OF assms(2)] by (auto simp: B_COMPARE_COMBINE_def)
  qed (use ac in \<open>simp add: B_COMPARE_COMBINE_def\<close>)
qed

interpretation bcompare: cmp_order "B_COMPARE :: 'a::linorder \<Rightarrow> 'a \<Rightarrow> int"
  by unfold_locales (auto simp: B_COMPARE_def)

end
