(* ===== verification/Packets.thy ===== *)
theory Packets
  imports Bytes
begin

text \<open>
  IPv4, IPv6 and UDP headers: \<^verbatim>\<open>misc/ipv4_proto.h\<close>, \<^verbatim>\<open>misc/ipv6_proto.h\<close>,
  \<^verbatim>\<open>misc/udp_proto.h\<close>. A header struct is a record of the host's view of its
  fields, with the function that lays it out in memory (\<open>_bytes\<close>) and the one that
  \<^verbatim>\<open>memcpy\<close>s it from a buffer (\<open>_of\<close>). The checksum loops, the parsers with every
  early return, and what makes them correct: the RFC 1071 receiver's check accepts
  the computed checksum, the parsers split exactly the bytes they were given.
\<close>

subsection \<open>Headers in memory\<close>

record ipv4_header =
  iph_version4_ihl4 :: byte
  iph_ds :: byte
  iph_total_length :: u16
  iph_identification :: u16
  iph_flags3_fragmentoffset13 :: u16
  iph_ttl :: byte
  iph_protocol :: byte
  iph_checksum :: u16
  iph_source_address :: u32
  iph_destination_address :: u32

definition ipv4_header_bytes :: "ipv4_header \<Rightarrow> byte list" where
  "ipv4_header_bytes h =
     [iph_version4_ihl4 h, iph_ds h] @ bytes16 (iph_total_length h) @
     bytes16 (iph_identification h) @ bytes16 (iph_flags3_fragmentoffset13 h) @
     [iph_ttl h, iph_protocol h] @ bytes16 (iph_checksum h) @
     bytes32 (iph_source_address h) @ bytes32 (iph_destination_address h)"

definition ipv4_header_of :: "byte list \<Rightarrow> ipv4_header" where
  "ipv4_header_of d =
     \<lparr>iph_version4_ihl4 = d ! 0, iph_ds = d ! 1, iph_total_length = mem16 (d ! 2) (d ! 3),
      iph_identification = mem16 (d ! 4) (d ! 5),
      iph_flags3_fragmentoffset13 = mem16 (d ! 6) (d ! 7),
      iph_ttl = d ! 8, iph_protocol = d ! 9, iph_checksum = mem16 (d ! 10) (d ! 11),
      iph_source_address = mem32 (d ! 12) (d ! 13) (d ! 14) (d ! 15),
      iph_destination_address = mem32 (d ! 16) (d ! 17) (d ! 18) (d ! 19)\<rparr>"

record udp_header =
  udph_source_port :: u16
  udph_dest_port :: u16
  udph_length :: u16
  udph_checksum :: u16

definition udp_header_bytes :: "udp_header \<Rightarrow> byte list" where
  "udp_header_bytes h =
     bytes16 (udph_source_port h) @ bytes16 (udph_dest_port h) @
     bytes16 (udph_length h) @ bytes16 (udph_checksum h)"

definition udp_header_of :: "byte list \<Rightarrow> udp_header" where
  "udp_header_of d =
     \<lparr>udph_source_port = mem16 (d ! 0) (d ! 1), udph_dest_port = mem16 (d ! 2) (d ! 3),
      udph_length = mem16 (d ! 4) (d ! 5), udph_checksum = mem16 (d ! 6) (d ! 7)\<rparr>"

record ipv6_header =
  ip6h_version4_tc4 :: byte
  ip6h_tc4_fl4 :: byte
  ip6h_fl :: u16
  ip6h_payload_length :: u16
  ip6h_next_header :: byte
  ip6h_hop_limit :: byte
  ip6h_source_address :: "byte list"
  ip6h_destination_address :: "byte list"

definition ipv6_header_bytes :: "ipv6_header \<Rightarrow> byte list" where
  "ipv6_header_bytes h =
     [ip6h_version4_tc4 h, ip6h_tc4_fl4 h] @ bytes16 (ip6h_fl h) @
     bytes16 (ip6h_payload_length h) @ [ip6h_next_header h, ip6h_hop_limit h] @
     ip6h_source_address h @ ip6h_destination_address h"

definition ipv6_header_of :: "byte list \<Rightarrow> ipv6_header" where
  "ipv6_header_of d =
     \<lparr>ip6h_version4_tc4 = d ! 0, ip6h_tc4_fl4 = d ! 1, ip6h_fl = mem16 (d ! 2) (d ! 3),
      ip6h_payload_length = mem16 (d ! 4) (d ! 5), ip6h_next_header = d ! 6,
      ip6h_hop_limit = d ! 7, ip6h_source_address = take 16 (drop 8 d),
      ip6h_destination_address = take 16 (drop 24 d)\<rparr>"

text \<open>The two address arrays of the struct have 16 bytes each.\<close>

definition ipv6_header_wf :: "ipv6_header \<Rightarrow> bool" where
  "ipv6_header_wf h \<longleftrightarrow>
     length (ip6h_source_address h) = 16 \<and> length (ip6h_destination_address h) = 16"

abbreviation (input) "IPV4_PROTOCOL_UDP \<equiv> (17::byte)"
abbreviation (input) "IPV6_NEXT_UDP \<equiv> (17::byte)"
abbreviation (input) "SIZEOF_IPV4_HEADER \<equiv> (20::nat)"
abbreviation (input) "SIZEOF_IPV6_HEADER \<equiv> (40::nat)"
abbreviation (input) "SIZEOF_UDP_HEADER \<equiv> (8::nat)"

definition IPV4_GET_VERSION :: "ipv4_header \<Rightarrow> byte" where
  "IPV4_GET_VERSION h = drop_bit 4 (iph_version4_ihl4 h AND 0xF0)"

definition IPV4_GET_IHL :: "ipv4_header \<Rightarrow> byte" where
  "IPV4_GET_IHL h = iph_version4_ihl4 h AND 0x0F"

definition IPV4_MAKE_VERSION_IHL :: "nat \<Rightarrow> byte" where
  "IPV4_MAKE_VERSION_IHL sz = of_nat (sz div 4 + 4 * 2 ^ 4)"

lemma length_ipv4_header_bytes [simp, bytes_simps]: "length (ipv4_header_bytes h) = 20"
  by (simp add: ipv4_header_bytes_def)

lemma length_udp_header_bytes [simp, bytes_simps]: "length (udp_header_bytes h) = 8"
  by (simp add: udp_header_bytes_def)

lemma length_ipv6_header_bytes [bytes_simps]:
  "ipv6_header_wf h \<Longrightarrow> length (ipv6_header_bytes h) = 40"
  by (simp add: ipv6_header_bytes_def ipv6_header_wf_def)

lemma ipv4_header_of_bytes [simp, bytes_simps]:
  "ipv4_header_of (ipv4_header_bytes h @ rest) = h"
  by (simp add: ipv4_header_of_def ipv4_header_bytes_def bytes16_def bytes32_def)

lemma udp_header_of_bytes [simp, bytes_simps]:
  "udp_header_of (udp_header_bytes h @ rest) = h"
  by (simp add: udp_header_of_def udp_header_bytes_def bytes16_def)

lemma ipv6_header_of_bytes [bytes_simps]:
  "ipv6_header_wf h \<Longrightarrow> ipv6_header_of (ipv6_header_bytes h @ rest) = h"
  by (simp add: ipv6_header_of_def ipv6_header_bytes_def bytes16_def ipv6_header_wf_def)

subsection \<open>Checksums\<close>

text \<open>
  \<open>sum_be16 t d\<close> is the loop that adds the big-endian 16-bit words of \<open>d\<close> to the
  \<^verbatim>\<open>uint32_t\<close> accumulator \<open>t\<close>; a trailing odd byte is not read.
\<close>

fun sum_be16 :: "u32 \<Rightarrow> byte list \<Rightarrow> u32" where
  "sum_be16 t (a # b # d) = sum_be16 (t + ucast (badvpn_read_be16 [a, b])) d"
| "sum_be16 t _ = t"

text \<open>The loop \<^verbatim>\<open>while (t >> 16) t = (t & 0xFFFF) + (t >> 16)\<close>.\<close>

lemma fold_step_unat:
  "unat ((t AND 0xFFFF) + drop_bit 16 (t::u32)) = unat t mod 65536 + unat t div 65536"
proof -
  have "t AND 0xFFFF = t mod 65536"
    using take_bit_eq_mask [of 16 t] by (simp add: mask_eq_exp_minus_1 take_bit_eq_mod)
  then have lo: "unat (t AND 0xFFFF) = unat t mod 65536"
    by (simp add: unat_mod)
  have hi: "unat (drop_bit 16 t) = unat t div 65536"
    by (simp add: drop_bit_eq_div unat_div)
  have "unat t < 2 ^ 32"
    using unsigned_less [of t] by simp
  then have "unat t mod 65536 + unat t div 65536 < 2 ^ 32"
    by simp
  then show ?thesis
    by (simp add: unat_word_ariths lo hi)
qed

lemma drop_bit_16_eq_0_iff: "drop_bit 16 (t::u32) = 0 \<longleftrightarrow> unat t < 65536"
proof -
  have "drop_bit 16 t = 0 \<longleftrightarrow> unat (drop_bit 16 t) = 0"
    by (simp add: unsigned_eq_0_iff)
  also have "\<dots> \<longleftrightarrow> unat t < 65536"
    by (simp add: drop_bit_eq_div unat_div div_eq_0_iff)
  finally show ?thesis .
qed

function checksum_fold :: "u32 \<Rightarrow> u32" where
  "checksum_fold t =
     (if drop_bit 16 t \<noteq> 0 then checksum_fold ((t AND 0xFFFF) + drop_bit 16 t) else t)"
  by pat_completeness auto
termination
proof (relation "measure unat")
  fix t :: u32
  assume "drop_bit 16 t \<noteq> 0"
  then have "65536 \<le> unat t"
    by (simp add: drop_bit_16_eq_0_iff)
  then have "1 \<le> unat t div 65536"
    by (simp add: Suc_le_eq div_greater_zero_iff)
  then have "unat t mod 65536 + unat t div 65536 < unat t"
    using div_mult_mod_eq [of "unat t" 65536] by linarith
  then show "((t AND 0xFFFF) + drop_bit 16 t, t) \<in> measure unat"
    by (simp add: fold_step_unat)
qed simp

declare checksum_fold.simps [simp del]

definition ipv4_checksum :: "ipv4_header \<Rightarrow> byte list \<Rightarrow> u16" where
  "ipv4_checksum header extra =
     hton16 (ucast (NOT (checksum_fold (sum_be16 (sum_be16 0 (ipv4_header_bytes header)) extra))))"

definition udp_checksum_summer :: "byte list \<Rightarrow> u32" where
  "udp_checksum_summer data = sum_be16 0 data"

text \<open>The part of the two UDP checksum functions that sums the header and the payload.\<close>

definition udp_checksum_data :: "udp_header \<Rightarrow> byte list \<Rightarrow> u32" where
  "udp_checksum_data header payload =
     udp_checksum_summer (udp_header_bytes header) +
     (if even (length payload) then udp_checksum_summer payload
      else udp_checksum_summer (butlast payload) +
           udp_checksum_summer (bytes16 (hton16 (push_bit 8 (ucast (last payload))))))"

definition udp_checksum :: "udp_header \<Rightarrow> byte list \<Rightarrow> u32 \<Rightarrow> u32 \<Rightarrow> u16" where
  "udp_checksum header payload source_addr dest_addr =
     (let t = udp_checksum_summer (bytes32 source_addr) + udp_checksum_summer (bytes32 dest_addr) +
              udp_checksum_summer (bytes16 (hton16 17)) +
              udp_checksum_summer (bytes16 (hton16 (of_nat (8 + length payload)))) +
              udp_checksum_data header payload;
          t = NOT (checksum_fold t);
          t = (if t = 0 then 0xFFFF else t)
      in hton16 (ucast t))"

definition udp_ip6_checksum :: "udp_header \<Rightarrow> byte list \<Rightarrow> byte list \<Rightarrow> byte list \<Rightarrow> u16" where
  "udp_ip6_checksum header payload source_addr dest_addr =
     (let t = udp_checksum_summer source_addr + udp_checksum_summer dest_addr +
              udp_checksum_summer (bytes32 (hton32 (of_nat (8 + length payload)))) +
              udp_checksum_summer (bytes32 (hton32 17)) +
              udp_checksum_data header payload;
          t = NOT (checksum_fold t);
          t = (if t = 0 then 0xFFFF else t)
      in hton16 (ucast t))"

subsection \<open>Parsers\<close>

definition ipv4_check :: "byte list \<Rightarrow> (ipv4_header \<times> byte list) option" where
  "ipv4_check data =
     (if length data < SIZEOF_IPV4_HEADER then None
      else let h = ipv4_header_of data in
      if IPV4_GET_VERSION h \<noteq> 4 then None
      else let header_len = unat (IPV4_GET_IHL h) * 4 in
      if header_len < SIZEOF_IPV4_HEADER then None
      else if header_len > length data then None
      else let total_length = unat (ntoh16 (iph_total_length h)) in
      if total_length < header_len then None
      else if total_length > length data then None
      else let checksum_in_packet = iph_checksum h;
               checksum_computed = ipv4_checksum (h\<lparr>iph_checksum := hton16 0\<rparr>)
                 (take (header_len - SIZEOF_IPV4_HEADER) (drop SIZEOF_IPV4_HEADER data)) in
      if checksum_in_packet \<noteq> checksum_computed then None
      else Some (h, take (total_length - header_len) (drop header_len data)))"

definition ipv6_check :: "byte list \<Rightarrow> (ipv6_header \<times> byte list) option" where
  "ipv6_check data =
     (if length data < SIZEOF_IPV6_HEADER then None
      else let h = ipv6_header_of data in
      if drop_bit 4 (ntoh8 (ip6h_version4_tc4 h)) \<noteq> 6 then None
      else let payload_length = unat (ntoh16 (ip6h_payload_length h)) in
      if payload_length > length data - SIZEOF_IPV6_HEADER then None
      else Some (h, take payload_length (drop SIZEOF_IPV6_HEADER data)))"

definition udp_check :: "byte list \<Rightarrow> (udp_header \<times> byte list) option" where
  "udp_check data =
     (if length data < SIZEOF_UDP_HEADER then None
      else let h = udp_header_of data;
               data = drop SIZEOF_UDP_HEADER data;
               udp_length = unat (ntoh16 (udph_length h)) in
      if udp_length < SIZEOF_UDP_HEADER then None
      else if udp_length > SIZEOF_UDP_HEADER + length data then None
      else Some (h, take (udp_length - SIZEOF_UDP_HEADER) data))"

subsection \<open>One's complement sums\<close>

text \<open>
  The exact sum of the big-endian words of a buffer, and the receiver's check of
  RFC 1071: the words, the checksum included, add up to a nonzero multiple of \<open>0xFFFF\<close>.
\<close>

fun be_sum :: "byte list \<Rightarrow> nat" where
  "be_sum (a # b # d) = unat (badvpn_read_be16 [a, b]) + be_sum d"
| "be_sum _ = 0"

definition rfc1071_ok :: "byte list \<Rightarrow> bool" where
  "rfc1071_ok d \<longleftrightarrow> be_sum d \<noteq> 0 \<and> be_sum d mod 65535 = 0"

lemma unat_u16_less: "unat (x :: u16) < 65536"
  using unsigned_less [of x] by simp

lemma be_sum_le: "2 * be_sum d \<le> 65535 * length d"
proof (induction d rule: be_sum.induct)
  case (1 a b d)
  then show ?case
    using unat_u16_less [of "badvpn_read_be16 [a, b]"] by simp
qed simp_all

lemma be_sum_append [simp]: "even (length xs) \<Longrightarrow> be_sum (xs @ ys) = be_sum xs + be_sum ys"
  by (induction xs rule: be_sum.induct) auto

lemma be_sum_bytes16 [simp]: "be_sum (bytes16 x) = unat (ntoh16 x)"
  by (simp add: bytes16_def read_be16_mem byteorder_defs badvpn_reverse16_def)

lemma unat_ucast_u16 [simp]: "unat (ucast (x :: u16) :: u32) = unat x"
  by (simp add: unsigned_ucast_eq take_bit_nat_eq_self_iff less_trans [OF unat_u16_less])

lemma unat_sum_be16:
  "unat t + be_sum d < 2 ^ 32 \<Longrightarrow> unat (sum_be16 t d) = unat t + be_sum d"
proof (induction t d rule: sum_be16.induct)
  case (1 t a b d)
  have "unat (t + ucast (badvpn_read_be16 [a, b])) = unat t + unat (badvpn_read_be16 [a, b])"
    using "1.prems" by (simp add: unat_word_ariths)
  then show ?case
    using 1 by simp
qed simp_all

lemma checksum_fold_props:
  "unat (checksum_fold t) < 65536 \<and>
   unat (checksum_fold t) mod 65535 = unat t mod 65535 \<and>
   (checksum_fold t = 0 \<longleftrightarrow> t = 0)"
proof (induction t rule: checksum_fold.induct)
  case (1 t)
  let ?t' = "(t AND 0xFFFF) + drop_bit 16 t"
  show ?case
  proof (cases "drop_bit 16 t = 0")
    case True
    then show ?thesis
      using drop_bit_16_eq_0_iff [of t] by (simp add: checksum_fold.simps [of t])
  next
    case False
    have eq: "checksum_fold t = checksum_fold ?t'"
      using False by (simp add: checksum_fold.simps [of t])
    have big: "65536 \<le> unat t"
      using False by (simp add: drop_bit_16_eq_0_iff)
    have "unat t = 65535 * (unat t div 65536) + (unat t mod 65536 + unat t div 65536)"
      using div_mult_mod_eq [of "unat t" 65536] by linarith
    then have "unat ?t' mod 65535 = unat t mod 65535"
      by (metis fold_step_unat mod_mult_self4)
    moreover have "?t' \<noteq> 0"
    proof -
      have "0 < unat t div 65536"
        using big by (simp add: div_greater_zero_iff)
      then have "unat ?t' \<noteq> 0"
        by (simp add: fold_step_unat)
      then show ?thesis
        by (metis unsigned_0)
    qed
    ultimately show ?thesis
      using "1.IH" [OF False] big by (auto simp: eq)
  qed
qed

lemma ucast_not_u32: "(ucast (NOT (x::u32)) :: u16) = NOT (ucast x)"
  by (rule bit_word_eqI) (auto simp: bit_simps)

lemma unat_not_u16: "unat (NOT (y::u16)) = 65535 - unat y"
proof -
  have "NOT y = - 1 - y"
    by (simp add: not_eq_complement)
  moreover have "unat (- 1 - y) = unat (- 1 :: u16) - unat y"
    by (rule unat_sub) (rule word_order.extremum)
  ultimately show ?thesis
    by (simp add: unsigned_minus_1_eq_mask mask_eq_exp_minus_1)
qed

lemma unat_complement_fold:
  "unat (ucast (NOT (checksum_fold t)) :: u16) = 65535 - unat (checksum_fold t)"
proof -
  have "unat (ucast (checksum_fold t) :: u16) = unat (checksum_fold t)"
    using checksum_fold_props [of t] by (simp add: unsigned_ucast_eq take_bit_nat_eq_self)
  then show ?thesis
    by (simp add: ucast_not_u32 unat_not_u16)
qed

lemma fold_complement_sum:
  assumes "c = (ucast (NOT (checksum_fold t)) :: u16)"
  shows "(unat t + unat c) mod 65535 = 0 \<and> unat t + unat c \<noteq> 0"
proof -
  let ?r = "unat (checksum_fold t)"
  have r: "?r < 65536" "?r mod 65535 = unat t mod 65535" "?r = 0 \<longleftrightarrow> t = 0"
    using checksum_fold_props [of t] by (auto simp: unsigned_eq_0_iff)
  have c: "unat c = 65535 - ?r"
    by (simp add: assms unat_complement_fold)
  have "(unat t + unat c) mod 65535 = (?r + unat c) mod 65535"
    by (metis mod_add_left_eq r(2))
  moreover have "?r + unat c = 65535"
    using r(1) c by simp
  moreover have "unat t + unat c \<noteq> 0"
    using r(3) c by (auto simp: unsigned_eq_0_iff)
  ultimately show ?thesis
    by simp
qed

lemma be_sum_ipv4_header:
  "be_sum (ipv4_header_bytes h) =
     be_sum (ipv4_header_bytes (h\<lparr>iph_checksum := 0\<rparr>)) + unat (ntoh16 (iph_checksum h))"
  by (simp add: ipv4_header_bytes_def bytes16_def bytes32_def read_be16_mem byteorder_defs
      badvpn_reverse16_def)

lemma be_sum_udp_header:
  "be_sum (udp_header_bytes h) =
     be_sum (udp_header_bytes (h\<lparr>udph_checksum := 0\<rparr>)) + unat (ntoh16 (udph_checksum h))"
  by (simp add: udp_header_bytes_def bytes16_def read_be16_mem byteorder_defs
      badvpn_reverse16_def)

lemma unat_ipv4_sum:
  assumes "even (length extra)" "length extra \<le> 40"
  shows "unat (sum_be16 (sum_be16 0 (ipv4_header_bytes h)) extra) =
           be_sum (ipv4_header_bytes h @ extra)"
proof -
  have "2 * be_sum (ipv4_header_bytes h) \<le> 65535 * 20" "2 * be_sum extra \<le> 65535 * 40"
    using be_sum_le [of "ipv4_header_bytes h"] be_sum_le [of extra] assms(2) by auto
  then show ?thesis
    by (simp add: unat_sum_be16)
qed

lemma ipv4_checksum_sum:
  assumes "even (length extra)" "length extra \<le> 40"
    and "iph_checksum h = ipv4_checksum (h\<lparr>iph_checksum := 0\<rparr>) extra"
  shows "rfc1071_ok (ipv4_header_bytes h @ extra)"
proof -
  let ?h0 = "h\<lparr>iph_checksum := 0\<rparr>"
  let ?t = "sum_be16 (sum_be16 0 (ipv4_header_bytes ?h0)) extra"
  have "be_sum (ipv4_header_bytes h @ extra) =
          be_sum (ipv4_header_bytes ?h0 @ extra) + unat (ntoh16 (iph_checksum h))"
    by (simp add: be_sum_ipv4_header [of h])
  also have "\<dots> = unat ?t + unat (ucast (NOT (checksum_fold ?t)) :: u16)"
    using assms by (simp add: unat_ipv4_sum ipv4_checksum_def)
  finally show ?thesis
    using fold_complement_sum [OF refl, of ?t] by (simp add: rfc1071_ok_def)
qed

text \<open>A payload of odd length is summed as if a zero byte followed it.\<close>

definition pad16 :: "byte list \<Rightarrow> byte list" where
  "pad16 d = (if even (length d) then d else d @ [0])"

definition udp_pseudo_header :: "u32 \<Rightarrow> u32 \<Rightarrow> nat \<Rightarrow> byte list" where
  "udp_pseudo_header src dst payload_len =
     bytes32 src @ bytes32 dst @ [0, 17] @ bytes16 (hton16 (of_nat (8 + payload_len)))"

definition udp_ip6_pseudo_header :: "byte list \<Rightarrow> byte list \<Rightarrow> nat \<Rightarrow> byte list" where
  "udp_ip6_pseudo_header src dst payload_len =
     src @ dst @ bytes32 (hton32 (of_nat (8 + payload_len))) @ [0, 0, 0, 17]"

lemma even_length_pad16 [simp]: "even (length (pad16 d))"
  by (simp add: pad16_def)

lemma length_pad16_le: "length (pad16 d) \<le> Suc (length d)"
  by (simp add: pad16_def)

lemma bytes16_17: "bytes16 (hton16 17) = [0, 17]"
  by (simp add: byteorder_defs badvpn_reverse16_def bytes16_def mem16_def)

lemma bytes32_17: "bytes32 (hton32 17) = [0, 0, 0, 17]"
  by (simp add: byteorder_defs badvpn_reverse32_def bytes32_def mem32_def)

lemma shifted_byte: "bytes16 (hton16 (push_bit 8 (ucast b))) = [b, 0]"
proof -
  have "push_bit 8 (ucast b) = mem16 0 b"
    by (simp add: mem16_def)
  then show ?thesis
    by (simp add: byteorder_defs)
qed

lemma be_sum_pad16: "even (length d) \<or> be_sum (pad16 d) = be_sum (butlast d) + be_sum [last d, 0]"
proof (cases "even (length d)")
  case False
  then have "d \<noteq> []"
    by auto
  then have "pad16 d = butlast d @ [last d, 0]"
    using False by (simp add: pad16_def)
  then show ?thesis
    using False by simp
qed simp

lemma unat_summer:
  "length d \<le> 65535 \<Longrightarrow> unat (udp_checksum_summer d) = be_sum d"
  using be_sum_le [of d] by (simp add: udp_checksum_summer_def unat_sum_be16)

lemma unat_add_noov: "unat a + unat b < 2 ^ 32 \<Longrightarrow> unat (a + b :: u32) = unat a + unat b"
  by (simp add: unat_word_ariths)

lemma unat_udp_checksum_data:
  assumes "length payload \<le> 65535"
  shows "unat (udp_checksum_data h payload) = be_sum (udp_header_bytes h @ pad16 payload)"
proof -
  have b: "2 * be_sum (udp_header_bytes h) \<le> 65535 * 8"
    using be_sum_le [of "udp_header_bytes h"] by simp
  have p: "2 * be_sum (pad16 payload) \<le> 65535 * 65536"
    using be_sum_le [of "pad16 payload"] length_pad16_le [of payload] assms by linarith
  have "unat (if even (length payload) then udp_checksum_summer payload
              else udp_checksum_summer (butlast payload) + udp_checksum_summer [last payload, 0]) =
        be_sum (pad16 payload)"
  proof (cases "even (length payload)")
    case True
    then show ?thesis
      using assms by (simp add: pad16_def unat_summer)
  next
    case False
    then have "be_sum (pad16 payload) = be_sum (butlast payload) + be_sum [last payload, 0]"
      using be_sum_pad16 by blast
    moreover have "unat (udp_checksum_summer (butlast payload)) = be_sum (butlast payload)"
      using assms by (intro unat_summer) simp
    moreover have "unat (udp_checksum_summer [last payload, 0]) = be_sum [last payload, 0]"
      by (intro unat_summer) simp
    ultimately show ?thesis
      using False p by (simp add: unat_add_noov del: be_sum.simps)
  qed
  moreover have "unat (udp_checksum_summer (udp_header_bytes h)) = be_sum (udp_header_bytes h)"
    by (intro unat_summer) simp
  ultimately show ?thesis
    using b p by (auto simp: udp_checksum_data_def shifted_byte unat_add_noov simp del: be_sum.simps)
qed

lemma complement_fold_nonzero: "NOT (checksum_fold t) \<noteq> 0"
proof
  assume "NOT (checksum_fold t) = 0"
  then have "checksum_fold t = - 1"
    by (metis bit.double_compl bit.compl_zero)
  then show False
    using checksum_fold_props [of t]
    by (simp add: unsigned_minus_1_eq_mask mask_eq_exp_minus_1)
qed

subsection \<open>The UDP checksums\<close>

lemma unat_udp_sum4:
  assumes "length payload \<le> 65527"
  shows "unat (udp_checksum_summer (bytes32 s) + udp_checksum_summer (bytes32 d) +
              udp_checksum_summer (bytes16 (hton16 17)) +
              udp_checksum_summer (bytes16 (hton16 (of_nat (8 + length payload)))) +
              udp_checksum_data h payload) =
         be_sum (udp_pseudo_header s d (length payload) @ udp_header_bytes h @ pad16 payload)"
proof -
  let ?l = "bytes16 (hton16 (of_nat (8 + length payload)))"
  have "2 * be_sum (udp_header_bytes h @ pad16 payload) \<le> 65535 * 65536"
    using be_sum_le [of "udp_header_bytes h @ pad16 payload"] length_pad16_le [of payload] assms
    by simp
  moreover have "2 * be_sum (bytes32 s) \<le> 65535 * 4" "2 * be_sum (bytes32 d) \<le> 65535 * 4"
    "2 * be_sum ?l \<le> 65535 * 2" "be_sum [0, 17] = 17" "\<And>x. be_sum (0 # 17 # x) = 17 + be_sum x"
    using be_sum_le [of "bytes32 s"] be_sum_le [of "bytes32 d"] be_sum_le [of ?l]
    by (simp_all add: read_be16_mem mem16_def)
  ultimately show ?thesis
    using assms unfolding udp_pseudo_header_def bytes16_17
    by (simp add: unat_add_noov unat_summer unat_udp_checksum_data del: be_sum.simps be_sum_bytes16)
qed

lemma unat_udp_sum6:
  assumes "length payload \<le> 65527" "length s = 16" "length d = 16"
  shows "unat (udp_checksum_summer s + udp_checksum_summer d +
              udp_checksum_summer (bytes32 (hton32 (of_nat (8 + length payload)))) +
              udp_checksum_summer (bytes32 (hton32 17)) +
              udp_checksum_data h payload) =
         be_sum (udp_ip6_pseudo_header s d (length payload) @ udp_header_bytes h @ pad16 payload)"
proof -
  let ?l = "bytes32 (hton32 (of_nat (8 + length payload)))"
  have "2 * be_sum (udp_header_bytes h @ pad16 payload) \<le> 65535 * 65536"
    using be_sum_le [of "udp_header_bytes h @ pad16 payload"] length_pad16_le [of payload] assms
    by simp
  moreover have "2 * be_sum s \<le> 65535 * 16" "2 * be_sum d \<le> 65535 * 16"
    "2 * be_sum ?l \<le> 65535 * 4" "be_sum [0, 0, 0, 17] = 17"
    "\<And>x. be_sum (0 # 0 # 0 # 17 # x) = 17 + be_sum x"
    using be_sum_le [of s] be_sum_le [of d] be_sum_le [of ?l] assms
    by (simp_all add: read_be16_mem mem16_def)
  ultimately show ?thesis
    using assms unfolding udp_ip6_pseudo_header_def bytes32_17
    by (simp add: unat_add_noov unat_summer unat_udp_checksum_data del: be_sum.simps)
qed

lemma udp_checksum_nowrap:
  "udp_checksum h payload s d =
     hton16 (ucast (NOT (checksum_fold
       (udp_checksum_summer (bytes32 s) + udp_checksum_summer (bytes32 d) +
        udp_checksum_summer (bytes16 (hton16 17)) +
        udp_checksum_summer (bytes16 (hton16 (of_nat (8 + length payload)))) +
        udp_checksum_data h payload))))"
  by (simp add: udp_checksum_def complement_fold_nonzero Let_def)

lemma udp_ip6_checksum_nowrap:
  "udp_ip6_checksum h payload s d =
     hton16 (ucast (NOT (checksum_fold
       (udp_checksum_summer s + udp_checksum_summer d +
        udp_checksum_summer (bytes32 (hton32 (of_nat (8 + length payload)))) +
        udp_checksum_summer (bytes32 (hton32 17)) + udp_checksum_data h payload))))"
  by (simp add: udp_ip6_checksum_def complement_fold_nonzero Let_def)

lemma length_udp_pseudo_header [simp]: "length (udp_pseudo_header s d n) = 12"
  by (simp add: udp_pseudo_header_def)

lemma udp_checksum_sum:
  assumes "length payload \<le> 65527"
    and "udph_checksum h = udp_checksum (h\<lparr>udph_checksum := 0\<rparr>) payload s d"
  shows "rfc1071_ok (udp_pseudo_header s d (length payload) @ udp_header_bytes h @ pad16 payload)"
proof -
  let ?h0 = "h\<lparr>udph_checksum := 0\<rparr>"
  let ?P = "udp_pseudo_header s d (length payload)"
  have "be_sum (?P @ udp_header_bytes h @ pad16 payload) =
          be_sum (?P @ udp_header_bytes ?h0 @ pad16 payload) + unat (ntoh16 (udph_checksum h))"
    by (simp add: be_sum_udp_header [of h])
  then show ?thesis
    unfolding rfc1071_ok_def assms(2) udp_checksum_nowrap unat_udp_sum4 [OF assms(1), symmetric]
    using fold_complement_sum [OF refl] by simp
qed

lemma udp_ip6_checksum_sum:
  assumes "length payload \<le> 65527" "length s = 16" "length d = 16"
    and "udph_checksum h = udp_ip6_checksum (h\<lparr>udph_checksum := 0\<rparr>) payload s d"
  shows "rfc1071_ok (udp_ip6_pseudo_header s d (length payload) @ udp_header_bytes h @ pad16 payload)"
proof -
  let ?h0 = "h\<lparr>udph_checksum := 0\<rparr>"
  let ?P = "udp_ip6_pseudo_header s d (length payload)"
  have "be_sum (?P @ udp_header_bytes h @ pad16 payload) =
          be_sum (?P @ udp_header_bytes ?h0 @ pad16 payload) + unat (ntoh16 (udph_checksum h))"
    by (simp add: be_sum_udp_header [of h] udp_ip6_pseudo_header_def assms)
  then show ?thesis
    unfolding rfc1071_ok_def assms(4) udp_ip6_checksum_nowrap
      unat_udp_sum6 [OF assms(1,2,3), symmetric]
    using fold_complement_sum [OF refl] by simp
qed

lemma hton16_eq_0_iff: "hton16 x = 0 \<longleftrightarrow> x = 0"
  by (metis hton16_0 ntoh16_hton16)

lemma checksum_result_eq_0_iff:
  "hton16 (ucast (NOT (checksum_fold t))) = 0 \<longleftrightarrow> unat t \<noteq> 0 \<and> unat t mod 65535 = 0"
proof -
  let ?r = "unat (checksum_fold t)"
  have r: "?r < 65536" "?r mod 65535 = unat t mod 65535" "?r = 0 \<longleftrightarrow> unat t = 0"
    using checksum_fold_props [of t] by (auto simp: unsigned_eq_0_iff)
  have "hton16 (ucast (NOT (checksum_fold t))) = 0 \<longleftrightarrow> 65535 - ?r = 0"
    using unat_complement_fold [of t] unsigned_eq_0_iff
    by (metis hton16_eq_0_iff)
  also have "\<dots> \<longleftrightarrow> ?r = 65535"
    using r(1) by linarith
  also have "\<dots> \<longleftrightarrow> ?r \<noteq> 0 \<and> ?r mod 65535 = 0"
    using r(1) by (auto simp: mod_eq_0_iff_dvd elim!: dvdE)
  finally show ?thesis
    using r(2,3) by simp
qed

subsection \<open>The parsers split exactly what they are given\<close>

lemma length_ge_split: "n \<le> length d \<Longrightarrow> \<exists>x y. d = x @ y \<and> length x = n"
  by (metis append_take_drop_id length_take min.absorb2)

lemma take_eq_map_nth: "n \<le> length d \<Longrightarrow> take n d = map ((!) d) [0..<n]"
  by (simp add: list_eq_iff_nth_eq)

lemma ipv4_header_bytes_of: "20 \<le> length d \<Longrightarrow> ipv4_header_bytes (ipv4_header_of d) = take 20 d"
  by (simp add: take_eq_map_nth ipv4_header_bytes_def ipv4_header_of_def upt_conv_Cons eval_nat_numeral)

lemma udp_header_bytes_of: "8 \<le> length d \<Longrightarrow> udp_header_bytes (udp_header_of d) = take 8 d"
  by (simp add: take_eq_map_nth udp_header_bytes_def udp_header_of_def upt_conv_Cons eval_nat_numeral)

lemma ipv6_header_bytes_of:
  assumes "40 \<le> length d"
  shows "ipv6_header_bytes (ipv6_header_of d) = take 40 d \<and> ipv6_header_wf (ipv6_header_of d)"
proof -
  have "take 8 d = [d ! 0, d ! 1, d ! 2, d ! 3, d ! 4, d ! 5, d ! 6, d ! 7]"
    using assms by (simp add: take_eq_map_nth upt_conv_Cons eval_nat_numeral)
  moreover have "take 40 d = take 8 d @ take 16 (drop 8 d) @ take 16 (drop 24 d)"
    using take_add [of 8 32 d] take_add [of 16 16 "drop 8 d"] by simp
  ultimately show ?thesis
    using assms by (simp add: ipv6_header_bytes_def ipv6_header_of_def ipv6_header_wf_def)
qed

lemma ipv4_header_split: "20 \<le> length d \<Longrightarrow> ipv4_header_bytes (ipv4_header_of d) @ drop 20 d = d"
  by (simp add: ipv4_header_bytes_of)

text \<open>The condition under which the header of a datagram is accepted, options included.\<close>

definition ipv4_header_ok :: "ipv4_header \<Rightarrow> byte list \<Rightarrow> nat \<Rightarrow> bool" where
  "ipv4_header_ok h opts payload_len \<longleftrightarrow>
     iph_version4_ihl4 h = of_nat (64 + (20 + length opts) div 4) \<and>
     4 dvd length opts \<and> length opts \<le> 40 \<and>
     unat (ntoh16 (iph_total_length h)) = 20 + length opts + payload_len \<and>
     iph_checksum h = ipv4_checksum (h\<lparr>iph_checksum := 0\<rparr>) opts"

lemma version_ihl:
  "drop_bit 4 (b AND 0xF0) = (4::byte) \<and> unat (b AND 0x0F) * 4 = n \<longleftrightarrow>
   4 dvd n \<and> n \<le> 60 \<and> b = of_nat (64 + n div 4)"
proof -
  have "b AND 0x0F = b mod 16"
    using take_bit_eq_mask [of 4 b] by (simp add: mask_eq_exp_minus_1 take_bit_eq_mod)
  then have lo: "unat (b AND 0x0F) = unat b mod 16"
    by (simp only: unat_mod) simp
  have "n = 0 \<or> n = 1 \<or> n = 2 \<or> n = 3" if "n < 4" for n :: nat
    using that by arith
  then have "bit (15::byte) n" if "n < 4" for n
    using that by fastforce
  moreover have "n < 4" if "bit b (4 + n)" for n
    using bit_imp_le_length [OF that] by simp
  ultimately have "drop_bit 4 (b AND 0xF0) = drop_bit 4 b"
    by (intro bit_word_eqI) (auto simp: bit_simps)
  then have hi: "drop_bit 4 (b AND 0xF0) = 4 \<longleftrightarrow> unat b div 16 = 4"
    by (simp add: drop_bit_eq_div unat_div word_unat_eq_iff)
  have "unat b div 16 = 4 \<and> unat b mod 16 * 4 = n \<longleftrightarrow> 4 dvd n \<and> n \<le> 60 \<and> unat b = 64 + n div 4"
    (is "?A \<longleftrightarrow> ?B")
  proof
    assume ?A
    define r where "r = unat b mod 16"
    have "r < 16" "unat b = 64 + r" "n = 4 * r"
      using \<open>?A\<close> div_mult_mod_eq [of "unat b" 16] by (auto simp: r_def)
    then show ?B
      by simp
  next
    assume ?B
    then obtain k where "n = 4 * k" "k \<le> 15" "unat b = k + 4 * 16"
      by (auto elim!: dvdE)
    then show ?A
      by (simp only: mod_mult_self1) simp
  qed
  moreover have "b = of_nat (64 + n div 4) \<longleftrightarrow> unat b = 64 + n div 4" if "n \<le> 60"
    using that by (simp add: word_unat_eq_iff unat_word_ariths unat_of_nat)
  ultimately show ?thesis
    unfolding lo hi by blast
qed

lemma ipv4_check_iff:
  "ipv4_check data = Some (h, payload) \<longleftrightarrow>
     (\<exists>opts trail. data = ipv4_header_bytes h @ opts @ payload @ trail \<and>
        ipv4_header_ok h opts (length payload))" (is "?L \<longleftrightarrow> ?R")
proof
  assume ?L
  let ?n = "unat (IPV4_GET_IHL h) * 4" and ?t = "unat (ntoh16 (iph_total_length h))"
  let ?opts = "take (?n - 20) (drop 20 data)"
  from \<open>?L\<close> have d: "20 \<le> length data" "h = ipv4_header_of data" "IPV4_GET_VERSION h = 4"
    "20 \<le> ?n" "?n \<le> length data" "?n \<le> ?t" "?t \<le> length data"
    "iph_checksum h = ipv4_checksum (h\<lparr>iph_checksum := 0\<rparr>) ?opts"
    "payload = take (?t - ?n) (drop ?n data)"
    by (auto simp: ipv4_check_def Let_def not_less hton16_0 split: if_splits)
  have "drop 20 data = ?opts @ drop ?n data"
    using d(4) by (metis append_take_drop_id drop_drop le_add_diff_inverse2)
  moreover have "drop ?n data = payload @ drop ?t data"
    using d(6,9) by (metis append_take_drop_id drop_drop le_add_diff_inverse2)
  ultimately have "data = ipv4_header_bytes h @ ?opts @ payload @ drop ?t data"
    using ipv4_header_split [OF d(1)] d(2) by simp
  moreover have "4 dvd ?n" "?n \<le> 60" "iph_version4_ihl4 h = of_nat (64 + ?n div 4)"
    using version_ihl [of "iph_version4_ihl4 h" ?n] d(3)
    by (auto simp: IPV4_GET_VERSION_def IPV4_GET_IHL_def)
  moreover have "length ?opts = ?n - 20" "length payload = ?t - ?n"
    using d by simp_all
  ultimately have "ipv4_header_ok h ?opts (length payload)"
    using d by (simp add: ipv4_header_ok_def dvd_diff_nat)
  with \<open>data = _\<close> show ?R
    by blast
next
  assume ?R
  then obtain opts trail where d: "data = ipv4_header_bytes h @ opts @ payload @ trail"
    and ok: "ipv4_header_ok h opts (length payload)"
    by blast
  have "IPV4_GET_VERSION h = 4" "unat (IPV4_GET_IHL h) * 4 = 20 + length opts"
    using version_ihl [of "iph_version4_ihl4 h" "20 + length opts"] ok
    by (auto simp: IPV4_GET_VERSION_def IPV4_GET_IHL_def ipv4_header_ok_def)
  then show ?L
    using ok by (simp add: d ipv4_check_def ipv4_header_ok_def hton16_0)
qed

lemma udp_check_iff:
  "udp_check data = Some (h, payload) \<longleftrightarrow>
     (\<exists>trail. data = udp_header_bytes h @ payload @ trail \<and>
        unat (ntoh16 (udph_length h)) = 8 + length payload)" (is "?L \<longleftrightarrow> ?R")
proof
  assume ?L
  let ?n = "unat (ntoh16 (udph_length h))"
  from \<open>?L\<close> have d: "8 \<le> length data" "h = udp_header_of data" "8 \<le> ?n" "?n \<le> length data"
    "payload = take (?n - 8) (drop 8 data)"
    by (auto simp: udp_check_def Let_def not_less split: if_splits)
  have "data = take 8 data @ payload @ drop ?n data"
    using d(3,5) by (metis append_take_drop_id drop_drop le_add_diff_inverse2)
  then have "data = udp_header_bytes h @ payload @ drop ?n data"
    using d(1,2) udp_header_bytes_of by simp
  moreover have "?n = 8 + length payload"
    using d by simp
  ultimately show ?R
    by blast
qed (auto simp: udp_check_def)

lemma ipv6_check_iff:
  "ipv6_check data = Some (h, payload) \<longleftrightarrow>
     (\<exists>trail. data = ipv6_header_bytes h @ payload @ trail \<and> ipv6_header_wf h \<and>
        drop_bit 4 (ip6h_version4_tc4 h) = 6 \<and>
        unat (ntoh16 (ip6h_payload_length h)) = length payload)" (is "?L \<longleftrightarrow> ?R")
proof
  assume ?L
  let ?n = "unat (ntoh16 (ip6h_payload_length h))"
  from \<open>?L\<close> have d: "40 \<le> length data" "h = ipv6_header_of data" "?n \<le> length data - 40"
    "drop_bit 4 (ip6h_version4_tc4 h) = 6" "payload = take ?n (drop 40 data)"
    by (auto simp: ipv6_check_def Let_def not_less byteorder_defs split: if_splits)
  have "data = take 40 data @ payload @ drop (?n + 40) data"
    using d(5) by (metis append_take_drop_id drop_drop)
  then have "data = ipv6_header_bytes h @ payload @ drop (?n + 40) data" "ipv6_header_wf h"
    using d(1,2) ipv6_header_bytes_of by simp_all
  moreover have "?n = length payload"
    using d by simp
  ultimately show ?R
    using d(4) by blast
next
  assume ?R
  then show ?L
    by (auto simp: ipv6_check_def ipv6_header_of_bytes length_ipv6_header_bytes byteorder_defs)
qed

subsection \<open>What the checksum comparisons accept\<close>

lemma mem16_eq_0_iff: "mem16 a b = 0 \<longleftrightarrow> a = 0 \<and> b = 0"
  by (metis mem16_0 mem16_inject)

lemma multiple_65535:
  assumes "(s::nat) mod 65535 = 0" "s \<noteq> 0" "s < 131070"
  shows "s = 65535"
proof -
  obtain k where "s = 65535 * k"
    using assms(1) by auto
  with assms(2,3) have "k \<noteq> 0" "k < 2"
    by auto
  with \<open>s = 65535 * k\<close> show ?thesis
    by simp
qed

lemma complement_fold_iff:
  assumes "t \<noteq> 0"
  shows "c = (ucast (NOT (checksum_fold t)) :: u16) \<longleftrightarrow>
           (unat t + unat c) mod 65535 = 0 \<and> unat c \<noteq> 65535"
proof -
  let ?r = "unat (checksum_fold t)"
  have r: "?r < 65536" "?r mod 65535 = unat t mod 65535" "?r \<noteq> 0"
    using checksum_fold_props [of t] assms by (auto simp: unsigned_eq_0_iff)
  have "(unat t + unat c) mod 65535 = (?r + unat c) mod 65535"
    by (metis mod_add_left_eq r(2))
  moreover have "unat c < 65536"
    by (rule unat_u16_less)
  ultimately have "(unat t + unat c) mod 65535 = 0 \<and> unat c \<noteq> 65535 \<longleftrightarrow> unat c = 65535 - ?r"
    using r(1,3) multiple_65535 [of "?r + unat c"] by auto
  then show ?thesis
    using unat_complement_fold [of t] by (simp add: word_unat_eq_iff)
qed

lemma ntoh16_eq_FFFF_iff: "unat (ntoh16 c) = 65535 \<longleftrightarrow> c = 0xFFFF"
proof -
  have "(0xFFFF :: u16) = mem16 0xFF 0xFF"
    by (simp add: mem16_def)
  then have "ntoh16 0xFFFF = 0xFFFF"
    by (metis reverse16_mem hton16_def ntoh16_def)
  then have "c = 0xFFFF \<longleftrightarrow> ntoh16 c = 0xFFFF"
    by (metis ntoh16_inject)
  also have "\<dots> \<longleftrightarrow> unat (ntoh16 c) = unat (0xFFFF :: u16)"
    by (simp only: word_unat_eq_iff)
  finally show ?thesis
    by simp
qed

lemma be_sum_version: "iph_version4_ihl4 h \<noteq> 0 \<Longrightarrow> be_sum (ipv4_header_bytes h) \<noteq> 0"
  by (simp add: ipv4_header_bytes_def read_be16_mem unsigned_eq_0_iff mem16_eq_0_iff)

lemma ipv4_checksum_iff:
  assumes "even (length opts)" "length opts \<le> 40" "iph_version4_ihl4 h \<noteq> 0"
  shows "iph_checksum h = ipv4_checksum (h\<lparr>iph_checksum := 0\<rparr>) opts \<longleftrightarrow>
           rfc1071_ok (ipv4_header_bytes h @ opts) \<and> iph_checksum h \<noteq> 0xFFFF"
proof -
  let ?h0 = "h\<lparr>iph_checksum := 0\<rparr>"
  let ?t = "sum_be16 (sum_be16 0 (ipv4_header_bytes ?h0)) opts"
  have t: "unat ?t = be_sum (ipv4_header_bytes ?h0 @ opts)"
    using assms by (simp add: unat_ipv4_sum)
  then have "?t \<noteq> 0"
    using be_sum_version [of ?h0] assms(3) by (auto simp: unsigned_eq_0_iff)
  have "iph_checksum h = ipv4_checksum ?h0 opts \<longleftrightarrow>
          ntoh16 (iph_checksum h) = ucast (NOT (checksum_fold ?t))"
    by (metis ipv4_checksum_def hton16_ntoh16 ntoh16_hton16)
  also have "\<dots> \<longleftrightarrow> (unat ?t + unat (ntoh16 (iph_checksum h))) mod 65535 = 0 \<and> iph_checksum h \<noteq> 0xFFFF"
    using complement_fold_iff [OF \<open>?t \<noteq> 0\<close>] ntoh16_eq_FFFF_iff by simp
  also have "unat ?t + unat (ntoh16 (iph_checksum h)) = be_sum (ipv4_header_bytes h @ opts)"
    by (simp add: t be_sum_ipv4_header [of h])
  finally show ?thesis
    using be_sum_version [OF assms(3)] by (auto simp: rfc1071_ok_def)
qed

lemma udp_checksum_iff:
  assumes "length payload \<le> 65527"
  shows "udph_checksum h = udp_checksum (h\<lparr>udph_checksum := 0\<rparr>) payload s d \<longleftrightarrow>
     rfc1071_ok (udp_pseudo_header s d (length payload) @ udp_header_bytes h @ pad16 payload) \<and>
     udph_checksum h \<noteq> 0xFFFF"
proof -
  let ?h0 = "h\<lparr>udph_checksum := 0\<rparr>"
  let ?P = "udp_pseudo_header s d (length payload)"
  obtain t where t: "unat t = be_sum (?P @ udp_header_bytes ?h0 @ pad16 payload)"
    "udp_checksum ?h0 payload s d = hton16 (ucast (NOT (checksum_fold t)))"
    using udp_checksum_nowrap unat_udp_sum4 [OF assms] by metis
  have P: "be_sum ?P \<noteq> 0"
    by (simp add: udp_pseudo_header_def read_be16_mem mem16_def)
  then have "t \<noteq> 0"
    using t(1) by (auto simp: unsigned_eq_0_iff)
  have "udph_checksum h = udp_checksum ?h0 payload s d \<longleftrightarrow>
          ntoh16 (udph_checksum h) = ucast (NOT (checksum_fold t))"
    by (metis t(2) hton16_ntoh16 ntoh16_hton16)
  also have "\<dots> \<longleftrightarrow> (unat t + unat (ntoh16 (udph_checksum h))) mod 65535 = 0 \<and> udph_checksum h \<noteq> 0xFFFF"
    using complement_fold_iff [OF \<open>t \<noteq> 0\<close>] ntoh16_eq_FFFF_iff by simp
  also have "unat t + unat (ntoh16 (udph_checksum h)) =
      be_sum (?P @ udp_header_bytes h @ pad16 payload)"
    by (simp add: t be_sum_udp_header [of h])
  finally show ?thesis
    using P by (auto simp: rfc1071_ok_def)
qed

lemma four_dvd_even: "4 dvd (n::nat) \<Longrightarrow> even n"
  by (auto elim!: dvdE)

lemma version_ihl_nonzero: "n \<le> 40 \<Longrightarrow> (of_nat (64 + (20 + n) div 4) :: byte) \<noteq> 0"
  by (simp add: word_unat_eq_iff unat_word_ariths unat_of_nat)


text \<open>
  The checksum \<open>udp_checksum\<close> computes passes the receiver's check of RFC 768
  over the pseudo header, the UDP header and the padded payload, for every payload a
  datagram can carry.
\<close>

lemma udp_checksum_accepted:
  assumes "length payload \<le> 65527"
  shows "rfc1071_ok (udp_pseudo_header s d (length payload) @
           udp_header_bytes (h\<lparr>udph_checksum := udp_checksum (h\<lparr>udph_checksum := 0\<rparr>) payload s d\<rparr>) @
           pad16 payload)"
  using udp_checksum_sum [OF assms, of "h\<lparr>udph_checksum := udp_checksum (h\<lparr>udph_checksum := 0\<rparr>) payload s d\<rparr>" s d]
  by simp

text \<open>
  \<^bold>\<open>C37\<close>. \<open>udp_checksum\<close> returns 0, the value that means "no checksum" in UDP, exactly
  for the datagrams whose words already sum to a multiple of \<open>0xFFFF\<close>: the
  substitution of \<open>0xFFFF\<close> that the code means to make never happens, because the
  complement is taken on 32 bits before the comparison with 0.
\<close>

theorem udp_checksum_zero:
  assumes "length payload \<le> 65527"
  shows "udp_checksum h payload s d = 0 \<longleftrightarrow>
     rfc1071_ok (udp_pseudo_header s d (length payload) @ udp_header_bytes h @ pad16 payload)"
  unfolding udp_checksum_nowrap checksum_result_eq_0_iff unat_udp_sum4 [OF assms] rfc1071_ok_def ..

theorem udp_checksum_zero_witness:
  "udp_checksum \<lparr>udph_source_port = 0xDEFF, udph_dest_port = 0, udph_length = 0x0800,
      udph_checksum = 0\<rparr> [] 0 0 = 0"
  using udp_checksum_zero [of "[]" "\<lparr>udph_source_port = 0xDEFF, udph_dest_port = 0,
      udph_length = 0x0800, udph_checksum = 0\<rparr>" 0 0]
  by (simp add: rfc1071_ok_def udp_pseudo_header_def udp_header_bytes_def pad16_def
      byteorder_defs badvpn_reverse16_def bytes16_def bytes32_def mem16_def mem32_def
      read_be16_mem)

end
