(* ===== verification/SockAddr.thy ===== *)
theory SockAddr
  imports Bytes
begin

text \<open>
  Socket addresses: \<^verbatim>\<open>system/BAddr.h\<close>. The tagged unions \<^verbatim>\<open>BIPAddr\<close> and \<^verbatim>\<open>BAddr\<close> are
  datatypes with one constructor per tag, the numbers inside them are in network byte
  order as in the code, an IPv6 address is its 16 bytes. Printing and parsing work on
  C strings (character lists without a NUL); \<^verbatim>\<open>getaddrinfo\<close> is an argument of the
  parsers. The comparator \<open>BAddr_CompareOrder\<close> is an instance of the comparator
  interface, so that it can order an AVL tree.
\<close>

subsection \<open>Types and constructors\<close>

datatype BIPAddr = BIPAddr_None | BIPAddr_IPv4 u32 | BIPAddr_IPv6 "byte list"

datatype BAddr =
    BAddr_None
  | BAddr_IPv4 u32 u16
  | BAddr_IPv6 "byte list" u16
  | BAddr_Packet u16 int int int "byte list"

fun BAddr_type :: "BAddr \<Rightarrow> int" where
  "BAddr_type BAddr_None = 0"
| "BAddr_type (BAddr_IPv4 ip port) = 1"
| "BAddr_type (BAddr_IPv6 ip port) = 2"
| "BAddr_type (BAddr_Packet proto ifindex htype ptype phys) = 5"

definition BIPAddr_IsInvalid :: "BIPAddr \<Rightarrow> bool" where
  "BIPAddr_IsInvalid addr \<longleftrightarrow> addr = BIPAddr_None"

fun BIPAddr_Compare :: "BIPAddr \<Rightarrow> BIPAddr \<Rightarrow> bool" where
  "BIPAddr_Compare (BIPAddr_IPv4 ip1) (BIPAddr_IPv4 ip2) \<longleftrightarrow> ip1 = ip2"
| "BIPAddr_Compare (BIPAddr_IPv6 ip1) (BIPAddr_IPv6 ip2) \<longleftrightarrow> ip1 = ip2"
| "BIPAddr_Compare _ _ \<longleftrightarrow> False"

fun BAddr_GetPort :: "BAddr \<Rightarrow> u16" where
  "BAddr_GetPort (BAddr_IPv4 ip port) = port"
| "BAddr_GetPort (BAddr_IPv6 ip port) = port"
| "BAddr_GetPort _ = 0"

fun BAddr_GetIPAddr :: "BAddr \<Rightarrow> BIPAddr" where
  "BAddr_GetIPAddr (BAddr_IPv4 ip port) = BIPAddr_IPv4 ip"
| "BAddr_GetIPAddr (BAddr_IPv6 ip port) = BIPAddr_IPv6 ip"
| "BAddr_GetIPAddr _ = BIPAddr_None"

fun BAddr_SetPort :: "BAddr \<Rightarrow> u16 \<Rightarrow> BAddr" where
  "BAddr_SetPort (BAddr_IPv4 ip old) port = BAddr_IPv4 ip port"
| "BAddr_SetPort (BAddr_IPv6 ip old) port = BAddr_IPv6 ip port"
| "BAddr_SetPort addr port = addr"

definition BAddr_MakeNone :: BAddr where
  "BAddr_MakeNone = BAddr_None"

definition BAddr_MakeIPv4 :: "u32 \<Rightarrow> u16 \<Rightarrow> BAddr" where
  "BAddr_MakeIPv4 ip port = BAddr_IPv4 ip port"

definition BAddr_MakeIPv6 :: "byte list \<Rightarrow> u16 \<Rightarrow> BAddr" where
  "BAddr_MakeIPv6 ip port = BAddr_IPv6 (take 16 ip) port"

fun BAddr_MakeFromIpaddrAndPort :: "BIPAddr \<Rightarrow> u16 \<Rightarrow> BAddr" where
  "BAddr_MakeFromIpaddrAndPort BIPAddr_None port = BAddr_MakeNone"
| "BAddr_MakeFromIpaddrAndPort (BIPAddr_IPv4 ip) port = BAddr_MakeIPv4 ip port"
| "BAddr_MakeFromIpaddrAndPort (BIPAddr_IPv6 ip) port = BAddr_MakeIPv6 ip port"

definition BAddr_IsInvalid :: "BAddr \<Rightarrow> bool" where
  "BAddr_IsInvalid addr \<longleftrightarrow> addr = BAddr_None"

text \<open>An IP address with a port: the IPv6 array has its 16 bytes.\<close>

fun BAddr_is_ip :: "BAddr \<Rightarrow> bool" where
  "BAddr_is_ip (BAddr_IPv4 ip port) \<longleftrightarrow> True"
| "BAddr_is_ip (BAddr_IPv6 ip port) \<longleftrightarrow> length ip = 16"
| "BAddr_is_ip _ \<longleftrightarrow> False"

lemma BAddr_MakeFromIpaddrAndPort_GetIPAddr:
  "BAddr_is_ip a \<Longrightarrow> BAddr_MakeFromIpaddrAndPort (BAddr_GetIPAddr a) (BAddr_GetPort a) = a"
  by (cases a) (simp_all add: BAddr_MakeIPv4_def BAddr_MakeIPv6_def)

subsection \<open>Comparison\<close>

fun BAddr_Compare :: "BAddr \<Rightarrow> BAddr \<Rightarrow> bool" where
  "BAddr_Compare (BAddr_IPv4 ip1 port1) (BAddr_IPv4 ip2 port2) \<longleftrightarrow> ip1 = ip2 \<and> port1 = port2"
| "BAddr_Compare (BAddr_IPv6 ip1 port1) (BAddr_IPv6 ip2 port2) \<longleftrightarrow> ip1 = ip2 \<and> port1 = port2"
| "BAddr_Compare _ _ \<longleftrightarrow> False"

text \<open>
  \<^verbatim>\<open>memcmp\<close> compares bytes as unsigned; only its sign is used. The code compares arrays
  of the same size, so the cases of different lengths are not reached.
\<close>

fun memcmp :: "byte list \<Rightarrow> byte list \<Rightarrow> int" where
  "memcmp (a # x) (b # y) = (if a = b then memcmp x y else B_COMPARE a b)"
| "memcmp x y = B_COMPARE (length x) (length y)"

fun BAddr_CompareOrder :: "BAddr \<Rightarrow> BAddr \<Rightarrow> int" where
  "BAddr_CompareOrder (BAddr_IPv4 ip1 port1) (BAddr_IPv4 ip2 port2) =
     (let cmp = B_COMPARE (ntoh32 ip1) (ntoh32 ip2) in
      if cmp \<noteq> 0 then cmp else B_COMPARE (ntoh16 port1) (ntoh16 port2))"
| "BAddr_CompareOrder (BAddr_IPv6 ip1 port1) (BAddr_IPv6 ip2 port2) =
     (let cmp = memcmp ip1 ip2 in
      if cmp \<noteq> 0 then B_COMPARE cmp 0 else B_COMPARE (ntoh16 port1) (ntoh16 port2))"
| "BAddr_CompareOrder addr1 addr2 = B_COMPARE (BAddr_type addr1) (BAddr_type addr2)"

lemma memcmp_range: "memcmp x y \<in> {-1, 0, 1}"
  by (induction x y rule: memcmp.induct) (auto simp: B_COMPARE_def)

lemma memcmp_eq_0 [simp]: "memcmp x y = 0 \<longleftrightarrow> x = y"
  by (induction x y rule: memcmp.induct) auto

lemma memcmp_anti: "memcmp y x = - memcmp x y"
  by (induction x y rule: memcmp.induct) (auto simp: B_COMPARE_def)

lemma memcmp_trans: "memcmp x y \<le> 0 \<Longrightarrow> memcmp y z \<le> 0 \<Longrightarrow> memcmp x z \<le> 0"
  by (induction x y arbitrary: z rule: memcmp.induct; case_tac z)
    (auto simp: B_COMPARE_def of_bool_def split: if_splits)

interpretation bytes_cmp: cmp_order memcmp
  using memcmp_range memcmp_anti memcmp_trans by unfold_locales blast+

lemma B_COMPARE_memcmp: "B_COMPARE (memcmp x y) 0 = memcmp x y"
  using memcmp_range [of x y] by (auto simp: B_COMPARE_def)

text \<open>The comparator as a lexicographic product, the form that the interface's closure lemmas take.\<close>

fun BAddr_ip_key :: "BAddr \<Rightarrow> u32" where
  "BAddr_ip_key (BAddr_IPv4 ip port) = ntoh32 ip"
| "BAddr_ip_key _ = 0"

fun BAddr_ip6_key :: "BAddr \<Rightarrow> byte list" where
  "BAddr_ip6_key (BAddr_IPv6 ip port) = ip"
| "BAddr_ip6_key _ = []"

lemma BAddr_CompareOrder_lex:
  "BAddr_CompareOrder a b =
     B_COMPARE_COMBINE (B_COMPARE (BAddr_type a) (BAddr_type b))
       (B_COMPARE_COMBINE (B_COMPARE (BAddr_ip_key a) (BAddr_ip_key b))
          (B_COMPARE_COMBINE (memcmp (BAddr_ip6_key a) (BAddr_ip6_key b))
             (B_COMPARE (ntoh16 (BAddr_GetPort a)) (ntoh16 (BAddr_GetPort b)))))"
  by (cases a; cases b) (auto simp: B_COMPARE_COMBINE_def B_COMPARE_memcmp Let_def)

interpretation baddr: cmp_order BAddr_CompareOrder
proof -
  have "cmp_order (\<lambda>a b. BAddr_CompareOrder a b)"
    unfolding BAddr_CompareOrder_lex
    by (intro cmp_order_combine cmp_order_pullback [where c = B_COMPARE and f = BAddr_type]
        cmp_order_pullback [where c = B_COMPARE and f = BAddr_ip_key]
        cmp_order_pullback [where c = memcmp and f = BAddr_ip6_key]
        cmp_order_pullback [where c = B_COMPARE and f = "\<lambda>a. ntoh16 (BAddr_GetPort a)"]
        bcompare.cmp_order_axioms bytes_cmp.cmp_order_axioms)
  then show "cmp_order BAddr_CompareOrder" .
qed

lemma BAddr_CompareOrder_eq_0_iff:
  "BAddr_is_ip a \<Longrightarrow> BAddr_CompareOrder a b = 0 \<longleftrightarrow> a = b"
  by (cases a; cases b) (auto simp: Let_def)

lemma BAddr_Compare_iff: "BAddr_is_ip a \<Longrightarrow> BAddr_Compare a b \<longleftrightarrow> a = b"
  by (cases a; cases b) auto

subsection \<open>Printing\<close>

text \<open>The conversions \<^verbatim>\<open>%u\<close> and \<^verbatim>\<open>%x\<close> of \<^verbatim>\<open>sprintf\<close>: digits, most significant first.\<close>

definition digit_char :: "nat \<Rightarrow> char" where
  "digit_char d = char_of (if d < 10 then 48 + d else 87 + d)"

function print_base :: "nat \<Rightarrow> nat \<Rightarrow> string" where
  "print_base base n =
     (if n < base \<or> base < 2 then [digit_char (n mod base)]
      else print_base base (n div base) @ [digit_char (n mod base)])"
  by pat_completeness auto
termination
  by (relation "measure snd") auto

declare print_base.simps [simp del]

abbreviation print_dec :: "nat \<Rightarrow> string" where "print_dec \<equiv> print_base 10"
abbreviation print_hex :: "nat \<Rightarrow> string" where "print_hex \<equiv> print_base 16"

fun join_colon :: "string list \<Rightarrow> string" where
  "join_colon [] = []"
| "join_colon [s] = s"
| "join_colon (s # t # r) = s @ CHR '':'' # join_colon (t # r)"

definition print_ipv4 :: "u32 \<Rightarrow> string" where
  "print_ipv4 ip =
     (let b = bytes32 ip in
      print_dec (unat (b ! 0)) @ CHR ''.'' # print_dec (unat (b ! 1)) @ CHR ''.'' #
      print_dec (unat (b ! 2)) @ CHR ''.'' # print_dec (unat (b ! 3)))"

fun BIPAddr_Print :: "BIPAddr \<Rightarrow> string" where
  "BIPAddr_Print BIPAddr_None = ''(none)''"
| "BIPAddr_Print (BIPAddr_IPv4 ip) = print_ipv4 ip"
| "BIPAddr_Print (BIPAddr_IPv6 ip) =
     join_colon (map (\<lambda>i. print_hex (unat (badvpn_read_be16 (drop (2 * i) ip)))) [0..<8])"

definition print_hex2 :: "byte \<Rightarrow> string" where
  "print_hex2 b = (if unat b < 16 then CHR ''0'' # print_hex (unat b) else print_hex (unat b))"

definition print_int :: "int \<Rightarrow> string" where
  "print_int i = (if i < 0 then CHR ''-'' # print_dec (nat (- i)) else print_dec (nat i))"

fun BAddr_Print :: "BAddr \<Rightarrow> string" where
  "BAddr_Print BAddr_None = ''(none)''"
| "BAddr_Print (BAddr_IPv4 ip port) =
     BIPAddr_Print (BIPAddr_IPv4 ip) @ CHR '':'' # print_dec (unat (ntoh16 port))"
| "BAddr_Print (BAddr_IPv6 ip port) =
     BIPAddr_Print (BIPAddr_IPv6 ip) @ CHR '':'' # print_dec (unat (ntoh16 port))"
| "BAddr_Print (BAddr_Packet proto ifindex htype ptype phys) =
     ''proto='' @ print_dec (unat proto) @ '',ifindex='' @ print_int ifindex @
     '',htype=eth,ptype='' @ print_int ptype @ '',addr='' @
     join_colon (map (\<lambda>i. print_hex2 (phys ! i)) [0..<6])"

subsection \<open>Parsing\<close>

definition isspace :: "char \<Rightarrow> bool" where
  "isspace c \<longleftrightarrow> (let n = of_char c :: nat in n = 32 \<or> 9 \<le> n \<and> n \<le> 13)"

definition isdigit :: "char \<Rightarrow> bool" where
  "isdigit c \<longleftrightarrow> (let n = of_char c :: nat in 48 \<le> n \<and> n \<le> 57)"

definition digits_value :: "string \<Rightarrow> nat" where
  "digits_value ds = foldl (\<lambda>n c. 10 * n + (of_char c - 48)) 0 ds"

text \<open>
  \<^verbatim>\<open>strtol(str, &err, 10)\<close>: the value and the unread rest, which is the whole string when
  it holds no number. The strings it is called on have at most five characters, so the
  saturation at \<^verbatim>\<open>LONG_MAX\<close> cannot occur.
\<close>

definition strtol10 :: "string \<Rightarrow> int \<times> string" where
  "strtol10 str =
     (let s = dropWhile isspace str;
          (neg, s) = (case s of c # r \<Rightarrow> if c = CHR ''-'' then (True, r)
                                          else if c = CHR ''+'' then (False, r) else (False, s)
                      | [] \<Rightarrow> (False, s));
          ds = takeWhile isdigit s
      in if ds = [] then (0, str)
         else (if neg then - int (digits_value ds) else int (digits_value ds), dropWhile isdigit s))"

text \<open>
  \<open>getaddrinfo family_inet6 numerichost node\<close> is the address of the first result, in
  network byte order (4 or 16 bytes), or \<open>None\<close> when the resolver fails.
\<close>

type_synonym resolver = "bool \<Rightarrow> bool \<Rightarrow> string \<Rightarrow> byte list option"

definition mem32_of :: "byte list \<Rightarrow> u32" where
  "mem32_of b = mem32 (b ! 0) (b ! 1) (b ! 2) (b ! 3)"

definition BIPAddr_Resolve :: "resolver \<Rightarrow> string \<Rightarrow> bool \<Rightarrow> BIPAddr option" where
  "BIPAddr_Resolve getaddrinfo str noresolve =
     (let inet6 = (str \<noteq> [] \<and> hd str = CHR ''['' \<and> last str = CHR '']'');
          addr_str = (if inet6 then butlast (tl str) else str)
      in if length addr_str > 128 then None
         else case getaddrinfo inet6 noresolve addr_str of
                None \<Rightarrow> None
              | Some b \<Rightarrow> Some (if inet6 then BIPAddr_IPv6 (take 16 b) else BIPAddr_IPv4 (mem32_of b)))"

text \<open>The split of the string at the end of the address: the address and the port that follows.\<close>

definition BAddr_split :: "string \<Rightarrow> (bool \<times> string \<times> string) option" where
  "BAddr_split str =
     (if hd str = CHR ''['' then
        let a = takeWhile (\<lambda>c. c \<noteq> CHR '']'') (tl str); r = drop (length a) (tl str)
        in case r of
             _ # c # port \<Rightarrow> if c = CHR '':'' then Some (True, a, port) else None
           | _ \<Rightarrow> None
      else
        let a = takeWhile (\<lambda>c. c \<noteq> CHR '':'') str
        in case drop (length a) str of
             _ # port \<Rightarrow> Some (False, a, port)
           | [] \<Rightarrow> None)"

text \<open>
  The name buffer is \<open>None\<close> for \<^verbatim>\<open>NULL\<close>, otherwise its size; the result is the address
  and the name part.
\<close>

definition BAddr_Parse2 :: "resolver \<Rightarrow> string \<Rightarrow> nat option \<Rightarrow> bool \<Rightarrow> (BAddr \<times> string) option" where
  "BAddr_Parse2 getaddrinfo str name noresolve =
     (if length str < 1 \<or> length str > 1000 then None
      else case BAddr_split str of
        None \<Rightarrow> None
      | Some (inet6, addr_str, port_str) \<Rightarrow>
          if length addr_str \<ge> 128 then None
          else if length port_str \<ge> 6 then None
          else let (conv_res, err) = strtol10 port_str in
          if port_str = [] \<or> err \<noteq> [] then None
          else if conv_res < 0 \<or> conv_res > UINT16_MAX then None
          else let port = hton16 (of_int conv_res) in
          case getaddrinfo inet6 noresolve addr_str of
            None \<Rightarrow> None
          | Some b \<Rightarrow>
              let addr = (if inet6 then BAddr_IPv6 (take 16 b) port else BAddr_IPv4 (mem32_of b) port) in
              case name of
                None \<Rightarrow> Some (addr, addr_str)
              | Some name_len \<Rightarrow> if length addr_str \<ge> name_len then None else Some (addr, addr_str))"

definition BAddr_Parse :: "resolver \<Rightarrow> string \<Rightarrow> nat option \<Rightarrow> (BAddr \<times> string) option" where
  "BAddr_Parse getaddrinfo str name = BAddr_Parse2 getaddrinfo str name False"

subsection \<open>Printed IPv4 addresses parse back\<close>

lemma digit_char_value: "d < 10 \<Longrightarrow> of_char (digit_char d) = 48 + d"
  by (simp add: digit_char_def of_char_of)

lemma isdigit_digit_char: "d < 10 \<Longrightarrow> isdigit (digit_char d)"
  by (simp add: isdigit_def digit_char_value)

lemma isdigit_not:
  assumes "isdigit c"
  shows "c \<noteq> CHR '':''" "c \<noteq> CHR ''[''" "c \<noteq> CHR ''-''" "c \<noteq> CHR ''+''" "c \<noteq> CHR ''.''" "\<not> isspace c"
  using assms by (auto simp: isdigit_def isspace_def Let_def)

lemma print_dec_digits: "list_all isdigit (print_dec n)"
proof (induction n rule: less_induct)
  case (less n)
  then show ?case
    by (simp add: print_base.simps [of 10 n] isdigit_digit_char)
qed

lemma print_dec_nonempty: "print_dec n \<noteq> []"
  by (simp add: print_base.simps [of 10 n])

lemma digits_value_print_dec: "digits_value (print_dec n) = n"
proof (induction n rule: less_induct)
  case (less n)
  then show ?case
    by (simp add: print_base.simps [of 10 n] digits_value_def digit_char_value)
qed

lemma length_print_dec: "n < 10 ^ Suc k \<Longrightarrow> length (print_dec n) \<le> Suc k"
proof (induction k arbitrary: n)
  case 0
  then show ?case
    by (simp add: print_base.simps [of 10 n])
next
  case (Suc k)
  then have "n div 10 < 10 ^ Suc k"
    by (simp add: div_less_iff_less_mult mult.commute)
  then have "length (print_dec (n div 10)) \<le> Suc k"
    by (rule Suc.IH)
  then show ?case
    by (simp add: print_base.simps [of 10 n])
qed

lemma strtol10_print_dec: "strtol10 (print_dec n) = (int n, [])"
proof -
  obtain c r where p: "print_dec n = c # r"
    using print_dec_nonempty by (meson neq_Nil_conv)
  have d: "list_all isdigit (c # r)"
    using print_dec_digits [of n] by (simp only: p)
  then have "takeWhile isdigit (c # r) = c # r" "dropWhile isdigit (c # r) = []"
    "dropWhile isspace (c # r) = c # r" "c \<noteq> CHR ''-''" "c \<noteq> CHR ''+''"
    using isdigit_not [of c] by (auto simp: list_all_iff dropWhile_eq_Nil_conv takeWhile_eq_all_conv)
  then show ?thesis
    using digits_value_print_dec [of n] by (simp add: strtol10_def p)
qed

lemma print_ipv4_chars: "c \<in> set (print_ipv4 ip) \<Longrightarrow> isdigit c \<or> c = CHR ''.''"
  using print_dec_digits by (auto simp: print_ipv4_def Let_def list_all_iff)

lemma length_print_ipv4: "length (print_ipv4 ip) \<le> 15"
proof -
  have "length (print_dec (unat (b::byte))) \<le> 3" for b
    using length_print_dec [of "unat b" 2] unat_byte_less [of b] by simp
  from this [of "bytes32 ip ! 0"] this [of "bytes32 ip ! 1"] this [of "bytes32 ip ! 2"]
    this [of "bytes32 ip ! 3"] show ?thesis
    by (simp add: print_ipv4_def Let_def)
qed

lemma BAddr_split_ipv4: "BAddr_split (print_ipv4 ip @ CHR '':'' # port) = Some (False, print_ipv4 ip, port)"
proof -
  have nc: "CHR '':'' \<notin> set (print_ipv4 ip)"
    using print_ipv4_chars isdigit_not by blast
  then have "takeWhile (\<lambda>c. c \<noteq> CHR '':'') (print_ipv4 ip @ CHR '':'' # port) = print_ipv4 ip"
    by (subst takeWhile_append2) auto
  moreover have "hd (print_ipv4 ip @ CHR '':'' # port) \<noteq> CHR ''[''"
  proof -
    have "print_ipv4 ip \<noteq> []"
      by (simp add: print_ipv4_def Let_def)
    then have "isdigit (hd (print_ipv4 ip)) \<or> hd (print_ipv4 ip) = CHR ''.''"
      by (intro print_ipv4_chars [of _ ip]) simp
    then have "hd (print_ipv4 ip) \<noteq> CHR ''[''"
      using isdigit_not(2) by auto
    then show ?thesis
      using \<open>print_ipv4 ip \<noteq> []\<close> by simp
  qed
  ultimately show ?thesis
    by (simp add: BAddr_split_def Let_def)
qed

text \<open>
  \<^bold>\<open>C35\<close>. An IPv4 socket address that \<open>BAddr_Print\<close> prints is read back unchanged by
  \<open>BAddr_Parse2\<close>, provided the resolver reads its dotted decimal notation.
\<close>

theorem BAddr_Parse2_Print_ipv4:
  assumes "getaddrinfo False noresolve (print_ipv4 ip) = Some (bytes32 ip)"
  shows "BAddr_Parse2 getaddrinfo (BAddr_Print (BAddr_IPv4 ip port)) None noresolve =
           Some (BAddr_IPv4 ip port, print_ipv4 ip)"
proof -
  let ?p = "unat (ntoh16 port)"
  have p: "?p < 65536"
    using unsigned_less [of "ntoh16 port"] by simp
  then have len: "length (print_dec ?p) \<le> 5"
    using length_print_dec [of ?p 4] by simp
  have "hton16 (of_nat ?p) = port" "mem32_of (bytes32 ip) = ip"
    by (simp_all add: mem32_of_def bytes32_def)
  moreover have "int ?p \<le> 65535"
    using p by linarith
  moreover have "length (print_ipv4 ip @ CHR '':'' # print_dec ?p) \<le> 21"
    using len length_print_ipv4 [of ip] by simp
  ultimately show ?thesis
    using p len length_print_ipv4 [of ip] print_dec_nonempty [of ?p] assms
    by (simp add: BAddr_Parse2_def BAddr_split_ipv4 strtol10_print_dec)
qed

theorem BAddr_Parse2_Print_ipv4_witness:
  "BAddr_Parse2 (\<lambda>inet6 numeric node. if node = ''127.0.0.1'' then Some [127, 0, 0, 1] else None)
     ''127.0.0.1:80'' None True = Some (BAddr_IPv4 0x0100007F (hton16 80), ''127.0.0.1'')"
proof -
  have b: "bytes32 0x0100007F = [127, 0, 0, 1]"
    by (simp add: bytes32_def)
  have ip: "print_ipv4 0x0100007F = ''127.0.0.1''"
    by code_simp
  moreover have "BAddr_Print (BAddr_IPv4 0x0100007F (hton16 80)) = ''127.0.0.1:80''"
    by code_simp
  ultimately show ?thesis
    using BAddr_Parse2_Print_ipv4 [of "\<lambda>inet6 numeric node. if node = ''127.0.0.1'' then Some [127, 0, 0, 1] else None"
        True "0x0100007F" "hton16 80"] by (simp add: b)
qed

text \<open>
  \<^bold>\<open>C36\<close>. \<open>BAddr_CompareOrder\<close> satisfies the comparator interface of the AVL tree
  (three results, antisymmetric, transitive), and on IP addresses it returns 0 exactly
  for equal addresses, as \<open>BAddr_Compare\<close> returns true exactly for them.
\<close>

theorem BAddr_CompareOrder_order:
  "cmp_order BAddr_CompareOrder \<and>
   (BAddr_is_ip a \<longrightarrow> (BAddr_CompareOrder a b = 0 \<longleftrightarrow> a = b) \<and> (BAddr_Compare a b \<longleftrightarrow> a = b))"
  using baddr.cmp_order_axioms BAddr_CompareOrder_eq_0_iff BAddr_Compare_iff by blast

theorem BAddr_CompareOrder_order_witness:
  "BAddr_is_ip (BAddr_IPv4 1 2) \<and> BAddr_CompareOrder (BAddr_IPv4 1 2) (BAddr_IPv4 1 3) \<noteq> 0"
  using BAddr_CompareOrder_order [of "BAddr_IPv4 1 2" "BAddr_IPv4 1 3"] by simp

end
