(* ===== verification/UdpPath.thy ===== *)
theory UdpPath
  imports Packets SockAddr
begin

text \<open>
  The packet path of \<^verbatim>\<open>tun2socks/tun2socks.c\<close> between the TUN device, lwIP and the UDP
  relay: \<open>process_device_udp_packet\<close> takes a UDP datagram out of a device packet,
  \<open>udpgw_client_handler_received\<close> builds the device packet of a relayed datagram,
  \<open>common_netif_output\<close> writes the packets of lwIP. What a handler does to a component
  it calls (the relay client, the device, lwIP) is the value it returns.
\<close>

subsection \<open>Configuration\<close>

record udp_config =
  cfg_udpgw :: bool
  cfg_ip6 :: bool
  cfg_dnsgw :: bool
  cfg_tap_mtu :: int
  cfg_udp_mtu :: int

text \<open>The computation of \<^verbatim>\<open>udp_mtu\<close> in \<^verbatim>\<open>main\<close>.\<close>

definition compute_udp_mtu :: "int \<Rightarrow> bool \<Rightarrow> int" where
  "compute_udp_mtu tap_mtu ip6 =
     (let udp_mtu = tap_mtu - int (SIZEOF_IPV4_HEADER + SIZEOF_UDP_HEADER);
          udp_mtu = (if ip6 then
             let udp_ip6_mtu = tap_mtu - int (SIZEOF_IPV6_HEADER + SIZEOF_UDP_HEADER)
             in if udp_mtu < udp_ip6_mtu then udp_ip6_mtu else udp_mtu
           else udp_mtu)
      in if udp_mtu < 0 then 0 else udp_mtu)"

subsection \<open>From the device\<close>

text \<open>
  The fields of \<^verbatim>\<open>DnsHeader\<close> that are read. Its bit fields are allocated from the least
  significant bit.
\<close>

definition dns_qr :: "byte list \<Rightarrow> byte" where
  "dns_qr d = drop_bit 7 (d ! 2)"

definition dns_rcode :: "byte list \<Rightarrow> byte" where
  "dns_rcode d = d ! 3 AND 0x0F"

definition dns_ans_count :: "byte list \<Rightarrow> u16" where
  "dns_ans_count d = mem16 (d ! 6) (d ! 7)"

definition dns_auth_count :: "byte list \<Rightarrow> u16" where
  "dns_auth_count d = mem16 (d ! 8) (d ! 9)"

abbreviation (input) "SIZEOF_DNS_HEADER \<equiv> (12::nat)"

definition is_dns_query :: "udp_config \<Rightarrow> u16 \<Rightarrow> byte list \<Rightarrow> bool" where
  "is_dns_query cfg dest_port data \<longleftrightarrow>
     cfg_dnsgw cfg \<and> dest_port = hton16 53 \<and>
     (if length data < SIZEOF_DNS_HEADER then False
      else dns_qr data = 0 \<and> dns_rcode data = 0 \<and> dns_ans_count data = 0 \<and> dns_auth_count data = 0)"

text \<open>
  The datagram passed to \<^verbatim>\<open>SocksUdpGwClient_SubmitPacket\<close>: local address, remote
  address, whether it is a DNS query, and the payload. \<open>None\<close> is the return value 0.
\<close>

type_synonym udp_submit = "BAddr \<times> BAddr \<times> bool \<times> byte list"

definition process_device_udp4 :: "udp_config \<Rightarrow> byte list \<Rightarrow> udp_submit option" where
  "process_device_udp4 cfg data =
     (if length data < SIZEOF_IPV4_HEADER \<or> data ! 9 \<noteq> IPV4_PROTOCOL_UDP then None
      else case ipv4_check data of
        None \<Rightarrow> None
      | Some (iph, data) \<Rightarrow>
          (case udp_check data of
             None \<Rightarrow> None
           | Some (udph, data) \<Rightarrow>
               let checksum_in_packet = udph_checksum udph;
                   udph = udph\<lparr>udph_checksum := 0\<rparr>;
                   checksum_computed =
                     udp_checksum udph data (iph_source_address iph) (iph_destination_address iph)
               in if checksum_in_packet \<noteq> checksum_computed then None
                  else Some (BAddr_MakeIPv4 (iph_source_address iph) (udph_source_port udph),
                             BAddr_MakeIPv4 (iph_destination_address iph) (udph_dest_port udph),
                             is_dns_query cfg (udph_dest_port udph) data, data)))"

definition process_device_udp6 :: "udp_config \<Rightarrow> byte list \<Rightarrow> udp_submit option" where
  "process_device_udp6 cfg data =
     (if \<not> cfg_ip6 cfg then None
      else if length data < SIZEOF_IPV6_HEADER \<or> data ! 6 \<noteq> IPV6_NEXT_UDP then None
      else case ipv6_check data of
        None \<Rightarrow> None
      | Some (iph, data) \<Rightarrow>
          (case udp_check data of
             None \<Rightarrow> None
           | Some (udph, data) \<Rightarrow>
               let checksum_in_packet = udph_checksum udph;
                   udph = udph\<lparr>udph_checksum := 0\<rparr>;
                   checksum_computed =
                     udp_ip6_checksum udph data (ip6h_source_address iph) (ip6h_destination_address iph)
               in if checksum_in_packet \<noteq> checksum_computed then None
                  else Some (BAddr_MakeIPv6 (ip6h_source_address iph) (udph_source_port udph),
                             BAddr_MakeIPv6 (ip6h_destination_address iph) (udph_dest_port udph),
                             False, data)))"

definition process_device_udp_packet :: "udp_config \<Rightarrow> byte list \<Rightarrow> udp_submit option" where
  "process_device_udp_packet cfg data =
     (if \<not> cfg_udpgw cfg then None
      else let ip_version = (if length data > 0 then drop_bit 4 (data ! 0) else 0);
               parsed = (if ip_version = 4 then process_device_udp4 cfg data
                         else if ip_version = 6 then process_device_udp6 cfg data
                         else None)
           in case parsed of
                None \<Rightarrow> None
              | Some (local, remote, is_dns, payload) \<Rightarrow>
                  if int (length payload) > cfg_udp_mtu cfg then None
                  else Some (local, remote, is_dns, payload))"

text \<open>
  \<open>device_read_handler_send\<close> either submits the datagram to the relay, or copies the
  packet to a pbuf and hands it to the interface's input function, or drops it.
  \<open>pbuf_alloc\<close> stands for the success of lwIP's allocation.
\<close>

datatype device_action =
    SubmitPacket BAddr BAddr bool "byte list"
  | NetifInput "byte list"
  | DropPacket

definition device_read_handler_send :: "udp_config \<Rightarrow> (nat \<Rightarrow> bool) \<Rightarrow> byte list \<Rightarrow> device_action" where
  "device_read_handler_send cfg pbuf_alloc data =
     (case process_device_udp_packet cfg data of
        Some (local, remote, is_dns, payload) \<Rightarrow> SubmitPacket local remote is_dns payload
      | None \<Rightarrow>
          if int (length data) > UINT16_MAX then DropPacket
          else if \<not> pbuf_alloc (length data) then DropPacket
          else NetifInput data)"

text \<open>The dispatch of \<open>netif_input_func\<close> to lwIP; the first pbuf of the chain is given.\<close>

datatype netif_action = IpInput | Ip6Input | PbufFree

definition netif_input_func :: "udp_config \<Rightarrow> byte list \<Rightarrow> netif_action" where
  "netif_input_func cfg payload =
     (let ip_version = (if length payload > 0 then drop_bit 4 (payload ! 0) else 0) in
      if ip_version = 4 then IpInput
      else if ip_version = 6 then (if cfg_ip6 cfg then Ip6Input else PbufFree)
      else PbufFree)"

subsection \<open>To the device\<close>

text \<open>
  \<open>common_netif_output\<close>: the chain of pbufs is the list of their payloads, the result
  what \<^verbatim>\<open>BTap_Send\<close> sends (\<open>None\<close>: nothing). The loop copies into a buffer of the
  device's MTU.
\<close>

fun gather_pbufs :: "int \<Rightarrow> byte list \<Rightarrow> byte list list \<Rightarrow> byte list option" where
  "gather_pbufs mtu buf [] = Some buf"
| "gather_pbufs mtu buf (p # ps) =
     (if int (length p) > mtu - int (length buf) then None else gather_pbufs mtu (buf @ p) ps)"

definition common_netif_output :: "bool \<Rightarrow> int \<Rightarrow> byte list list \<Rightarrow> byte list option" where
  "common_netif_output quitting mtu p =
     (if quitting then None
      else case p of
        [payload] \<Rightarrow> if int (length payload) > mtu then None else Some payload
      | _ \<Rightarrow> gather_pbufs mtu [] p)"

definition udpgw_received4 :: "udp_config \<Rightarrow> u32 \<Rightarrow> u16 \<Rightarrow> u32 \<Rightarrow> u16 \<Rightarrow> byte list \<Rightarrow> byte list option" where
  "udpgw_received4 cfg local_ip local_port remote_ip remote_port data =
     (if length data > 65535 - (SIZEOF_IPV4_HEADER + SIZEOF_UDP_HEADER) \<or>
         int (length data) > cfg_tap_mtu cfg - int (SIZEOF_IPV4_HEADER + SIZEOF_UDP_HEADER) then None
      else let iph = \<lparr>iph_version4_ihl4 = IPV4_MAKE_VERSION_IHL SIZEOF_IPV4_HEADER, iph_ds = hton8 0,
             iph_total_length = hton16 (of_nat (SIZEOF_IPV4_HEADER + SIZEOF_UDP_HEADER + length data)),
             iph_identification = hton16 0, iph_flags3_fragmentoffset13 = hton16 0, iph_ttl = hton8 64,
             iph_protocol = hton8 IPV4_PROTOCOL_UDP, iph_checksum = hton16 0,
             iph_source_address = remote_ip, iph_destination_address = local_ip\<rparr>;
           iph = iph\<lparr>iph_checksum := ipv4_checksum iph []\<rparr>;
           udph = \<lparr>udph_source_port = remote_port, udph_dest_port = local_port,
             udph_length = hton16 (of_nat (SIZEOF_UDP_HEADER + length data)), udph_checksum = hton16 0\<rparr>;
           udph = udph\<lparr>udph_checksum := udp_checksum udph data (iph_source_address iph)
             (iph_destination_address iph)\<rparr>
      in Some (ipv4_header_bytes iph @ udp_header_bytes udph @ data))"

definition udpgw_received6 :: "udp_config \<Rightarrow> byte list \<Rightarrow> u16 \<Rightarrow> byte list \<Rightarrow> u16 \<Rightarrow> byte list \<Rightarrow> byte list option" where
  "udpgw_received6 cfg local_ip local_port remote_ip remote_port data =
     (if \<not> cfg_ip6 cfg then None
      else if length data > 65535 - SIZEOF_UDP_HEADER \<or>
         int (length data) > cfg_tap_mtu cfg - int (SIZEOF_IPV6_HEADER + SIZEOF_UDP_HEADER) then None
      else let iph = \<lparr>ip6h_version4_tc4 = hton8 (push_bit 4 6), ip6h_tc4_fl4 = hton8 0, ip6h_fl = hton16 0,
             ip6h_payload_length = hton16 (of_nat (SIZEOF_UDP_HEADER + length data)),
             ip6h_next_header = hton8 IPV6_NEXT_UDP, ip6h_hop_limit = hton8 64,
             ip6h_source_address = take 16 remote_ip, ip6h_destination_address = take 16 local_ip\<rparr>;
           udph = \<lparr>udph_source_port = remote_port, udph_dest_port = local_port,
             udph_length = hton16 (of_nat (SIZEOF_UDP_HEADER + length data)), udph_checksum = hton16 0\<rparr>;
           udph = udph\<lparr>udph_checksum := udp_ip6_checksum udph data (ip6h_source_address iph)
             (ip6h_destination_address iph)\<rparr>
      in Some (ipv6_header_bytes iph @ udp_header_bytes udph @ data))"

text \<open>
  The packet that \<open>udpgw_client_handler_received\<close> sends to the device. The two addresses
  have the same IP type, as its assertions state.
\<close>

fun udpgw_client_handler_received :: "udp_config \<Rightarrow> BAddr \<Rightarrow> BAddr \<Rightarrow> byte list \<Rightarrow> byte list option" where
  "udpgw_client_handler_received cfg (BAddr_IPv4 lip lport) (BAddr_IPv4 rip rport) data =
     udpgw_received4 cfg lip lport rip rport data"
| "udpgw_client_handler_received cfg (BAddr_IPv6 lip lport) (BAddr_IPv6 rip rport) data =
     udpgw_received6 cfg lip lport rip rport data"
| "udpgw_client_handler_received cfg _ _ data = Some []"

subsection \<open>What is accepted from the device\<close>

lemma ipv4_header_bytes_nth:
  "(ipv4_header_bytes h @ r) ! 0 = iph_version4_ihl4 h" "(ipv4_header_bytes h @ r) ! 9 = iph_protocol h"
  by (simp_all add: ipv4_header_bytes_def bytes16_def)

lemma ipv6_header_bytes_nth:
  "(ipv6_header_bytes h @ r) ! 0 = ip6h_version4_tc4 h" "(ipv6_header_bytes h @ r) ! 6 = ip6h_next_header h"
  by (simp_all add: ipv6_header_bytes_def bytes16_def)

lemma process_device_udp4_iff:
  "process_device_udp4 cfg data = Some (l, r, dns, payload) \<longleftrightarrow>
     (\<exists>iph opts udph stray trail.
        data = ipv4_header_bytes iph @ opts @ (udp_header_bytes udph @ payload @ stray) @ trail \<and>
        ipv4_header_ok iph opts (8 + length payload + length stray) \<and> iph_protocol iph = 17 \<and>
        unat (ntoh16 (udph_length udph)) = 8 + length payload \<and>
        udph_checksum udph = udp_checksum (udph\<lparr>udph_checksum := 0\<rparr>) payload
          (iph_source_address iph) (iph_destination_address iph) \<and>
        l = BAddr_IPv4 (iph_source_address iph) (udph_source_port udph) \<and>
        r = BAddr_IPv4 (iph_destination_address iph) (udph_dest_port udph) \<and>
        dns = is_dns_query cfg (udph_dest_port udph) payload)" (is "?L \<longleftrightarrow> ?R")
proof
  assume ?L
  then obtain iph d udph where *: "data ! 9 = 17" "ipv4_check data = Some (iph, d)"
    "udp_check d = Some (udph, payload)"
    and c: "udph_checksum udph = udp_checksum (udph\<lparr>udph_checksum := 0\<rparr>) payload
          (iph_source_address iph) (iph_destination_address iph)"
      "l = BAddr_IPv4 (iph_source_address iph) (udph_source_port udph)"
      "r = BAddr_IPv4 (iph_destination_address iph) (udph_dest_port udph)"
      "dns = is_dns_query cfg (udph_dest_port udph) payload"
    by (auto simp: process_device_udp4_def Let_def BAddr_MakeIPv4_def split: if_splits option.splits)
  from *(2) obtain opts trail where d: "data = ipv4_header_bytes iph @ opts @ d @ trail"
    "ipv4_header_ok iph opts (length d)"
    unfolding ipv4_check_iff by blast
  from *(3) obtain stray where u: "d = udp_header_bytes udph @ payload @ stray"
    "unat (ntoh16 (udph_length udph)) = 8 + length payload"
    unfolding udp_check_iff by blast
  have "iph_protocol iph = 17"
    using *(1) by (simp only: d(1) ipv4_header_bytes_nth)
  then show ?R
    using d u c
    by - (rule exI [of _ iph], rule exI [of _ opts], rule exI [of _ udph], rule exI [of _ stray],
        rule exI [of _ trail], simp add: add.assoc)
next
  assume ?R
  then obtain iph opts udph stray trail where
    d: "data = ipv4_header_bytes iph @ opts @ (udp_header_bytes udph @ payload @ stray) @ trail"
    and ok: "ipv4_header_ok iph opts (8 + length payload + length stray)" "iph_protocol iph = 17"
      "unat (ntoh16 (udph_length udph)) = 8 + length payload"
    and c: "udph_checksum udph = udp_checksum (udph\<lparr>udph_checksum := 0\<rparr>) payload
          (iph_source_address iph) (iph_destination_address iph)"
      "l = BAddr_IPv4 (iph_source_address iph) (udph_source_port udph)"
      "r = BAddr_IPv4 (iph_destination_address iph) (udph_dest_port udph)"
      "dns = is_dns_query cfg (udph_dest_port udph) payload"
    by blast
  have "ipv4_check data = Some (iph, udp_header_bytes udph @ payload @ stray)"
    unfolding ipv4_check_iff using d ok(1)
    by (intro exI [of _ opts] exI [of _ trail]) (simp add: add.assoc)
  moreover have "udp_check (udp_header_bytes udph @ payload @ stray) = Some (udph, payload)"
    unfolding udp_check_iff using ok(3) by blast
  moreover have "data ! 9 = 17" "20 \<le> length data"
    using ok(2) by (simp_all only: d ipv4_header_bytes_nth) simp
  ultimately show ?L
    using c by (simp add: process_device_udp4_def BAddr_MakeIPv4_def Let_def)
qed

lemma process_device_udp6_iff:
  "process_device_udp6 cfg data = Some (l, r, dns, payload) \<longleftrightarrow>
     cfg_ip6 cfg \<and> (\<exists>iph udph stray trail.
        data = ipv6_header_bytes iph @ (udp_header_bytes udph @ payload @ stray) @ trail \<and>
        ipv6_header_wf iph \<and> drop_bit 4 (ip6h_version4_tc4 iph) = 6 \<and> ip6h_next_header iph = 17 \<and>
        unat (ntoh16 (ip6h_payload_length iph)) = 8 + length payload + length stray \<and>
        unat (ntoh16 (udph_length udph)) = 8 + length payload \<and>
        udph_checksum udph = udp_ip6_checksum (udph\<lparr>udph_checksum := 0\<rparr>) payload
          (ip6h_source_address iph) (ip6h_destination_address iph) \<and>
        l = BAddr_IPv6 (ip6h_source_address iph) (udph_source_port udph) \<and>
        r = BAddr_IPv6 (ip6h_destination_address iph) (udph_dest_port udph) \<and> \<not> dns)" (is "?L \<longleftrightarrow> ?R")
proof
  assume ?L
  then obtain iph d udph where *: "data ! 6 = 17" "ipv6_check data = Some (iph, d)"
    "udp_check d = Some (udph, payload)"
    and c: "udph_checksum udph = udp_ip6_checksum (udph\<lparr>udph_checksum := 0\<rparr>) payload
          (ip6h_source_address iph) (ip6h_destination_address iph)"
      "l = BAddr_MakeIPv6 (ip6h_source_address iph) (udph_source_port udph)"
      "r = BAddr_MakeIPv6 (ip6h_destination_address iph) (udph_dest_port udph)" "\<not> dns" "cfg_ip6 cfg"
    by (auto simp: process_device_udp6_def Let_def split: if_splits option.splits)
  from *(2) obtain trail where d: "data = ipv6_header_bytes iph @ d @ trail" "ipv6_header_wf iph"
    "drop_bit 4 (ip6h_version4_tc4 iph) = 6" "unat (ntoh16 (ip6h_payload_length iph)) = length d"
    unfolding ipv6_check_iff by blast
  from *(3) obtain stray where u: "d = udp_header_bytes udph @ payload @ stray"
    "unat (ntoh16 (udph_length udph)) = 8 + length payload"
    unfolding udp_check_iff by blast
  have "ip6h_next_header iph = 17"
    using *(1) by (simp only: d(1) ipv6_header_bytes_nth)
  then show ?R
    using d u c by (intro conjI exI [of _ iph] exI [of _ udph] exI [of _ stray] exI [of _ trail])
      (simp_all add: BAddr_MakeIPv6_def ipv6_header_wf_def)
next
  assume ?R
  then obtain iph udph stray trail where
    d: "data = ipv6_header_bytes iph @ (udp_header_bytes udph @ payload @ stray) @ trail"
    and ok: "ipv6_header_wf iph" "drop_bit 4 (ip6h_version4_tc4 iph) = 6" "ip6h_next_header iph = 17"
      "unat (ntoh16 (ip6h_payload_length iph)) = 8 + length payload + length stray"
      "unat (ntoh16 (udph_length udph)) = 8 + length payload"
    and c: "udph_checksum udph = udp_ip6_checksum (udph\<lparr>udph_checksum := 0\<rparr>) payload
          (ip6h_source_address iph) (ip6h_destination_address iph)"
      "l = BAddr_IPv6 (ip6h_source_address iph) (udph_source_port udph)"
      "r = BAddr_IPv6 (ip6h_destination_address iph) (udph_dest_port udph)" "\<not> dns" "cfg_ip6 cfg"
    by blast
  have "ipv6_check data = Some (iph, udp_header_bytes udph @ payload @ stray)"
    unfolding ipv6_check_iff using d ok by (intro exI [of _ trail]) simp
  moreover have "udp_check (udp_header_bytes udph @ payload @ stray) = Some (udph, payload)"
    unfolding udp_check_iff using ok(5) by blast
  moreover have "data ! 6 = 17" "40 \<le> length data"
    using ok(1,3) by (simp_all only: d ipv6_header_bytes_nth) (simp add: length_ipv6_header_bytes)
  ultimately show ?L
    using c ok(1) by (simp add: process_device_udp6_def BAddr_MakeIPv6_def Let_def ipv6_header_wf_def)
qed

text \<open>
  \<^bold>\<open>C31\<close>. The IPv4 half of \<open>process_device_udp_packet\<close> takes a datagram out of a device
  packet exactly when the packet is an IPv4 header that passes the RFC 1071 check, its
  options, and a UDP header with a payload of the announced length whose checksum
  passes the receiver's check; the datagram goes from the source to the destination of
  the packet. A checksum field of \<open>0xFFFF\<close>, the encoding of a computed 0, is refused.
\<close>

theorem process_device_udp4_spec:
  "process_device_udp4 cfg data = Some (l, r, dns, payload) \<longleftrightarrow>
     (\<exists>iph opts udph stray trail.
        data = ipv4_header_bytes iph @ opts @ (udp_header_bytes udph @ payload @ stray) @ trail \<and>
        ipv4_header_ok iph opts (8 + length payload + length stray) \<and> iph_protocol iph = 17 \<and>
        unat (ntoh16 (udph_length udph)) = 8 + length payload \<and>
        rfc1071_ok (udp_pseudo_header (iph_source_address iph) (iph_destination_address iph) (length payload) @
          udp_header_bytes udph @ pad16 payload) \<and> udph_checksum udph \<noteq> 0xFFFF \<and>
        l = BAddr_IPv4 (iph_source_address iph) (udph_source_port udph) \<and>
        r = BAddr_IPv4 (iph_destination_address iph) (udph_dest_port udph) \<and>
        dns = is_dns_query cfg (udph_dest_port udph) payload)"
proof -
  have "length payload \<le> 65527" if "unat (ntoh16 (udph_length udph)) = 8 + length payload" for udph
    using unat_u16_less [of "ntoh16 (udph_length udph)"] that by simp
  then have *: "unat (ntoh16 (udph_length udph)) = 8 + length payload \<and>
      udph_checksum udph = udp_checksum (udph\<lparr>udph_checksum := 0\<rparr>) payload s d \<and> P \<longleftrightarrow>
    unat (ntoh16 (udph_length udph)) = 8 + length payload \<and>
      rfc1071_ok (udp_pseudo_header s d (length payload) @ udp_header_bytes udph @ pad16 payload) \<and>
      udph_checksum udph \<noteq> 0xFFFF \<and> P" for udph s d P
    using udp_checksum_iff [of payload udph s d] by blast
  show ?thesis
    unfolding process_device_udp4_iff * by simp
qed

subsection \<open>The two directions agree\<close>

lemma unat_u16_add:
  assumes "numeral w + k < (65536::nat)"
  shows "unat (numeral w + of_nat k :: u16) = numeral w + k"
proof -
  have "(numeral w + of_nat k :: u16) = of_nat (numeral w + k)"
    by simp
  then show ?thesis
    using assms by (simp only: unat_of_nat) simp
qed

lemma make_version_ihl_20: "IPV4_MAKE_VERSION_IHL 20 = 0x45"
  by (simp add: IPV4_MAKE_VERSION_IHL_def)

lemma udpgw_received4_accepted:
  assumes "udpgw_received4 cfg lip lport rip rport data = Some pkt"
  shows "process_device_udp4 cfg pkt =
      Some (BAddr_IPv4 rip rport, BAddr_IPv4 lip lport, is_dns_query cfg lport data, data) \<and>
    drop_bit 4 (pkt ! 0) = 4 \<and> int (length pkt) \<le> cfg_tap_mtu cfg \<and> pkt \<noteq> []"
proof -
  define iph where "iph = \<lparr>iph_version4_ihl4 = IPV4_MAKE_VERSION_IHL 20, iph_ds = hton8 0,
             iph_total_length = hton16 (of_nat (20 + 8 + length data)),
             iph_identification = hton16 0, iph_flags3_fragmentoffset13 = hton16 0, iph_ttl = hton8 64,
             iph_protocol = hton8 17, iph_checksum = hton16 0,
             iph_source_address = rip, iph_destination_address = lip\<rparr>"
  define udph where "udph = \<lparr>udph_source_port = rport, udph_dest_port = lport,
             udph_length = hton16 (of_nat (8 + length data)), udph_checksum = hton16 0\<rparr>"
  define iph' where "iph' = iph\<lparr>iph_checksum := ipv4_checksum iph []\<rparr>"
  define udph' where "udph' = udph\<lparr>udph_checksum := udp_checksum udph data rip lip\<rparr>"
  have len: "length data \<le> 65507" "int (length data) \<le> cfg_tap_mtu cfg - 28"
    and pkt: "pkt = ipv4_header_bytes iph' @ udp_header_bytes udph' @ data"
    using assms by (auto simp: udpgw_received4_def Let_def iph_def udph_def iph'_def udph'_def split: if_splits)
  have ok: "ipv4_header_ok iph' [] (8 + length data + length [])"
    using len(1) by (simp add: ipv4_header_ok_def iph'_def iph_def make_version_ihl_20 unat_u16_add)
  have ul: "unat (ntoh16 (udph_length udph')) = 8 + length data"
    using len(1) by (simp add: udph'_def udph_def unat_u16_add)
  have "process_device_udp4 cfg pkt = Some (BAddr_IPv4 rip rport, BAddr_IPv4 lip lport, is_dns_query cfg lport data, data)"
    unfolding process_device_udp4_iff
    by (rule exI [of _ iph'], rule exI [of _ "[]"], rule exI [of _ udph'], rule exI [of _ "[]"], rule exI [of _ "[]"])
      (use ok ul pkt in \<open>simp add: iph'_def iph_def udph'_def udph_def hton8_def\<close>)
  moreover have "pkt ! 0 = 0x45"
    by (simp add: pkt ipv4_header_bytes_nth iph'_def iph_def make_version_ihl_20)
  moreover have "int (length pkt) \<le> cfg_tap_mtu cfg"
    using len(2) by (simp add: pkt)
  moreover have "pkt \<noteq> []"
    by (simp add: pkt ipv4_header_bytes_def)
  ultimately show ?thesis
    by (simp add: drop_bit_eq_div)
qed

lemma udpgw_received6_accepted:
  assumes "udpgw_received6 cfg lip lport rip rport data = Some pkt" "length lip = 16" "length rip = 16"
  shows "process_device_udp6 cfg pkt = Some (BAddr_IPv6 rip rport, BAddr_IPv6 lip lport, False, data) \<and>
    drop_bit 4 (pkt ! 0) = 6 \<and> int (length pkt) \<le> cfg_tap_mtu cfg \<and> pkt \<noteq> []"
proof -
  define iph where "iph = \<lparr>ip6h_version4_tc4 = hton8 (push_bit 4 6), ip6h_tc4_fl4 = hton8 0, ip6h_fl = hton16 0,
             ip6h_payload_length = hton16 (of_nat (8 + length data)),
             ip6h_next_header = hton8 17, ip6h_hop_limit = hton8 64,
             ip6h_source_address = take 16 rip, ip6h_destination_address = take 16 lip\<rparr>"
  define udph where "udph = \<lparr>udph_source_port = rport, udph_dest_port = lport,
             udph_length = hton16 (of_nat (8 + length data)), udph_checksum = hton16 0\<rparr>"
  define udph' where "udph' = udph\<lparr>udph_checksum := udp_ip6_checksum udph data rip lip\<rparr>"
  have len: "length data \<le> 65527" "int (length data) \<le> cfg_tap_mtu cfg - 48" "cfg_ip6 cfg"
    and pkt: "pkt = ipv6_header_bytes iph @ udp_header_bytes udph' @ data"
    using assms by (auto simp: udpgw_received6_def Let_def iph_def udph_def udph'_def split: if_splits)
  have wf: "ipv6_header_wf iph" "ip6h_version4_tc4 iph = 0x60"
    using assms by (simp_all add: iph_def ipv6_header_wf_def hton8_def push_bit_eq_mult)
  have "unat (ntoh16 (udph_length udph')) = 8 + length data"
    "unat (ntoh16 (ip6h_payload_length iph)) = 8 + length data"
    using len(1) by (simp_all add: udph'_def udph_def iph_def unat_u16_add)
  then have "process_device_udp6 cfg pkt = Some (BAddr_IPv6 rip rport, BAddr_IPv6 lip lport, False, data)"
    unfolding process_device_udp6_iff
    by - (rule conjI [OF len(3)], rule exI [of _ iph], rule exI [of _ udph'], rule exI [of _ "[]"], rule exI [of _ "[]"],
      use wf pkt assms in \<open>simp add: iph_def udph'_def udph_def hton8_def drop_bit_eq_div\<close>)
  moreover have "pkt ! 0 = 0x60"
    using wf by (simp add: pkt ipv6_header_bytes_nth)
  moreover have "int (length pkt) \<le> cfg_tap_mtu cfg"
    using len(2) wf by (simp add: pkt length_ipv6_header_bytes)
  moreover have "pkt \<noteq> []"
    by (simp add: pkt ipv6_header_bytes_def)
  ultimately show ?thesis
    by (simp add: drop_bit_eq_div)
qed

text \<open>The addresses of a datagram taken from a packet are IP addresses of the same kind.\<close>

lemma process_device_addrs:
  assumes "process_device_udp_packet cfg pkt = Some (l, r, dns, data)"
  shows "BAddr_is_ip l" "BAddr_is_ip r" "BAddr_type l = BAddr_type r" "int (length data) \<le> cfg_udp_mtu cfg" "cfg_udpgw cfg"
proof -
  have p: "process_device_udp4 cfg pkt = Some (l, r, dns, data) \<or> process_device_udp6 cfg pkt = Some (l, r, dns, data)"
    and "int (length data) \<le> cfg_udp_mtu cfg" "cfg_udpgw cfg"
    using assms by (auto simp: process_device_udp_packet_def Let_def split: if_splits option.splits)
  then show "int (length data) \<le> cfg_udp_mtu cfg" "cfg_udpgw cfg"
    by blast+
  have "BAddr_is_ip l \<and> BAddr_is_ip r \<and> BAddr_type l = BAddr_type r"
    if "process_device_udp4 cfg pkt = Some (l, r, dns, data)"
    using that by (auto simp: process_device_udp4_def BAddr_MakeIPv4_def Let_def split: if_splits option.splits)
  moreover have "BAddr_is_ip l \<and> BAddr_is_ip r \<and> BAddr_type l = BAddr_type r"
    if "process_device_udp6 cfg pkt = Some (l, r, dns, data)"
    using that by (auto simp: process_device_udp6_def BAddr_MakeIPv6_def ipv6_check_def ipv6_header_of_def Let_def
        split: if_splits option.splits)
  ultimately show "BAddr_is_ip l" "BAddr_is_ip r" "BAddr_type l = BAddr_type r"
    using p by blast+
qed

lemma received_accepted:
  assumes "udpgw_client_handler_received cfg local remote data = Some pkt"
    and "BAddr_is_ip local" "BAddr_is_ip remote" "BAddr_type local = BAddr_type remote"
    and "cfg_udpgw cfg" "int (length data) \<le> cfg_udp_mtu cfg"
  shows "\<exists>dns. process_device_udp_packet cfg pkt = Some (remote, local, dns, data) \<and>
           int (length pkt) \<le> cfg_tap_mtu cfg"
proof (cases local)
  case (BAddr_IPv4 lip lport)
  then obtain rip rport where r: "remote = BAddr_IPv4 rip rport"
    using assms(3,4) by (cases remote) auto
  then show ?thesis
    using udpgw_received4_accepted [of cfg lip lport rip rport data pkt] assms BAddr_IPv4
    by (simp add: process_device_udp_packet_def)
next
  case (BAddr_IPv6 lip lport)
  then obtain rip rport where r: "remote = BAddr_IPv6 rip rport"
    using assms(3,4) by (cases remote) auto
  then show ?thesis
    using udpgw_received6_accepted [of cfg lip lport rip rport data pkt] assms BAddr_IPv6
    by (intro exI [of _ False]) (simp add: process_device_udp_packet_def)
qed (use assms in auto)

text \<open>
  \<^bold>\<open>C2\<close>. The two directions of the UDP path agree: the packet that
  \<open>udpgw_client_handler_received\<close> writes to the device for a datagram from \<open>remote\<close> to
  \<open>local\<close> fits the device's MTU, and \<open>process_device_udp_packet\<close> reads it as the same
  payload travelling from \<open>remote\<close> to \<open>local\<close>.
\<close>

theorem udpgw_received_accepted:
  assumes "udpgw_client_handler_received cfg local remote data = Some pkt"
    and "BAddr_is_ip local" "BAddr_is_ip remote" "BAddr_type local = BAddr_type remote"
    and "cfg_udpgw cfg" "int (length data) \<le> cfg_udp_mtu cfg"
  shows "\<exists>dns. process_device_udp_packet cfg pkt = Some (remote, local, dns, data) \<and>
           int (length pkt) \<le> cfg_tap_mtu cfg"
  by (rule received_accepted [OF assms])

definition example_cfg :: udp_config where
  "example_cfg = \<lparr>cfg_udpgw = True, cfg_ip6 = False, cfg_dnsgw = True, cfg_tap_mtu = 1500,
     cfg_udp_mtu = compute_udp_mtu 1500 False\<rparr>"

theorem udpgw_received_accepted_witness:
  "\<exists>pkt dns. udpgw_client_handler_received example_cfg (BAddr_IPv4 1 2) (BAddr_IPv4 3 4) [1, 2, 3] = Some pkt \<and>
     process_device_udp_packet example_cfg pkt = Some (BAddr_IPv4 3 4, BAddr_IPv4 1 2, dns, [1, 2, 3])"
proof -
  obtain pkt where p: "udpgw_client_handler_received example_cfg (BAddr_IPv4 1 2) (BAddr_IPv4 3 4) [1, 2, 3] = Some pkt"
    by (simp add: udpgw_received4_def example_cfg_def Let_def)
  show ?thesis
    using udpgw_received_accepted [OF p] p by (simp add: example_cfg_def compute_udp_mtu_def)
qed

subsection \<open>Packets of lwIP\<close>

lemma gather_pbufs_eq:
  "gather_pbufs mtu buf ps =
     (if ps \<noteq> [] \<and> int (length buf + length (concat ps)) > mtu then None else Some (buf @ concat ps))"
  by (induction mtu buf ps rule: gather_pbufs.induct) auto

text \<open>
  \<open>common_netif_output\<close> sends a chain of pbufs as one packet, the concatenation of
  their payloads, exactly when the device is up and the packet fits its MTU; no partial
  packet is ever sent and the write buffer is never overrun.
\<close>

lemma common_netif_output_spec:
  assumes "ps \<noteq> []"
  shows "common_netif_output quitting mtu ps =
     (if quitting \<or> int (length (concat ps)) > mtu then None else Some (concat ps))"
proof (cases ps)
  case (Cons p qs)
  then show ?thesis
    by (cases qs) (simp_all add: common_netif_output_def gather_pbufs_eq)
qed (use assms in simp)

end
