(* ===== verification/Memory.thy ===== *)
theory Memory
  imports Bytes
begin

text \<open>
  Memory areas that are shared or updated in place: a function from byte addresses,
  relative to the start of the area, with the block reads and writes of the C code
  (\<^verbatim>\<open>memcpy\<close>, \<^verbatim>\<open>memmove\<close>, device reads). A pointer into the area is an address.
\<close>

type_synonym memory = "int \<Rightarrow> byte"

definition write_bytes :: "memory \<Rightarrow> int \<Rightarrow> byte list \<Rightarrow> memory" where
  "write_bytes m a bs = (\<lambda>i. if a \<le> i \<and> i < a + int (length bs) then bs ! nat (i - a) else m i)"

definition read_bytes :: "memory \<Rightarrow> int \<Rightarrow> nat \<Rightarrow> byte list" where
  "read_bytes m a n = map (\<lambda>k. m (a + int k)) [0..<n]"

lemma length_read_bytes [simp]: "length (read_bytes m a n) = n"
  by (simp add: read_bytes_def)

lemma read_write_bytes [simp]: "read_bytes (write_bytes m a bs) a (length bs) = bs"
  by (rule nth_equalityI) (simp_all add: read_bytes_def write_bytes_def)

lemma read_bytes_cong:
  "(\<And>i. a \<le> i \<Longrightarrow> i < a + int n \<Longrightarrow> m i = m' i) \<Longrightarrow> read_bytes m a n = read_bytes m' a n"
  by (simp add: read_bytes_def)

lemma write_bytes_other: "i < a \<or> a + int (length bs) \<le> i \<Longrightarrow> write_bytes m a bs i = m i"
  by (auto simp: write_bytes_def)

lemma read_write_bytes_prefix:
  "n \<le> length bs \<Longrightarrow> read_bytes (write_bytes m a bs) a n = take n bs"
  by (rule nth_equalityI) (simp_all add: read_bytes_def write_bytes_def)

lemma write_read_bytes: "write_bytes m a (read_bytes m a n) = m"
  by (rule ext) (auto simp: write_bytes_def read_bytes_def nth_append)

lemma write_bytes_append: "write_bytes m a (xs @ ys) = write_bytes (write_bytes m a xs) (a + int (length xs)) ys"
proof
  fix i
  consider "i < a" | "a \<le> i" "i < a + int (length xs)" | "a + int (length xs) \<le> i"
    by linarith
  then show "write_bytes m a (xs @ ys) i = write_bytes (write_bytes m a xs) (a + int (length xs)) ys i"
  proof cases
    case 3
    then have "nat (i - a) - length xs = nat (i - (a + int (length xs)))" "\<not> nat (i - a) < length xs"
      by linarith+
    then show ?thesis
      using 3 by (simp add: write_bytes_def nth_append)
  next
    case 2
    then have "nat (i - a) < length xs"
      by linarith
    then show ?thesis
      using 2 by (simp add: write_bytes_def nth_append)
  qed (simp add: write_bytes_def)
qed

lemma read_bytes_append: "read_bytes m a (k + n) = read_bytes m a k @ read_bytes m (a + int k) n"
  by (rule nth_equalityI) (auto simp: read_bytes_def nth_append add.assoc)

lemma drop_read_bytes: "drop k (read_bytes m a n) = read_bytes m (a + int k) (n - k)"
  by (rule nth_equalityI) (auto simp: read_bytes_def add.assoc)

lemma take_read_bytes: "k \<le> n \<Longrightarrow> take k (read_bytes m a n) = read_bytes m a k"
  by (rule nth_equalityI) (simp_all add: read_bytes_def)

lemma read_write_disjoint:
  "a + int n \<le> b \<or> b + int (length d) \<le> a \<Longrightarrow> read_bytes (write_bytes m b d) a n = read_bytes m a n"
  by (rule read_bytes_cong, rule write_bytes_other) auto

lemma read_bytes_nth: "k < n \<Longrightarrow> read_bytes m a n ! k = m (a + int k)"
  by (simp add: read_bytes_def)

end
