(* ===== verification/ChunkBuffer.thy ===== *)
theory ChunkBuffer
  imports Memory
begin

text \<open>
  The circular packet buffer of \<^verbatim>\<open>structure/ChunkBuffer2.h\<close> and the \<^verbatim>\<open>PacketBuffer\<close> flow
  element (\<^verbatim>\<open>flow/PacketBuffer.c\<close>) built on it. The buffer is an array of 4-byte blocks;
  a packet is a block with its length followed by its bytes in whole blocks. Memory is a
  function from byte addresses, relative to the buffer, so that what is written where is
  explicit; a pointer into the buffer is such an address. The lemmas show that the buffer
  refines a queue of packets, that a packet is never overwritten before it is consumed,
  and that the size \<open>ChunkBuffer2_calc_blocks\<close> computes is enough for the promised
  number of packets.
\<close>

subsection \<open>The buffer\<close>

abbreviation (input) "SIZEOF_BLOCK \<equiv> (4::int)"

record ChunkBuffer2 =
  cb_buffer :: memory
  cb_size :: int
  cb_wrap :: int
  cb_start :: int
  cb_used :: int
  cb_mtu :: int
  cb_input_dest :: "int option"
  cb_input_avail :: int
  cb_output_dest :: "int option"
  cb_output_avail :: int

text \<open>The conversion of a \<^verbatim>\<open>size_t\<close> result to \<^verbatim>\<open>int\<close>.\<close>

definition to_int :: "int \<Rightarrow> int" where
  "to_int x = signed_take_bit 31 x"

definition blocks_of :: "int \<Rightarrow> int" where
  "blocks_of len = to_int (uint (bdivide_up (word_of_int len) 4))"

text \<open>The \<^verbatim>\<open>len\<close> member of block \<open>i\<close>.\<close>

definition block_len :: "memory \<Rightarrow> int \<Rightarrow> int" where
  "block_len m i = sint (mem32 (m (4 * i)) (m (4 * i + 1)) (m (4 * i + 2)) (m (4 * i + 3)))"

definition set_block_len :: "memory \<Rightarrow> int \<Rightarrow> int \<Rightarrow> memory" where
  "set_block_len m i len = write_bytes m (4 * i) (bytes32 (word_of_int len))"

definition ChunkBuffer2_end :: "ChunkBuffer2 \<Rightarrow> int" where
  "ChunkBuffer2_end buf =
     (if cb_used buf \<ge> cb_wrap buf - cb_start buf
      then cb_used buf - (cb_wrap buf - cb_start buf)
      else cb_start buf + cb_used buf)"

definition ChunkBuffer2_update_input :: "ChunkBuffer2 \<Rightarrow> ChunkBuffer2" where
  "ChunkBuffer2_update_input buf =
     (let end = ChunkBuffer2_end buf in
      if cb_size buf - end - 1 < cb_mtu buf then buf\<lparr>cb_input_dest := None, cb_input_avail := -1\<rparr>
      else let free = (if cb_used buf \<ge> cb_wrap buf - cb_start buf then cb_start buf - end
                       else cb_size buf - end) in
      if free > 0 then buf\<lparr>cb_input_dest := Some (SIZEOF_BLOCK * (end + 1)),
                           cb_input_avail := to_int ((free - 1) * SIZEOF_BLOCK)\<rparr>
      else buf\<lparr>cb_input_dest := None, cb_input_avail := -1\<rparr>)"

definition ChunkBuffer2_update_output :: "ChunkBuffer2 \<Rightarrow> ChunkBuffer2" where
  "ChunkBuffer2_update_output buf =
     (if cb_used buf > 0 then
        let datalen = block_len (cb_buffer buf) (cb_start buf)
        in buf\<lparr>cb_output_dest := Some (SIZEOF_BLOCK * (cb_start buf + 1)), cb_output_avail := datalen\<rparr>
      else buf\<lparr>cb_output_dest := None, cb_output_avail := -1\<rparr>)"

definition ChunkBuffer2_calc_blocks :: "int \<Rightarrow> int \<Rightarrow> int" where
  "ChunkBuffer2_calc_blocks chunk_len num =
     (let chunk_data_blocks = blocks_of chunk_len in
      if chunk_data_blocks > INT_MAX - 1 then -1
      else let chunk_blocks = 1 + chunk_data_blocks in
      if num > INT_MAX - 1 then -1
      else let num_chunks = num + 1 in
      if chunk_blocks > INT_MAX div num_chunks then -1
      else chunk_blocks * num_chunks)"

definition ChunkBuffer2_Init :: "memory \<Rightarrow> int \<Rightarrow> int \<Rightarrow> ChunkBuffer2" where
  "ChunkBuffer2_Init buffer blocks mtu =
     ChunkBuffer2_update_output (ChunkBuffer2_update_input
       \<lparr>cb_buffer = buffer, cb_size = blocks, cb_wrap = blocks, cb_start = 0, cb_used = 0,
        cb_mtu = blocks_of mtu, cb_input_dest = None, cb_input_avail = 0,
        cb_output_dest = None, cb_output_avail = 0\<rparr>)"

definition ChunkBuffer2_SubmitPacket :: "ChunkBuffer2 \<Rightarrow> int \<Rightarrow> ChunkBuffer2" where
  "ChunkBuffer2_SubmitPacket buf len =
     (let end = ChunkBuffer2_end buf;
          blocklen = blocks_of len;
          buf = buf\<lparr>cb_buffer := set_block_len (cb_buffer buf) end len\<rparr>;
          buf = buf\<lparr>cb_used := cb_used buf + (1 + blocklen)\<rparr>;
          buf = (if cb_used buf \<le> cb_wrap buf - cb_start buf \<and>
                    cb_mtu buf > cb_size buf - (end + 1 + blocklen) - 1
                 then buf\<lparr>cb_wrap := end + 1 + blocklen\<rparr> else buf);
          buf = ChunkBuffer2_update_input buf
      in if cb_used buf = 1 + blocklen then ChunkBuffer2_update_output buf else buf)"

definition ChunkBuffer2_ConsumePacket :: "ChunkBuffer2 \<Rightarrow> ChunkBuffer2" where
  "ChunkBuffer2_ConsumePacket buf =
     (let blocklen = blocks_of (block_len (cb_buffer buf) (cb_start buf));
          data_wrapped = (cb_used buf \<ge> cb_wrap buf - cb_start buf);
          buf = buf\<lparr>cb_start := cb_start buf + (1 + blocklen), cb_used := cb_used buf - (1 + blocklen)\<rparr>;
          buf = (if cb_start buf = cb_wrap buf then buf\<lparr>cb_start := 0, cb_wrap := cb_size buf\<rparr> else buf);
          buf = (if data_wrapped then ChunkBuffer2_update_input buf else buf)
      in ChunkBuffer2_update_output buf)"

text \<open>The bytes that the producer writes through \<^verbatim>\<open>input_dest\<close>, the packet at \<^verbatim>\<open>output_dest\<close>.\<close>

definition cb_write :: "ChunkBuffer2 \<Rightarrow> byte list \<Rightarrow> ChunkBuffer2" where
  "cb_write buf d =
     (case cb_input_dest buf of
        None \<Rightarrow> buf
      | Some a \<Rightarrow> buf\<lparr>cb_buffer := write_bytes (cb_buffer buf) a d\<rparr>)"

definition cb_front :: "ChunkBuffer2 \<Rightarrow> byte list option" where
  "cb_front buf =
     (case cb_output_dest buf of
        None \<Rightarrow> None
      | Some a \<Rightarrow> Some (read_bytes (cb_buffer buf) a (nat (cb_output_avail buf))))"

subsection \<open>Sizes\<close>

lemma to_int_id: "- (2 ^ 31) \<le> x \<Longrightarrow> x < 2 ^ 31 \<Longrightarrow> to_int x = x"
  by (simp add: to_int_def signed_take_bit_int_eq_self)

lemma blocks_of_eq:
  assumes "0 \<le> len" "len \<le> INT_MAX"
  shows "blocks_of len = (len + 3) div 4"
proof -
  have u: "uint (word_of_int len :: size_t) = len"
    using assms by (simp add: word_of_int_inverse)
  have d: "uint (word_of_int len div 4 :: size_t) = len div 4" "uint (word_of_int len mod 4 :: size_t) = len mod 4"
    by (simp_all add: uint_div uint_mod u)
  have "uint (word_of_int len div 4 + 1 :: size_t) = len div 4 + 1"
    using assms by (simp add: uint_word_ariths d)
  moreover have "(0 < (word_of_int len mod 4 :: size_t)) = (0 < len mod 4)"
    by (simp add: word_less_def d)
  ultimately have "uint (bdivide_up (word_of_int len) 4) = (len + 3) div 4"
    using d by (simp add: bdivide_up_def Let_def) presburger
  then show ?thesis
    using assms by (simp add: blocks_of_def to_int_id)
qed

lemma block_len_set_same:
  assumes "0 \<le> len" "len \<le> INT_MAX"
  shows "block_len (set_block_len m i len) i = len"
proof -
  have "sint (word_of_int len :: u32) = len"
    using assms by (simp add: sint_sbintrunc' signed_take_bit_int_eq_self)
  then show ?thesis
    by (simp add: block_len_def set_block_len_def write_bytes_def bytes32_def)
qed

lemma block_len_cong:
  "(\<And>a. 4 * i \<le> a \<Longrightarrow> a < 4 * i + 4 \<Longrightarrow> m a = m' a) \<Longrightarrow> block_len m i = block_len m' i"
  by (simp add: block_len_def)

subsection \<open>Packets in the buffer\<close>

text \<open>The number of blocks of a packet with its length block, of a sequence of packets.\<close>

definition pkt_blocks :: "byte list \<Rightarrow> int" where
  "pkt_blocks p = 1 + (int (length p) + 3) div 4"

fun pkts_blocks :: "byte list list \<Rightarrow> int" where
  "pkts_blocks [] = 0"
| "pkts_blocks (p # ps) = pkt_blocks p + pkts_blocks ps"

text \<open>The packets are stored one after the other from block \<open>pos\<close>.\<close>

fun stored :: "memory \<Rightarrow> int \<Rightarrow> byte list list \<Rightarrow> bool" where
  "stored m pos [] \<longleftrightarrow> True"
| "stored m pos (p # ps) \<longleftrightarrow>
     block_len m pos = int (length p) \<and> read_bytes m (4 * (pos + 1)) (length p) = p \<and>
     stored m (pos + pkt_blocks p) ps"

text \<open>Each of the packets starts at block \<open>lim\<close> or before.\<close>

fun placed :: "int \<Rightarrow> int \<Rightarrow> byte list list \<Rightarrow> bool" where
  "placed lim pos [] \<longleftrightarrow> True"
| "placed lim pos (p # ps) \<longleftrightarrow> pos \<le> lim \<and> placed lim (pos + pkt_blocks p) ps"

lemma pkt_blocks_pos: "1 \<le> pkt_blocks p" "int (length p) \<le> 4 * (pkt_blocks p - 1)"
  by (simp_all add: pkt_blocks_def)

lemma pkts_blocks_nonneg: "0 \<le> pkts_blocks ps"
proof (induction ps)
  case (Cons p ps)
  then show ?case
    using pkt_blocks_pos(1) [of p] by simp
qed simp

lemma pkts_blocks_append [simp]: "pkts_blocks (ps @ qs) = pkts_blocks ps + pkts_blocks qs"
  by (induction ps) auto

lemma pkts_blocks_0_iff [simp]: "pkts_blocks ps = 0 \<longleftrightarrow> ps = []"
proof (cases ps)
  case (Cons p qs)
  then show ?thesis
    using pkt_blocks_pos(1) [of p] pkts_blocks_nonneg [of qs] by simp
qed simp

lemma pkts_blocks_pos_iff [simp]: "0 < pkts_blocks ps \<longleftrightarrow> ps \<noteq> []"
  using pkts_blocks_nonneg [of ps] pkts_blocks_0_iff [of ps] by linarith

lemma stored_append [simp]:
  "stored m pos (ps @ qs) \<longleftrightarrow> stored m pos ps \<and> stored m (pos + pkts_blocks ps) qs"
  by (induction ps arbitrary: pos) (auto simp: add.assoc)

lemma stored_cong:
  "(\<And>a. 4 * pos \<le> a \<Longrightarrow> a < 4 * (pos + pkts_blocks ps) \<Longrightarrow> m a = m' a) \<Longrightarrow>
   stored m pos ps \<longleftrightarrow> stored m' pos ps"
proof (induction ps arbitrary: pos)
  case (Cons p ps)
  have b: "1 \<le> pkt_blocks p" "int (length p) \<le> 4 * (pkt_blocks p - 1)" "0 \<le> pkts_blocks ps"
    using pkt_blocks_pos [of p] pkts_blocks_nonneg [of ps] by blast+
  have "block_len m pos = block_len m' pos"
    by (rule block_len_cong, rule Cons.prems) (use b in \<open>simp_all add: algebra_simps\<close>)
  moreover have "read_bytes m (4 * (pos + 1)) (length p) = read_bytes m' (4 * (pos + 1)) (length p)"
    by (rule read_bytes_cong, rule Cons.prems) (use b in \<open>simp_all add: algebra_simps\<close>)
  moreover have "stored m (pos + pkt_blocks p) ps \<longleftrightarrow> stored m' (pos + pkt_blocks p) ps"
    by (rule Cons.IH, rule Cons.prems) (use b in \<open>simp_all add: algebra_simps\<close>)
  ultimately show ?case
    by simp
qed simp

lemma placed_snoc: "placed lim pos ps \<Longrightarrow> pos + pkts_blocks ps \<le> lim \<Longrightarrow> placed lim pos (ps @ [p])"
  by (induction ps arbitrary: pos) (auto simp: add.assoc)

lemma placed_below: "pos + pkts_blocks ps \<le> lim \<Longrightarrow> placed lim pos ps"
proof (induction ps arbitrary: pos)
  case (Cons p ps)
  then show ?case
    using pkt_blocks_pos(1) [of p] pkts_blocks_nonneg [of ps] by (simp add: add.assoc)
qed simp

text \<open>
  The representation of a queue of packets. Without wrap-around the packets are stored
  from \<^verbatim>\<open>start\<close>; with it, the packets \<open>ps1\<close> reach exactly to \<^verbatim>\<open>wrap\<close> and \<open>ps2\<close> continue
  at block 0. Every packet starts where a packet of MTU size still fits before the end
  of the array. The pointers offered to the producer and the consumer are up to date.
\<close>

definition cb_geometry :: "ChunkBuffer2 \<Rightarrow> bool" where
  "cb_geometry buf \<longleftrightarrow>
     0 \<le> cb_mtu buf \<and> cb_mtu buf + 1 \<le> cb_size buf \<and> 4 * cb_size buf \<le> INT_MAX \<and>
     0 \<le> cb_start buf \<and> cb_start buf < cb_wrap buf \<and> cb_wrap buf \<le> cb_size buf \<and>
     cb_start buf \<le> cb_size buf - (cb_mtu buf + 1)"

definition cb_content :: "ChunkBuffer2 \<Rightarrow> byte list list \<Rightarrow> byte list list \<Rightarrow> bool" where
  "cb_content buf ps1 ps2 \<longleftrightarrow>
     stored (cb_buffer buf) (cb_start buf) ps1 \<and> stored (cb_buffer buf) 0 ps2 \<and>
     placed (cb_size buf - (cb_mtu buf + 1)) (cb_start buf) ps1 \<and>
     cb_used buf = pkts_blocks ps1 + pkts_blocks ps2 \<and>
     (if cb_used buf < cb_wrap buf - cb_start buf
      then ps2 = [] \<and> cb_wrap buf = cb_size buf \<and>
           cb_start buf + cb_used buf \<le> cb_size buf - (cb_mtu buf + 1)
      else pkts_blocks ps1 = cb_wrap buf - cb_start buf \<and> pkts_blocks ps2 \<le> cb_start buf \<and>
           cb_size buf - cb_wrap buf < cb_mtu buf + 1)"

definition cb_rep :: "ChunkBuffer2 \<Rightarrow> byte list list \<Rightarrow> bool" where
  "cb_rep buf ps \<longleftrightarrow>
     cb_geometry buf \<and> (\<exists>ps1 ps2. ps = ps1 @ ps2 \<and> cb_content buf ps1 ps2) \<and>
     ChunkBuffer2_update_input buf = buf \<and> ChunkBuffer2_update_output buf = buf"

subsection \<open>The updates\<close>

lemma update_input_simps [simp]:
  "cb_buffer (ChunkBuffer2_update_input buf) = cb_buffer buf"
  "cb_size (ChunkBuffer2_update_input buf) = cb_size buf"
  "cb_wrap (ChunkBuffer2_update_input buf) = cb_wrap buf"
  "cb_start (ChunkBuffer2_update_input buf) = cb_start buf"
  "cb_used (ChunkBuffer2_update_input buf) = cb_used buf"
  "cb_mtu (ChunkBuffer2_update_input buf) = cb_mtu buf"
  "cb_output_dest (ChunkBuffer2_update_input buf) = cb_output_dest buf"
  "cb_output_avail (ChunkBuffer2_update_input buf) = cb_output_avail buf"
  by (simp_all add: ChunkBuffer2_update_input_def Let_def)

lemma update_output_simps [simp]:
  "cb_buffer (ChunkBuffer2_update_output buf) = cb_buffer buf"
  "cb_size (ChunkBuffer2_update_output buf) = cb_size buf"
  "cb_wrap (ChunkBuffer2_update_output buf) = cb_wrap buf"
  "cb_start (ChunkBuffer2_update_output buf) = cb_start buf"
  "cb_used (ChunkBuffer2_update_output buf) = cb_used buf"
  "cb_mtu (ChunkBuffer2_update_output buf) = cb_mtu buf"
  "cb_input_dest (ChunkBuffer2_update_output buf) = cb_input_dest buf"
  "cb_input_avail (ChunkBuffer2_update_output buf) = cb_input_avail buf"
  by (simp_all add: ChunkBuffer2_update_output_def Let_def)

lemma update_input_idem [simp]:
  "ChunkBuffer2_update_input (ChunkBuffer2_update_input buf) = ChunkBuffer2_update_input buf"
  by (simp add: ChunkBuffer2_update_input_def ChunkBuffer2_end_def Let_def)

lemma update_output_idem [simp]:
  "ChunkBuffer2_update_output (ChunkBuffer2_update_output buf) = ChunkBuffer2_update_output buf"
  by (simp add: ChunkBuffer2_update_output_def Let_def)

lemma update_commute:
  "ChunkBuffer2_update_input (ChunkBuffer2_update_output buf) =
   ChunkBuffer2_update_output (ChunkBuffer2_update_input buf)"
  by (simp add: ChunkBuffer2_update_output_def ChunkBuffer2_update_input_def ChunkBuffer2_end_def Let_def)

lemma cb_geometry_update [simp]:
  "cb_geometry (ChunkBuffer2_update_input buf) = cb_geometry buf"
  "cb_geometry (ChunkBuffer2_update_output buf) = cb_geometry buf"
  by (simp_all add: cb_geometry_def)

lemma cb_content_update [simp]:
  "cb_content (ChunkBuffer2_update_input buf) ps1 ps2 = cb_content buf ps1 ps2"
  "cb_content (ChunkBuffer2_update_output buf) ps1 ps2 = cb_content buf ps1 ps2"
  by (simp_all add: cb_content_def)

text \<open>Refreshing both pairs of pointers establishes the representation from the content.\<close>

lemma cb_repI:
  "cb_geometry buf \<Longrightarrow> cb_content buf ps1 ps2 \<Longrightarrow> ps = ps1 @ ps2 \<Longrightarrow>
   cb_rep (ChunkBuffer2_update_output (ChunkBuffer2_update_input buf)) ps"
  by (auto simp: cb_rep_def update_commute)

lemma blocks_of_length: "int (length p) \<le> INT_MAX \<Longrightarrow> 1 + blocks_of (int (length p)) = pkt_blocks p"
  by (simp add: blocks_of_eq pkt_blocks_def)
subsection \<open>What the pointers say\<close>

definition cb_free :: "ChunkBuffer2 \<Rightarrow> int" where
  "cb_free buf = (if cb_used buf \<ge> cb_wrap buf - cb_start buf then cb_start buf - ChunkBuffer2_end buf
                  else cb_size buf - ChunkBuffer2_end buf)"

lemma update_input_fix_iff:
  "ChunkBuffer2_update_input buf = buf \<longleftrightarrow>
     cb_input_dest buf = (if cb_size buf - ChunkBuffer2_end buf - 1 < cb_mtu buf \<or> cb_free buf \<le> 0 then None
                          else Some (4 * (ChunkBuffer2_end buf + 1))) \<and>
     cb_input_avail buf = (if cb_size buf - ChunkBuffer2_end buf - 1 < cb_mtu buf \<or> cb_free buf \<le> 0 then -1
                          else to_int ((cb_free buf - 1) * 4))"
  by (cases buf) (simp add: ChunkBuffer2_update_input_def cb_free_def Let_def ChunkBuffer2_end_def, argo)

lemma update_output_fix_iff:
  "ChunkBuffer2_update_output buf = buf \<longleftrightarrow>
     cb_output_dest buf = (if cb_used buf > 0 then Some (4 * (cb_start buf + 1)) else None) \<and>
     cb_output_avail buf = (if cb_used buf > 0 then block_len (cb_buffer buf) (cb_start buf) else -1)"
  by (cases buf) (auto simp: ChunkBuffer2_update_output_def)

lemma cb_content_end:
  assumes "cb_geometry buf" "cb_content buf ps1 ps2"
  shows "0 \<le> ChunkBuffer2_end buf" "ChunkBuffer2_end buf \<le> cb_size buf - (cb_mtu buf + 1)"
    "0 \<le> cb_free buf" "ChunkBuffer2_end buf + cb_free buf \<le> cb_size buf"
proof -
  have g: "0 \<le> cb_mtu buf" "0 \<le> cb_start buf" "cb_start buf < cb_wrap buf" "cb_wrap buf \<le> cb_size buf"
    "cb_start buf \<le> cb_size buf - (cb_mtu buf + 1)"
    using assms(1) by (auto simp: cb_geometry_def)
  have n: "0 \<le> pkts_blocks ps1" "0 \<le> pkts_blocks ps2"
    by (rule pkts_blocks_nonneg)+
  have "0 \<le> ChunkBuffer2_end buf \<and> ChunkBuffer2_end buf \<le> cb_size buf - (cb_mtu buf + 1) \<and>
    0 \<le> cb_free buf \<and> ChunkBuffer2_end buf + cb_free buf \<le> cb_size buf"
  proof (cases "cb_used buf < cb_wrap buf - cb_start buf")
    case True
    then have "cb_wrap buf = cb_size buf" "cb_start buf + cb_used buf \<le> cb_size buf - (cb_mtu buf + 1)"
      "0 \<le> cb_used buf"
      using assms(2) n by (auto simp: cb_content_def)
    then show ?thesis
      using True g by (simp add: ChunkBuffer2_end_def cb_free_def)
  next
    case False
    then have "cb_used buf = cb_wrap buf - cb_start buf + pkts_blocks ps2" "pkts_blocks ps2 \<le> cb_start buf"
      using assms(2) by (auto simp: cb_content_def)
    then show ?thesis
      using False g n by (simp add: ChunkBuffer2_end_def cb_free_def)
  qed
  then show "0 \<le> ChunkBuffer2_end buf" "ChunkBuffer2_end buf \<le> cb_size buf - (cb_mtu buf + 1)"
    "0 \<le> cb_free buf" "ChunkBuffer2_end buf + cb_free buf \<le> cb_size buf"
    by blast+
qed

lemma cb_rep_input:
  assumes "cb_rep buf ps"
  shows "cb_input_dest buf = (if cb_free buf > 0 then Some (4 * (ChunkBuffer2_end buf + 1)) else None)"
    "cb_input_avail buf = (if cb_free buf > 0 then 4 * (cb_free buf - 1) else -1)"
proof -
  obtain ps1 ps2 where c: "cb_geometry buf" "cb_content buf ps1 ps2"
    using assms by (auto simp: cb_rep_def)
  note e = cb_content_end [OF c]
  have "4 * cb_size buf \<le> INT_MAX"
    using c(1) by (simp add: cb_geometry_def)
  then have t: "to_int ((cb_free buf - 1) * 4) = 4 * (cb_free buf - 1)"
    using e by (subst to_int_id) auto
  show "cb_input_dest buf = (if cb_free buf > 0 then Some (4 * (ChunkBuffer2_end buf + 1)) else None)"
    "cb_input_avail buf = (if cb_free buf > 0 then 4 * (cb_free buf - 1) else -1)"
    using assms e(2) unfolding cb_rep_def update_input_fix_iff t by simp_all
qed

lemma cb_content_used: "cb_content buf ps1 ps2 \<Longrightarrow> cb_used buf = pkts_blocks ps1 + pkts_blocks ps2"
  unfolding cb_content_def by blast

lemma cb_content_used_pos:
  "cb_content buf ps1 ps2 \<Longrightarrow> 0 < cb_used buf \<longleftrightarrow> ps1 @ ps2 \<noteq> []"
  using pkts_blocks_pos_iff [of "ps1 @ ps2"] by (simp only: cb_content_used pkts_blocks_append)

lemma cb_content_head:
  assumes "cb_geometry buf" "cb_content buf ps1 ps2" "ps1 @ ps2 = p # ps"
  shows "\<exists>qs. ps1 = p # qs \<and> ps = qs @ ps2"
proof (cases ps1)
  case Nil
  then have "ps2 \<noteq> []"
    using assms(3) by auto
  then have "\<not> cb_used buf < cb_wrap buf - cb_start buf" "cb_start buf < cb_wrap buf"
    using assms(1,2) unfolding cb_content_def cb_geometry_def by argo+
  then have "pkts_blocks ps1 = cb_wrap buf - cb_start buf"
    using assms(2) unfolding cb_content_def by argo
  then show ?thesis
    using Nil \<open>cb_start buf < cb_wrap buf\<close> by simp
qed (use assms in auto)

lemma cb_rep_output:
  assumes "cb_rep buf ps"
  shows "cb_output_dest buf = (if ps = [] then None else Some (4 * (cb_start buf + 1)))"
    "cb_output_avail buf = (if ps = [] then -1 else int (length (hd ps)))"
    "cb_front buf = (if ps = [] then None else Some (hd ps))"
proof -
  obtain ps1 ps2 where c: "cb_geometry buf" "cb_content buf ps1 ps2" "ps = ps1 @ ps2"
    using assms by (auto simp: cb_rep_def)
  have h: "block_len (cb_buffer buf) (cb_start buf) = int (length (hd ps)) \<and>
      read_bytes (cb_buffer buf) (4 * (cb_start buf + 1)) (length (hd ps)) = hd ps" if "ps \<noteq> []"
    using cb_content_head [OF c(1,2)] c(2,3) that
    by (metis append_is_Nil_conv cb_content_def hd_Cons_tl list.sel(1) stored.simps(2))
  show o: "cb_output_dest buf = (if ps = [] then None else Some (4 * (cb_start buf + 1)))"
    "cb_output_avail buf = (if ps = [] then -1 else int (length (hd ps)))"
    using assms h cb_content_used_pos [OF c(2)] c(3) unfolding cb_rep_def update_output_fix_iff by auto
  show "cb_front buf = (if ps = [] then None else Some (hd ps))"
    using h by (simp add: cb_front_def o)
qed

subsection \<open>Initialization and submission\<close>

lemma cb_rep_Init:
  assumes "0 \<le> mtu" "mtu \<le> INT_MAX" "blocks_of mtu + 1 \<le> blocks" "4 * blocks \<le> INT_MAX"
  shows "cb_rep (ChunkBuffer2_Init m blocks mtu) []"
proof -
  have "0 \<le> blocks_of mtu"
    using assms(1,2) by (simp add: blocks_of_eq)
  then show ?thesis
    unfolding ChunkBuffer2_Init_def using assms
    by (intro cb_repI [of _ "[]" "[]"]) (auto simp: cb_geometry_def cb_content_def)
qed

text \<open>The memory after a packet has been written at \<open>end + 1\<close> and its length at \<open>end\<close>.\<close>

definition put_packet :: "memory \<Rightarrow> int \<Rightarrow> byte list \<Rightarrow> memory" where
  "put_packet m e d = set_block_len (write_bytes m (4 * (e + 1)) d) e (int (length d))"

lemma put_packet_other:
  "a < 4 * e \<or> 4 * (e + pkt_blocks d) \<le> a \<Longrightarrow> put_packet m e d a = m a"
  using pkt_blocks_pos [of d]
  by (auto simp: put_packet_def set_block_len_def write_bytes_def)

lemma put_packet_stored:
  assumes "int (length d) \<le> INT_MAX"
  shows "stored (put_packet m e d) e [d]"
proof -
  have "read_bytes (put_packet m e d) (4 * (e + 1)) (length d) =
        read_bytes (write_bytes m (4 * (e + 1)) d) (4 * (e + 1)) (length d)"
    by (rule read_bytes_cong) (simp add: put_packet_def set_block_len_def write_bytes_other)
  then show ?thesis
    using assms by (simp add: put_packet_def block_len_set_same)
qed

lemma put_packet_keeps:
  "pos + pkts_blocks ps \<le> e \<or> e + pkt_blocks d \<le> pos \<Longrightarrow>
   stored (put_packet m e d) pos ps \<longleftrightarrow> stored m pos ps"
  by (rule stored_cong, rule put_packet_other) auto

lemma pkt_blocks_fit: "int (length d) \<le> 4 * (f - 1) \<Longrightarrow> pkt_blocks d \<le> f"
  by (simp add: pkt_blocks_def)

lemma cb_content_submit:
  assumes g: "cb_geometry buf" and c: "cb_content buf ps1 ps2"
    and len: "pkt_blocks d \<le> cb_free buf" "int (length d) \<le> INT_MAX"
    and b1: "b1 = buf\<lparr>cb_buffer := put_packet (cb_buffer buf) (ChunkBuffer2_end buf) d,
                      cb_used := cb_used buf + pkt_blocks d\<rparr>"
    and b2: "b2 = (if cb_used b1 \<le> cb_wrap b1 - cb_start b1 \<and>
                      cb_mtu b1 > cb_size b1 - (ChunkBuffer2_end buf + pkt_blocks d) - 1
                   then b1\<lparr>cb_wrap := ChunkBuffer2_end buf + pkt_blocks d\<rparr> else b1)"
  shows "cb_geometry b2 \<and> (\<exists>qs1 qs2. qs1 @ qs2 = ps1 @ ps2 @ [d] \<and> cb_content b2 qs1 qs2)"
proof -
  let ?e = "ChunkBuffer2_end buf" and ?lim = "cb_size buf - (cb_mtu buf + 1)"
  have gg: "0 \<le> cb_mtu buf" "0 \<le> cb_start buf" "cb_start buf < cb_wrap buf" "cb_wrap buf \<le> cb_size buf"
    "cb_start buf \<le> ?lim"
    using g by (auto simp: cb_geometry_def)
  have cc: "stored (cb_buffer buf) (cb_start buf) ps1" "stored (cb_buffer buf) 0 ps2"
    "placed ?lim (cb_start buf) ps1" "cb_used buf = pkts_blocks ps1 + pkts_blocks ps2"
    using c unfolding cb_content_def by blast+
  have d1: "1 \<le> pkt_blocks d"
    by (rule pkt_blocks_pos)
  show ?thesis
  proof (cases "cb_used buf < cb_wrap buf - cb_start buf")
    case True
    then have u: "ps2 = []" "cb_wrap buf = cb_size buf" "cb_start buf + cb_used buf \<le> ?lim"
      using c True unfolding cb_content_def by argo+
    have e: "?e = cb_start buf + cb_used buf" "?e + pkt_blocks d \<le> cb_size buf"
      using True len(1) by (auto simp: ChunkBuffer2_end_def cb_free_def)
    have st: "stored (put_packet (cb_buffer buf) ?e d) (cb_start buf) (ps1 @ [d])"
      using cc(1,4) u(1) e(1) put_packet_stored [OF len(2), of "cb_buffer buf" ?e]
        put_packet_keeps [of "cb_start buf" ps1 ?e d] by (simp del: stored.simps)
    moreover have "placed ?lim (cb_start buf) (ps1 @ [d])"
      using cc(3,4) u e(1) by (intro placed_snoc) auto
    moreover have "0 \<le> cb_used buf"
      using cc(4) pkts_blocks_nonneg [of ps1] pkts_blocks_nonneg [of ps2] by simp
    ultimately have "cb_geometry b2 \<and> cb_content b2 (ps1 @ [d]) []"
      using gg g u cc(4) e d1 by (simp add: b2 b1 cb_geometry_def cb_content_def)
    then show ?thesis
      using u(1) by (metis append.right_neutral append_Nil)
  next
    case False
    then have w: "pkts_blocks ps1 = cb_wrap buf - cb_start buf" "pkts_blocks ps2 \<le> cb_start buf"
      "cb_size buf - cb_wrap buf < cb_mtu buf + 1"
      using c False unfolding cb_content_def by argo+
    have e: "?e = pkts_blocks ps2" "?e + pkt_blocks d \<le> cb_start buf"
      using False len(1) cc(4) w(1) by (auto simp: ChunkBuffer2_end_def cb_free_def)
    have "stored (put_packet (cb_buffer buf) ?e d) 0 (ps2 @ [d])"
      using cc(2) e(1) put_packet_stored [OF len(2), of "cb_buffer buf" ?e]
        put_packet_keeps [of 0 ps2 ?e d] by (simp del: stored.simps)
    moreover have "stored (put_packet (cb_buffer buf) ?e d) (cb_start buf) ps1"
      using cc(1) e(2) put_packet_keeps [of "cb_start buf" ps1 ?e d] by simp
    ultimately have "cb_geometry b2 \<and> cb_content b2 ps1 (ps2 @ [d])"
      using gg g w cc(3,4) e d1 False by (simp add: b2 b1 cb_geometry_def cb_content_def)
    then show ?thesis
      by (metis append.assoc)
  qed
qed

lemma cb_write_put:
  assumes "cb_rep buf ps" "0 < cb_free buf"
  shows "set_block_len (cb_buffer (cb_write buf d)) (ChunkBuffer2_end buf) (int (length d)) =
           put_packet (cb_buffer buf) (ChunkBuffer2_end buf) d"
  using cb_rep_input(1) [OF assms(1)] assms(2) by (simp add: cb_write_def put_packet_def)

lemma cb_write_simps [simp]:
  "cb_size (cb_write buf d) = cb_size buf" "cb_wrap (cb_write buf d) = cb_wrap buf"
  "cb_start (cb_write buf d) = cb_start buf" "cb_used (cb_write buf d) = cb_used buf"
  "cb_mtu (cb_write buf d) = cb_mtu buf" "ChunkBuffer2_end (cb_write buf d) = ChunkBuffer2_end buf"
  "cb_output_dest (cb_write buf d) = cb_output_dest buf"
  "cb_output_avail (cb_write buf d) = cb_output_avail buf"
  by (simp_all add: cb_write_def ChunkBuffer2_end_def split: option.splits)

lemma cb_content_block_len:
  assumes "cb_geometry buf" "cb_content buf ps1 ps2" "ps1 @ ps2 \<noteq> []"
  shows "block_len (cb_buffer buf) (cb_start buf) = int (length (hd (ps1 @ ps2)))"
proof -
  obtain p ps where "ps1 @ ps2 = p # ps"
    using assms(3) by (meson neq_Nil_conv)
  moreover from cb_content_head [OF assms(1,2) this] obtain qs where "ps1 = p # qs"
    by blast
  ultimately show ?thesis
    using assms(2) unfolding cb_content_def by simp
qed

lemma cb_rep_SubmitPacket:
  assumes rep: "cb_rep buf ps" and len: "int (length d) \<le> cb_input_avail buf"
  shows "cb_rep (ChunkBuffer2_SubmitPacket (cb_write buf d) (int (length d))) (ps @ [d])"
proof -
  obtain ps1 ps2 where c: "cb_geometry buf" "cb_content buf ps1 ps2" "ps = ps1 @ ps2"
    using rep by (auto simp: cb_rep_def)
  have free: "0 < cb_free buf" "int (length d) \<le> 4 * (cb_free buf - 1)"
    using len cb_rep_input(2) [OF rep] by (auto split: if_splits)
  then have fit: "pkt_blocks d \<le> cb_free buf" "int (length d) \<le> INT_MAX"
    using pkt_blocks_fit cb_content_end [OF c(1,2)] c(1) by (auto simp: cb_geometry_def)
  define b1 where "b1 = buf\<lparr>cb_buffer := put_packet (cb_buffer buf) (ChunkBuffer2_end buf) d,
                      cb_used := cb_used buf + pkt_blocks d\<rparr>"
  define b2 where "b2 = (if cb_used b1 \<le> cb_wrap b1 - cb_start b1 \<and>
                      cb_mtu b1 > cb_size b1 - (ChunkBuffer2_end buf + pkt_blocks d) - 1
                   then b1\<lparr>cb_wrap := ChunkBuffer2_end buf + pkt_blocks d\<rparr> else b1)"
  obtain qs1 qs2 where q: "cb_geometry b2" "cb_content b2 qs1 qs2" "qs1 @ qs2 = ps @ [d]"
    using cb_content_submit [OF c(1,2) fit b1_def b2_def] c(3) by auto
  have "(cb_write buf d)\<lparr>cb_buffer := m\<rparr> = buf\<lparr>cb_buffer := m\<rparr>" for m
    by (simp add: cb_write_def split: option.splits)
  then have "(cb_write buf d)\<lparr>cb_buffer := put_packet (cb_buffer buf) (ChunkBuffer2_end buf) d,
                      cb_used := cb_used buf + pkt_blocks d\<rparr> = b1"
    by (simp add: b1_def)
  moreover have "1 + blocks_of (int (length d)) = pkt_blocks d"
    using fit(2) by (rule blocks_of_length)
  then have "ChunkBuffer2_end buf + 1 + blocks_of (int (length d)) = ChunkBuffer2_end buf + pkt_blocks d"
    by simp
  ultimately have sub: "ChunkBuffer2_SubmitPacket (cb_write buf d) (int (length d)) =
      (if cb_used b2 = pkt_blocks d then ChunkBuffer2_update_output (ChunkBuffer2_update_input b2)
       else ChunkBuffer2_update_input b2)"
    using \<open>1 + blocks_of (int (length d)) = pkt_blocks d\<close>
    by (simp add: ChunkBuffer2_SubmitPacket_def Let_def cb_write_put [OF rep free(1)] b2_def add.assoc)
  have "ChunkBuffer2_update_output (ChunkBuffer2_update_input b2) = ChunkBuffer2_update_input b2"
    if "cb_used b2 \<noteq> pkt_blocks d"
  proof -
    have b2: "cb_used b2 = cb_used buf + pkt_blocks d" "cb_start b2 = cb_start buf"
      "cb_output_dest b2 = cb_output_dest buf" "cb_output_avail b2 = cb_output_avail buf"
      by (simp_all add: b2_def b1_def)
    then have "cb_used buf \<noteq> 0"
      using that by simp
    then have "ps \<noteq> []" "0 < cb_used b2"
      using cb_content_used [OF c(2)] c(3) cb_content_used_pos [OF q(2)] q(3) by auto
    then show ?thesis
      using cb_rep_output [OF rep] cb_content_block_len [OF q(1,2)] q(3) b2
      unfolding update_output_fix_iff by simp
  qed
  then have "ChunkBuffer2_SubmitPacket (cb_write buf d) (int (length d)) =
      ChunkBuffer2_update_output (ChunkBuffer2_update_input b2)"
    using sub by auto
  then show ?thesis
    using cb_repI [OF q(1,2)] q(3) by simp
qed

lemma cb_content_length:
  assumes "cb_geometry buf" "cb_content buf (p # qs) ps2"
  shows "int (length p) \<le> INT_MAX"
proof -
  have "cb_used buf = pkt_blocks p + pkts_blocks qs + pkts_blocks ps2" "cb_used buf \<le> cb_size buf"
    using assms unfolding cb_content_def cb_geometry_def by (auto split: if_splits)
  moreover have "4 * cb_size buf \<le> INT_MAX"
    using assms(1) by (simp add: cb_geometry_def)
  ultimately have "pkt_blocks p \<le> cb_size buf" "4 * cb_size buf \<le> INT_MAX"
    using pkts_blocks_nonneg [of qs] pkts_blocks_nonneg [of ps2] by simp_all
  then show ?thesis
    using pkt_blocks_pos(2) [of p] by simp
qed

lemma cb_content_consume:
  assumes g: "cb_geometry buf" and c: "cb_content buf (p # qs) ps2"
    and b1: "b1 = buf\<lparr>cb_start := cb_start buf + pkt_blocks p, cb_used := cb_used buf - pkt_blocks p\<rparr>"
    and b2: "b2 = (if cb_start b1 = cb_wrap b1 then b1\<lparr>cb_start := 0, cb_wrap := cb_size b1\<rparr> else b1)"
  shows "cb_geometry b2 \<and> (\<exists>r1 r2. r1 @ r2 = qs @ ps2 \<and> cb_content b2 r1 r2) \<and>
    ChunkBuffer2_end b2 = ChunkBuffer2_end buf \<and> cb_free buf \<le> cb_free b2 \<and>
    (cb_used buf < cb_wrap buf - cb_start buf \<longrightarrow> cb_free b2 = cb_free buf)"
proof -
  let ?lim = "cb_size buf - (cb_mtu buf + 1)"
  have gg: "0 \<le> cb_mtu buf" "0 \<le> cb_start buf" "cb_start buf < cb_wrap buf" "cb_wrap buf \<le> cb_size buf"
    "cb_start buf \<le> ?lim"
    using g by (auto simp: cb_geometry_def)
  have cc: "stored (cb_buffer buf) (cb_start buf + pkt_blocks p) qs" "stored (cb_buffer buf) 0 ps2"
    "placed ?lim (cb_start buf + pkt_blocks p) qs" "cb_used buf = pkt_blocks p + pkts_blocks qs + pkts_blocks ps2"
    using c unfolding cb_content_def by simp_all
  have n: "1 \<le> pkt_blocks p" "0 \<le> pkts_blocks qs" "0 \<le> pkts_blocks ps2"
    by (rule pkt_blocks_pos pkts_blocks_nonneg)+
  show ?thesis
  proof (cases "cb_used buf < cb_wrap buf - cb_start buf")
    case True
    then have u: "ps2 = []" "cb_wrap buf = cb_size buf" "cb_start buf + cb_used buf \<le> ?lim"
      using c unfolding cb_content_def by argo+
    then have "b2 = b1"
      using gg n cc(4) by (simp add: b2 b1)
    then have "cb_content b2 qs ps2" "cb_geometry b2"
      using cc u gg n g True by (simp_all add: cb_content_def b1 cb_geometry_def)
    then show ?thesis
      using True \<open>b2 = b1\<close> by (auto simp: ChunkBuffer2_end_def cb_free_def b1)
  next
    case False
    then have w: "pkt_blocks p + pkts_blocks qs = cb_wrap buf - cb_start buf" "pkts_blocks ps2 \<le> cb_start buf"
      "cb_size buf - cb_wrap buf < cb_mtu buf + 1"
      using c False unfolding cb_content_def by auto
    show ?thesis
    proof (cases qs)
      case Nil
      then have b: "b2 = buf\<lparr>cb_start := 0, cb_wrap := cb_size buf, cb_used := pkts_blocks ps2\<rparr>"
        using w cc(4) by (simp add: b2 b1)
      have "cb_content b2 ps2 []" "cb_geometry b2"
        using cc(2) w gg g placed_below [of 0 ps2 ?lim] by (simp_all add: cb_content_def b cb_geometry_def)
      then show ?thesis
        using Nil False w cc(4) gg by (auto simp: ChunkBuffer2_end_def cb_free_def b)
    next
      case (Cons q qs')
      then have lt: "cb_start buf + pkt_blocks p < cb_wrap buf" "cb_start buf + pkt_blocks p \<le> ?lim"
        using w pkts_blocks_pos_iff [of qs] cc(3) by auto
      then have b: "b2 = b1"
        by (simp add: b2 b1)
      have "cb_content b2 qs ps2" "cb_geometry b2"
        using cc w gg g lt n by (simp_all add: cb_content_def b b1 cb_geometry_def)
      then show ?thesis
        using False w cc(4) n by (auto simp: ChunkBuffer2_end_def cb_free_def b b1)
    qed
  qed
qed

lemma cb_end_free_update [simp]:
  "ChunkBuffer2_end (ChunkBuffer2_update_input buf) = ChunkBuffer2_end buf"
  "ChunkBuffer2_end (ChunkBuffer2_update_output buf) = ChunkBuffer2_end buf"
  "cb_free (ChunkBuffer2_update_input buf) = cb_free buf"
  "cb_free (ChunkBuffer2_update_output buf) = cb_free buf"
  by (simp_all add: cb_free_def ChunkBuffer2_end_def)

lemma cb_rep_ConsumePacket:
  assumes rep: "cb_rep buf (p # ps)"
  shows "cb_rep (ChunkBuffer2_ConsumePacket buf) ps"
    "cb_input_dest buf \<noteq> None \<Longrightarrow> cb_input_dest (ChunkBuffer2_ConsumePacket buf) = cb_input_dest buf"
    "cb_input_avail buf \<le> cb_input_avail (ChunkBuffer2_ConsumePacket buf)"
proof -
  obtain ps1 ps2 where g: "cb_geometry buf" and "cb_content buf ps1 ps2" "ps1 @ ps2 = p # ps"
    using rep by (auto simp: cb_rep_def)
  then obtain qs where c: "cb_content buf (p # qs) ps2" and ps: "ps = qs @ ps2"
    using cb_content_head [OF g] by blast
  define b1 where "b1 = buf\<lparr>cb_start := cb_start buf + pkt_blocks p, cb_used := cb_used buf - pkt_blocks p\<rparr>"
  define b2 where "b2 = (if cb_start b1 = cb_wrap b1 then b1\<lparr>cb_start := 0, cb_wrap := cb_size b1\<rparr> else b1)"
  have r: "cb_geometry b2" "ChunkBuffer2_end b2 = ChunkBuffer2_end buf" "cb_free buf \<le> cb_free b2"
    "cb_used buf < cb_wrap buf - cb_start buf \<Longrightarrow> cb_free b2 = cb_free buf"
    using cb_content_consume [OF g c b1_def b2_def] by auto
  obtain r1 r2 where r12: "ps = r1 @ r2" "cb_content b2 r1 r2"
    using cb_content_consume [OF g c b1_def b2_def] ps by metis
  have bl: "1 + blocks_of (block_len (cb_buffer buf) (cb_start buf)) = pkt_blocks p"
    using cb_content_block_len [OF g c] cb_content_length [OF g c] by (simp add: blocks_of_length)
  have "ChunkBuffer2_update_input b2 = b2" if "cb_used buf < cb_wrap buf - cb_start buf"
    using rep r(2) r(4) [OF that] unfolding cb_rep_def update_input_fix_iff
    by (simp add: b2_def b1_def)
  then have "ChunkBuffer2_ConsumePacket buf = ChunkBuffer2_update_output (ChunkBuffer2_update_input b2)"
    using bl by (auto simp: ChunkBuffer2_ConsumePacket_def Let_def b1_def b2_def)
  then show rep': "cb_rep (ChunkBuffer2_ConsumePacket buf) ps"
    using cb_repI [OF r(1) r12(2)] r12(1) by simp
  have f: "cb_free (ChunkBuffer2_ConsumePacket buf) = cb_free b2"
    "ChunkBuffer2_end (ChunkBuffer2_ConsumePacket buf) = ChunkBuffer2_end buf"
    using r(2) \<open>ChunkBuffer2_ConsumePacket buf = _\<close> by simp_all
  show "cb_input_dest (ChunkBuffer2_ConsumePacket buf) = cb_input_dest buf" if "cb_input_dest buf \<noteq> None"
    using that cb_rep_input(1) [OF rep] cb_rep_input(1) [OF rep'] f r(3) by (auto split: if_splits)
  show "cb_input_avail buf \<le> cb_input_avail (ChunkBuffer2_ConsumePacket buf)"
    using cb_rep_input(2) [OF rep] cb_rep_input(2) [OF rep'] f r(3) by auto
qed

subsection \<open>Capacity and memory safety\<close>

lemma pkts_blocks_bound: "(\<And>p. p \<in> set ps \<Longrightarrow> pkt_blocks p \<le> c) \<Longrightarrow> pkts_blocks ps \<le> int (length ps) * c"
  by (induction ps) (force simp: algebra_simps)+

lemma calc_blocks_eq:
  assumes "0 \<le> mtu" "mtu \<le> INT_MAX" "0 < num" "0 < ChunkBuffer2_calc_blocks mtu num"
  shows "ChunkBuffer2_calc_blocks mtu num = (1 + blocks_of mtu) * (num + 1)"
  using assms by (auto simp: ChunkBuffer2_calc_blocks_def Let_def split: if_splits)

lemma cb_rep_capacity:
  assumes rep: "cb_rep buf ps" and mtu: "0 \<le> mtu" "mtu \<le> INT_MAX" "cb_mtu buf = blocks_of mtu"
    and size: "cb_size buf = (1 + blocks_of mtu) * (num + 1)"
    and few: "int (length ps) < num" "\<And>p. p \<in> set ps \<Longrightarrow> int (length p) \<le> mtu"
  shows "mtu \<le> cb_input_avail buf"
proof -
  obtain ps1 ps2 where g: "cb_geometry buf" and c: "cb_content buf ps1 ps2" and ps: "ps = ps1 @ ps2"
    using rep by (auto simp: cb_rep_def)
  let ?c = "1 + blocks_of mtu"
  have bm: "blocks_of mtu = (mtu + 3) div 4"
    using mtu by (simp add: blocks_of_eq)
  then have "pkt_blocks p \<le> ?c" if "p \<in> set ps" for p
    using few(2) [OF that] by (simp add: pkt_blocks_def zdiv_mono1)
  then have "pkts_blocks ps \<le> int (length ps) * ?c"
    by (rule pkts_blocks_bound)
  also have "\<dots> \<le> (num - 1) * ?c"
    using few(1) mtu bm by (intro mult_right_mono) auto
  finally have used: "cb_used buf \<le> (num - 1) * ?c"
    using cb_content_used [OF c] ps by simp
  have "?c \<le> cb_free buf"
  proof (cases "cb_used buf < cb_wrap buf - cb_start buf")
    case True
    then have "cb_start buf + cb_used buf \<le> cb_size buf - (cb_mtu buf + 1)"
      using c unfolding cb_content_def by argo
    then show ?thesis
      using True mtu(3) by (simp add: cb_free_def ChunkBuffer2_end_def)
  next
    case False
    then have "cb_size buf - cb_wrap buf < cb_mtu buf + 1"
      using c unfolding cb_content_def by argo
    then have "cb_size buf - cb_wrap buf < ?c"
      by (simp add: mtu(3))
    moreover have "(1 + blocks_of mtu) * (num + 1) = (num - 1) * ?c + 2 * ?c"
      by (simp add: algebra_simps)
    ultimately show ?thesis
      using False used size by (simp add: cb_free_def ChunkBuffer2_end_def)
  qed
  then show ?thesis
    using cb_rep_input(2) [OF rep] bm mtu(1) by auto
qed

lemma cb_content_buffer:
  assumes "stored m (cb_start buf) ps1 \<longleftrightarrow> stored (cb_buffer buf) (cb_start buf) ps1"
    "stored m 0 ps2 \<longleftrightarrow> stored (cb_buffer buf) 0 ps2"
  shows "cb_content (buf\<lparr>cb_buffer := m\<rparr>) ps1 ps2 \<longleftrightarrow> cb_content buf ps1 ps2"
  by (simp add: cb_content_def assms)

lemma cb_rep_write:
  assumes rep: "cb_rep buf ps" and len: "int (length d) \<le> cb_input_avail buf"
  shows "cb_rep (cb_write buf d) ps"
proof -
  obtain ps1 ps2 where g: "cb_geometry buf" and c: "cb_content buf ps1 ps2" and ps: "ps = ps1 @ ps2"
    using rep by (auto simp: cb_rep_def)
  let ?e = "ChunkBuffer2_end buf"
  have free: "0 < cb_free buf" "int (length d) \<le> 4 * (cb_free buf - 1)"
    using len cb_rep_input(2) [OF rep] by (auto split: if_splits)
  let ?m = "write_bytes (cb_buffer buf) (4 * (?e + 1)) d"
  have w: "cb_write buf d = buf\<lparr>cb_buffer := ?m\<rparr>"
    using cb_rep_input(1) [OF rep] free(1) by (simp add: cb_write_def)
  have keep: "stored ?m pos qs \<longleftrightarrow> stored (cb_buffer buf) pos qs"
    if "pos + pkts_blocks qs \<le> ?e \<or> ?e + cb_free buf \<le> pos" for pos qs
    by (rule stored_cong, rule write_bytes_other) (use that free in auto)
  have "cb_content (cb_write buf d) ps1 ps2"
  proof (cases "cb_used buf < cb_wrap buf - cb_start buf")
    case True
    then have "ps2 = []"
      using c unfolding cb_content_def by argo
    then have "cb_start buf + pkts_blocks ps1 \<le> ?e"
      using True cb_content_used [OF c] by (simp add: ChunkBuffer2_end_def)
    then show ?thesis
      using c keep [of "cb_start buf" ps1] cb_content_buffer [of ?m buf ps1 ps2] \<open>ps2 = []\<close> by (simp add: w)
  next
    case False
    then have "pkts_blocks ps1 = cb_wrap buf - cb_start buf"
      using c unfolding cb_content_def by argo
    then have "pkts_blocks ps2 \<le> ?e" "?e + cb_free buf \<le> cb_start buf"
      using False cb_content_used [OF c] by (simp_all add: ChunkBuffer2_end_def cb_free_def)
    then show ?thesis
      using c keep [of "cb_start buf" ps1] keep [of 0 ps2] cb_content_buffer [of ?m buf ps1 ps2]
      by (simp add: w)
  qed
  moreover have "cb_geometry (cb_write buf d)"
    using g by (simp add: w cb_geometry_def)
  moreover have "ChunkBuffer2_update_input (cb_write buf d) = cb_write buf d"
    using rep unfolding cb_rep_def update_input_fix_iff by (simp add: w cb_free_def ChunkBuffer2_end_def)
  moreover have "ChunkBuffer2_update_output (cb_write buf d) = cb_write buf d"
    using cb_rep_output(1,2) [OF rep] cb_content_used_pos [OF calculation(1)] ps
      cb_content_block_len [OF calculation(2,1)]
    unfolding update_output_fix_iff by simp
  ultimately show ?thesis
    using ps by (auto simp: cb_rep_def)
qed

lemma cb_input_bounds:
  assumes "cb_rep buf ps" "cb_input_dest buf = Some a"
  shows "0 \<le> a" "a + cb_input_avail buf \<le> 4 * cb_size buf" "0 \<le> cb_input_avail buf"
proof -
  obtain ps1 ps2 where c: "cb_geometry buf" "cb_content buf ps1 ps2"
    using assms(1) by (auto simp: cb_rep_def)
  show "0 \<le> a" "a + cb_input_avail buf \<le> 4 * cb_size buf" "0 \<le> cb_input_avail buf"
    using cb_rep_input [OF assms(1)] assms(2) cb_content_end [OF c] by (auto split: if_splits)
qed

end
