(* ===== verification/PacketBuffer.thy ===== *)
theory PacketBuffer
  imports ChunkBuffer
begin

text \<open>
  The flow element of \<^verbatim>\<open>flow/PacketBuffer.c\<close> and the \<^verbatim>\<open>flow/BufferWriter.c\<close> in front of
  it. A request that is outstanding on an interface (a receive into a given address, a
  send of a given area) is part of the state. The step relation interleaves the producer,
  which writes into the area it was given in its own time, and the consumer. The lemmas
  show that the element delivers the packets unchanged and in order whatever the
  interleaving, and that it asks for a packet whenever fewer than \<^verbatim>\<open>num_packets\<close> are queued.
\<close>

subsection \<open>The buffer as a queue\<close>

definition chunk_put :: "ChunkBuffer2 \<Rightarrow> byte list \<Rightarrow> ChunkBuffer2" where
  "chunk_put buf d = ChunkBuffer2_SubmitPacket (cb_write buf d) (int (length d))"

definition chunk_room :: "ChunkBuffer2 \<Rightarrow> byte list \<Rightarrow> bool" where
  "chunk_room buf d \<longleftrightarrow> int (length d) \<le> cb_input_avail buf"

interpretation chunk_queue: packet_fifo cb_rep chunk_put ChunkBuffer2_ConsumePacket cb_front chunk_room
proof
  fix buf ps d p
  show "cb_rep buf ps \<Longrightarrow> chunk_room buf d \<Longrightarrow> cb_rep (chunk_put buf d) (ps @ [d])"
    unfolding chunk_put_def chunk_room_def by (rule cb_rep_SubmitPacket)
  show "cb_rep buf (p # ps) \<Longrightarrow> cb_rep (ChunkBuffer2_ConsumePacket buf) ps"
    by (rule cb_rep_ConsumePacket)
  show "cb_rep buf ps \<Longrightarrow> cb_front buf = (case ps of [] \<Rightarrow> None | x # _ \<Rightarrow> Some x)"
    using cb_rep_output(3) [of buf ps] by (cases ps) auto
qed

text \<open>
  \<^bold>\<open>C5\<close>. The circular buffer is a queue: from a freshly initialized buffer, any sequence of
  submissions (of packets that fit the space offered) and consumptions delivers the
  accepted packets byte for byte, in order, without loss or duplication.
\<close>

theorem ChunkBuffer2_fifo:
  assumes "0 \<le> mtu" "mtu \<le> INT_MAX" "blocks_of mtu + 1 \<le> blocks" "4 * blocks \<le> INT_MAX"
    and "fifo_run chunk_put ChunkBuffer2_ConsumePacket cb_front chunk_room
           (ChunkBuffer2_Init m blocks mtu) ops = (buf, accepted, delivered)"
  shows "\<exists>queued. cb_rep buf queued \<and> accepted = delivered @ queued"
  using chunk_queue.run_order [OF cb_rep_Init [OF assms(1-4)] assms(5)] by simp

theorem ChunkBuffer2_fifo_witness:
  "\<exists>buf accepted delivered queued.
     fifo_run chunk_put ChunkBuffer2_ConsumePacket cb_front chunk_room
       (ChunkBuffer2_Init (\<lambda>_. 0) 6 8) [Put [1, 2, 3], Get, Put [4], Get, Get] = (buf, accepted, delivered) \<and>
     accepted = delivered @ queued"
proof -
  obtain buf accepted delivered where r: "fifo_run chunk_put ChunkBuffer2_ConsumePacket cb_front chunk_room
       (ChunkBuffer2_Init (\<lambda>_. 0) 6 8) [Put [1, 2, 3], Get, Put [4], Get, Get] = (buf, accepted, delivered)"
    by (metis prod_cases3)
  have "blocks_of 8 + 1 \<le> 6"
    by (simp add: blocks_of_eq)
  then show ?thesis
    using ChunkBuffer2_fifo [of 8 6 "\<lambda>_. 0", OF _ _ _ _ r] r by auto
qed

subsection \<open>The flow element\<close>

text \<open>
  \<open>pb_recv\<close>: the address of the outstanding receive; \<open>pb_send\<close>: address and length of the
  outstanding send.
\<close>

record PacketBuffer =
  pb_buf :: ChunkBuffer2
  pb_input_mtu :: int
  pb_recv :: "int option option"
  pb_send :: "(int option \<times> int) option"

definition input_handler_done :: "PacketBuffer \<Rightarrow> int \<Rightarrow> PacketBuffer" where
  "input_handler_done pb in_len =
     (let was_empty = (cb_output_avail (pb_buf pb) < 0);
          buf = ChunkBuffer2_SubmitPacket (pb_buf pb) in_len;
          pb = pb\<lparr>pb_buf := buf\<rparr>;
          pb = (if cb_input_avail buf \<ge> pb_input_mtu pb then pb\<lparr>pb_recv := Some (cb_input_dest buf)\<rparr> else pb)
      in if was_empty then pb\<lparr>pb_send := Some (cb_output_dest buf, cb_output_avail buf)\<rparr> else pb)"

definition output_handler_done :: "PacketBuffer \<Rightarrow> PacketBuffer" where
  "output_handler_done pb =
     (let was_full = (cb_input_avail (pb_buf pb) < pb_input_mtu pb);
          buf = ChunkBuffer2_ConsumePacket (pb_buf pb);
          pb = pb\<lparr>pb_buf := buf\<rparr>;
          pb = (if was_full \<and> cb_input_avail buf \<ge> pb_input_mtu pb
                then pb\<lparr>pb_recv := Some (cb_input_dest buf)\<rparr> else pb)
      in if cb_output_avail buf \<ge> 0 then pb\<lparr>pb_send := Some (cb_output_dest buf, cb_output_avail buf)\<rparr> else pb)"

text \<open>
  \<open>alloc n\<close> is the memory that \<^verbatim>\<open>BAllocArray\<close> returns for \<open>n\<close> blocks, if any.
\<close>

definition PacketBuffer_Init :: "(int \<Rightarrow> memory option) \<Rightarrow> int \<Rightarrow> int \<Rightarrow> PacketBuffer option" where
  "PacketBuffer_Init alloc input_mtu num_packets =
     (let num_blocks = ChunkBuffer2_calc_blocks input_mtu num_packets in
      if num_blocks < 0 then None
      else case alloc num_blocks of
        None \<Rightarrow> None
      | Some buf_data \<Rightarrow>
          let buf = ChunkBuffer2_Init buf_data num_blocks input_mtu
          in Some \<lparr>pb_buf = buf, pb_input_mtu = input_mtu, pb_recv = Some (cb_input_dest buf), pb_send = None\<rparr>)"

datatype pb_event = Write "byte list" | Input "byte list" | Output "byte list"

inductive pb_step :: "PacketBuffer \<Rightarrow> pb_event \<Rightarrow> PacketBuffer \<Rightarrow> bool" where
  pb_write: "pb_recv pb = Some (Some a) \<Longrightarrow> int (length d) \<le> pb_input_mtu pb \<Longrightarrow>
    pb_step pb (Write d) (pb\<lparr>pb_buf := (pb_buf pb)\<lparr>cb_buffer := write_bytes (cb_buffer (pb_buf pb)) a d\<rparr>\<rparr>)"
| pb_input: "pb_recv pb = Some (Some a) \<Longrightarrow> int n \<le> pb_input_mtu pb \<Longrightarrow>
    pb_step pb (Input (read_bytes (cb_buffer (pb_buf pb)) a n))
      (input_handler_done (pb\<lparr>pb_recv := None\<rparr>) (int n))"
| pb_output: "pb_send pb = Some (Some a, n) \<Longrightarrow>
    pb_step pb (Output (read_bytes (cb_buffer (pb_buf pb)) a (nat n)))
      (output_handler_done (pb\<lparr>pb_send := None\<rparr>))"

inductive_cases pb_stepE: "pb_step pb ev pb'"

inductive pb_run :: "PacketBuffer \<Rightarrow> pb_event list \<Rightarrow> PacketBuffer \<Rightarrow> bool" where
  run_nil: "pb_run pb [] pb"
| run_step: "pb_run pb evs pb' \<Longrightarrow> pb_step pb' ev pb'' \<Longrightarrow> pb_run pb (evs @ [ev]) pb''"

fun ev_inputs :: "pb_event list \<Rightarrow> byte list list" where
  "ev_inputs [] = []"
| "ev_inputs (Input d # evs) = d # ev_inputs evs"
| "ev_inputs (_ # evs) = ev_inputs evs"

fun ev_outputs :: "pb_event list \<Rightarrow> byte list list" where
  "ev_outputs [] = []"
| "ev_outputs (Output d # evs) = d # ev_outputs evs"
| "ev_outputs (_ # evs) = ev_outputs evs"

lemma ev_append [simp]:
  "ev_inputs (xs @ ys) = ev_inputs xs @ ev_inputs ys" "ev_outputs (xs @ ys) = ev_outputs xs @ ev_outputs ys"
  by (induction xs rule: ev_inputs.induct) auto

subsection \<open>Invariant\<close>

definition pb_inv :: "PacketBuffer \<Rightarrow> byte list list \<Rightarrow> bool" where
  "pb_inv pb ps \<longleftrightarrow>
     cb_rep (pb_buf pb) ps \<and> 0 \<le> pb_input_mtu pb \<and> (\<forall>p\<in>set ps. int (length p) \<le> pb_input_mtu pb) \<and>
     pb_recv pb = (if cb_input_avail (pb_buf pb) \<ge> pb_input_mtu pb then Some (cb_input_dest (pb_buf pb)) else None) \<and>
     pb_send pb = (if ps = [] then None else Some (cb_output_dest (pb_buf pb), cb_output_avail (pb_buf pb)))"

lemma cb_start_submit [simp]: "cb_start (ChunkBuffer2_SubmitPacket buf n) = cb_start buf"
  by (simp add: ChunkBuffer2_SubmitPacket_def Let_def)

lemma pb_recv_dest:
  assumes "pb_inv pb ps" "pb_recv pb = Some (Some a)"
  shows "cb_input_dest (pb_buf pb) = Some a" "pb_input_mtu pb \<le> cb_input_avail (pb_buf pb)"
  using assms by (auto simp: pb_inv_def split: if_splits)

lemma pb_inv_write:
  assumes inv: "pb_inv pb ps" and r: "pb_recv pb = Some (Some a)" "int (length d) \<le> pb_input_mtu pb"
  shows "pb_inv (pb\<lparr>pb_buf := (pb_buf pb)\<lparr>cb_buffer := write_bytes (cb_buffer (pb_buf pb)) a d\<rparr>\<rparr>) ps"
proof -
  have "cb_write (pb_buf pb) d = (pb_buf pb)\<lparr>cb_buffer := write_bytes (cb_buffer (pb_buf pb)) a d\<rparr>"
    using pb_recv_dest(1) [OF inv r(1)] by (simp add: cb_write_def)
  moreover have "cb_rep (cb_write (pb_buf pb) d) ps"
    using inv pb_recv_dest(2) [OF inv r(1)] r(2) by (intro cb_rep_write) (auto simp: pb_inv_def)
  ultimately show ?thesis
    using inv by (simp add: pb_inv_def)
qed

lemma pb_inv_input:
  assumes inv: "pb_inv pb ps" and r: "pb_recv pb = Some (Some a)" "int n \<le> pb_input_mtu pb"
  shows "pb_inv (input_handler_done (pb\<lparr>pb_recv := None\<rparr>) (int n))
           (ps @ [read_bytes (cb_buffer (pb_buf pb)) a n])"
proof -
  let ?d = "read_bytes (cb_buffer (pb_buf pb)) a n" and ?b = "ChunkBuffer2_SubmitPacket (pb_buf pb) (int n)"
  have rep: "cb_rep (pb_buf pb) ps"
    using inv by (simp add: pb_inv_def)
  have "cb_write (pb_buf pb) ?d = pb_buf pb"
    using pb_recv_dest(1) [OF inv r(1)] by (simp add: cb_write_def write_read_bytes)
  then have rep': "cb_rep ?b (ps @ [?d])"
    using cb_rep_SubmitPacket [OF rep, of ?d] pb_recv_dest(2) [OF inv r(1)] r(2) by simp
  have "cb_output_avail (pb_buf pb) < 0 \<longleftrightarrow> ps = []"
    using cb_rep_output(2) [OF rep] by auto
  moreover have "cb_output_dest ?b = cb_output_dest (pb_buf pb)" "cb_output_avail ?b = cb_output_avail (pb_buf pb)"
    if "ps \<noteq> []"
    using cb_rep_output(1,2) [OF rep] cb_rep_output(1,2) [OF rep'] that by auto
  ultimately show ?thesis
    using inv rep' r(2) by (auto simp: pb_inv_def input_handler_done_def Let_def)
qed

lemma pb_inv_output:
  assumes inv: "pb_inv pb ps" and r: "pb_send pb = Some (Some a, n)"
  shows "\<exists>qs. ps = read_bytes (cb_buffer (pb_buf pb)) a (nat n) # qs \<and>
           pb_inv (output_handler_done (pb\<lparr>pb_send := None\<rparr>)) qs"
proof -
  let ?b = "ChunkBuffer2_ConsumePacket (pb_buf pb)"
  have rep: "cb_rep (pb_buf pb) ps" and "ps \<noteq> []"
    using inv r by (auto simp: pb_inv_def split: if_splits)
  then obtain p qs where ps: "ps = p # qs"
    by (meson neq_Nil_conv)
  have "cb_output_dest (pb_buf pb) = Some a" "cb_output_avail (pb_buf pb) = n"
    using inv r ps by (auto simp: pb_inv_def)
  then have "p = read_bytes (cb_buffer (pb_buf pb)) a (nat n)"
    using cb_rep_output(3) [OF rep] ps by (simp add: cb_front_def)
  moreover have rep': "cb_rep ?b qs"
    and d: "cb_input_dest (pb_buf pb) \<noteq> None \<Longrightarrow> cb_input_dest ?b = cb_input_dest (pb_buf pb)"
      "cb_input_avail (pb_buf pb) \<le> cb_input_avail ?b"
    using cb_rep_ConsumePacket [of "pb_buf pb" p qs] rep ps by auto
  moreover have "cb_input_dest (pb_buf pb) \<noteq> None" if "pb_input_mtu pb \<le> cb_input_avail (pb_buf pb)"
    using cb_rep_input [OF rep] that inv by (auto simp: pb_inv_def split: if_splits)
  moreover have "0 \<le> cb_output_avail ?b \<longleftrightarrow> qs \<noteq> []"
    using cb_rep_output(2) [OF rep'] by auto
  ultimately have "pb_inv (output_handler_done (pb\<lparr>pb_send := None\<rparr>)) qs"
    using inv ps by (auto simp: pb_inv_def output_handler_done_def Let_def)
  then show ?thesis
    using ps \<open>p = _\<close> by blast
qed

subsection \<open>Runs\<close>

lemma pb_step_inv:
  assumes "pb_step pb ev pb'" "pb_inv pb ps"
  shows "\<exists>qs. pb_inv pb' qs \<and> ps @ ev_inputs [ev] = ev_outputs [ev] @ qs"
  using assms(1)
proof cases
  case (pb_write a d)
  then show ?thesis
    using pb_inv_write [OF assms(2)] by auto
next
  case (pb_input a n)
  then show ?thesis
    using pb_inv_input [OF assms(2)] by auto
next
  case (pb_output a n)
  then show ?thesis
    using pb_inv_output [OF assms(2)] by auto
qed

lemma pb_run_inv:
  assumes "pb_run pb evs pb'" "pb_inv pb ps"
  shows "\<exists>qs. pb_inv pb' qs \<and> ps @ ev_inputs evs = ev_outputs evs @ qs"
  using assms
proof (induction rule: pb_run.induct)
  case (run_step pb evs pb' ev pb'')
  then obtain qs where q: "pb_inv pb' qs" "ps @ ev_inputs evs = ev_outputs evs @ qs"
    by blast
  then obtain rs where "pb_inv pb'' rs" "qs @ ev_inputs [ev] = ev_outputs [ev] @ rs"
    using pb_step_inv [OF run_step.hyps(2)] by blast
  then show ?case
    using q(2) by (intro exI [of _ rs]) (metis append.assoc ev_append)
qed auto

lemma pb_config_step:
  "pb_step pb ev pb' \<Longrightarrow> pb_input_mtu pb' = pb_input_mtu pb \<and>
     cb_size (pb_buf pb') = cb_size (pb_buf pb) \<and> cb_mtu (pb_buf pb') = cb_mtu (pb_buf pb)"
  by (elim pb_stepE)
    (auto simp: input_handler_done_def output_handler_done_def Let_def
      ChunkBuffer2_SubmitPacket_def ChunkBuffer2_ConsumePacket_def)

lemma pb_config_run:
  "pb_run pb evs pb' \<Longrightarrow> pb_input_mtu pb' = pb_input_mtu pb \<and>
     cb_size (pb_buf pb') = cb_size (pb_buf pb) \<and> cb_mtu (pb_buf pb') = cb_mtu (pb_buf pb)"
  by (induction rule: pb_run.induct) (auto dest: pb_config_step)

lemma PacketBuffer_Init_inv:
  assumes "PacketBuffer_Init alloc mtu num = Some pb" "0 \<le> mtu" "mtu \<le> INT_MAX" "0 < num"
    and "4 * ChunkBuffer2_calc_blocks mtu num \<le> INT_MAX"
  shows "pb_inv pb []" "pb_input_mtu pb = mtu" "cb_mtu (pb_buf pb) = blocks_of mtu"
    "cb_size (pb_buf pb) = (1 + blocks_of mtu) * (num + 1)"
proof -
  let ?blocks = "ChunkBuffer2_calc_blocks mtu num"
  obtain m where m: "0 \<le> ?blocks"
    "pb = \<lparr>pb_buf = ChunkBuffer2_Init m ?blocks mtu, pb_input_mtu = mtu,
          pb_recv = Some (cb_input_dest (ChunkBuffer2_Init m ?blocks mtu)), pb_send = None\<rparr>"
    using assms(1) by (auto simp: PacketBuffer_Init_def Let_def split: if_splits option.splits)
  have bm: "0 \<le> blocks_of mtu"
    using assms by (simp add: blocks_of_eq)
  have blocks: "?blocks = (1 + blocks_of mtu) * (num + 1)"
    using m(1) assms by (auto simp: ChunkBuffer2_calc_blocks_def Let_def split: if_splits)
  moreover have "blocks_of mtu + 1 \<le> (1 + blocks_of mtu) * (num + 1)"
    using bm assms(4) by (simp add: algebra_simps)
  ultimately have rep: "cb_rep (pb_buf pb) []"
    using assms m(2) by (simp add: cb_rep_Init)
  show cfg: "pb_input_mtu pb = mtu" "cb_mtu (pb_buf pb) = blocks_of mtu"
    "cb_size (pb_buf pb) = (1 + blocks_of mtu) * (num + 1)"
    by (simp_all add: m(2) ChunkBuffer2_Init_def blocks)
  have "mtu \<le> cb_input_avail (pb_buf pb)"
    using cb_rep_capacity [OF rep assms(2,3) cfg(2,3)] assms(4) by simp
  then show "pb_inv pb []"
    using rep assms(2) by (simp add: pb_inv_def m(2))
qed

text \<open>
  The size computed by \<open>ChunkBuffer2_calc_blocks\<close> is enough: in every reachable
  state with fewer than \<^verbatim>\<open>num_packets\<close> packets queued, the buffer has asked its producer for
  another packet and has room for one of MTU size.
\<close>

lemma PacketBuffer_capacity:
  assumes "PacketBuffer_Init alloc mtu num = Some pb" "0 \<le> mtu" "mtu \<le> INT_MAX" "0 < num"
    and "4 * ChunkBuffer2_calc_blocks mtu num \<le> INT_MAX"
    and "pb_run pb evs pb'"
    and "int (length (ev_inputs evs)) - int (length (ev_outputs evs)) < num"
  shows "pb_recv pb' \<noteq> None \<and> mtu \<le> cb_input_avail (pb_buf pb')"
proof -
  note init = PacketBuffer_Init_inv [OF assms(1-5)]
  obtain qs where q: "pb_inv pb' qs" "ev_inputs evs = ev_outputs evs @ qs"
    using pb_run_inv [OF assms(6) init(1)] by auto
  have c: "pb_input_mtu pb' = mtu" "cb_mtu (pb_buf pb') = blocks_of mtu"
    "cb_size (pb_buf pb') = (1 + blocks_of mtu) * (num + 1)"
    using pb_config_run [OF assms(6)] init by auto
  have "mtu \<le> cb_input_avail (pb_buf pb')"
    by (rule cb_rep_capacity [OF _ assms(2,3) c(2,3), of qs]) (use q c assms(7) in \<open>auto simp: pb_inv_def\<close>)
  then show ?thesis
    using q(1) c(1) by (auto simp: pb_inv_def)
qed

subsection \<open>The buffer writer\<close>

text \<open>
  \<open>BufferWriter_StartPacket\<close> gives the area of the outstanding receive, \<open>BufferWriter_EndPacket\<close>
  completes it; the completion is the value returned.
\<close>

record BufferWriter =
  bw_out_have :: bool
  bw_out :: "int option"

definition output_handler_recv :: "BufferWriter \<Rightarrow> int \<Rightarrow> BufferWriter" where
  "output_handler_recv w data = w\<lparr>bw_out_have := True, bw_out := Some data\<rparr>"

definition BufferWriter_Init :: BufferWriter where
  "BufferWriter_Init = \<lparr>bw_out_have = False, bw_out = None\<rparr>"

definition BufferWriter_StartPacket :: "BufferWriter \<Rightarrow> int option" where
  "BufferWriter_StartPacket w = (if \<not> bw_out_have w then None else bw_out w)"

definition BufferWriter_EndPacket :: "BufferWriter \<Rightarrow> int \<Rightarrow> BufferWriter \<times> int" where
  "BufferWriter_EndPacket w len = (w\<lparr>bw_out_have := False\<rparr>, len)"

end
