(* ===== verification/PacketProto.thy ===== *)
theory PacketProto
  imports Memory
begin

text \<open>
  Packets over a byte stream: \<^verbatim>\<open>protocol/packetproto.h\<close>, \<^verbatim>\<open>flow/PacketProtoEncoder.c\<close> and
  \<^verbatim>\<open>flow/PacketProtoDecoder.c\<close>. The decoder's buffer is a memory area, its outstanding
  requests (a receive into an area, a send of a packet in the buffer) are part of its
  state. The lemmas show that the decoder recovers the encoded packets from the stream
  however it is cut into pieces, never reports an error on a well-formed stream, always
  leaves room to receive into, and stays inside its buffer.
\<close>

subsection \<open>The encoding\<close>

abbreviation (input) "SIZEOF_PACKETPROTO_HEADER \<equiv> (2::int)"

definition PACKETPROTO_ENCLEN :: "int \<Rightarrow> int" where
  "PACKETPROTO_ENCLEN len = SIZEOF_PACKETPROTO_HEADER + len"

abbreviation (input) "PACKETPROTO_MAXPAYLOAD \<equiv> (65535::int)"

definition packetproto_header_bytes :: "u16 \<Rightarrow> byte list" where
  "packetproto_header_bytes len = bytes16 len"

text \<open>The encoded form of a packet, the reference for encoder and decoder.\<close>

definition pp_encode :: "byte list \<Rightarrow> byte list" where
  "pp_encode p = packetproto_header_bytes (htol16 (of_nat (length p))) @ p"

record PacketProtoEncoder =
  enc_output_packet :: "int option"

definition enc_output_handler_recv :: "PacketProtoEncoder \<Rightarrow> int \<Rightarrow> PacketProtoEncoder \<times> int" where
  "enc_output_handler_recv enc data =
     (enc\<lparr>enc_output_packet := Some data\<rparr>, data + SIZEOF_PACKETPROTO_HEADER)"

text \<open>The memory holds the output packet's area; the last component is the length of the finished packet.\<close>

definition enc_input_handler_done ::
  "PacketProtoEncoder \<Rightarrow> memory \<Rightarrow> int \<Rightarrow> PacketProtoEncoder \<times> memory \<times> int" where
  "enc_input_handler_done enc m in_len =
     (case enc_output_packet enc of
        None \<Rightarrow> (enc, m, 0)
      | Some a \<Rightarrow>
          (enc\<lparr>enc_output_packet := None\<rparr>,
           write_bytes m a (packetproto_header_bytes (htol16 (of_int in_len))),
           PACKETPROTO_ENCLEN in_len))"

subsection \<open>The decoder\<close>

record PacketProtoDecoder =
  dec_buf :: memory
  dec_output_mtu :: int
  dec_buf_size :: int
  dec_buf_start :: int
  dec_buf_used :: int
  dec_recv :: "(int \<times> int) option"
  dec_send :: "(int \<times> int) option"

text \<open>
  \<open>process_data\<close>; the boolean is the call of \<^verbatim>\<open>handler_error\<close>.
\<close>

definition dec_receive :: "PacketProtoDecoder \<Rightarrow> PacketProtoDecoder" where
  "dec_receive enc =
     enc\<lparr>dec_recv := Some (dec_buf_start enc + dec_buf_used enc,
                            dec_buf_size enc - (dec_buf_start enc + dec_buf_used enc))\<rparr>"

definition dec_wait :: "PacketProtoDecoder \<Rightarrow> PacketProtoDecoder" where
  "dec_wait enc =
     dec_receive
       (if dec_buf_start enc + dec_buf_used enc = dec_buf_size enc
        then enc\<lparr>dec_buf := write_bytes (dec_buf enc) 0
                    (read_bytes (dec_buf enc) (dec_buf_start enc) (nat (dec_buf_used enc))),
                 dec_buf_start := 0\<rparr>
        else enc)"

definition process_data :: "PacketProtoDecoder \<Rightarrow> PacketProtoDecoder \<times> bool" where
  "process_data enc =
     (let data = dec_buf_start enc; left = dec_buf_used enc in
      if left < SIZEOF_PACKETPROTO_HEADER then (dec_wait enc, False)
      else
        let header_len = mem16 (dec_buf enc data) (dec_buf enc (data + 1));
            data = data + SIZEOF_PACKETPROTO_HEADER;
            left = left - SIZEOF_PACKETPROTO_HEADER;
            data_len = int (unat (ltoh16 header_len))
        in if data_len > dec_output_mtu enc
           then (dec_receive (enc\<lparr>dec_buf_start := 0, dec_buf_used := 0\<rparr>), True)
           else if left < data_len then (dec_wait enc, False)
           else (enc\<lparr>dec_buf_start := dec_buf_start enc + (SIZEOF_PACKETPROTO_HEADER + data_len),
                      dec_buf_used := dec_buf_used enc - (SIZEOF_PACKETPROTO_HEADER + data_len),
                      dec_send := Some (data, data_len)\<rparr>, False))"

definition dec_input_handler_done :: "PacketProtoDecoder \<Rightarrow> int \<Rightarrow> PacketProtoDecoder \<times> bool" where
  "dec_input_handler_done enc data_len =
     process_data (enc\<lparr>dec_buf_used := dec_buf_used enc + data_len\<rparr>)"

definition dec_output_handler_done :: "PacketProtoDecoder \<Rightarrow> PacketProtoDecoder \<times> bool" where
  "dec_output_handler_done enc = process_data enc"

definition PacketProtoDecoder_Init :: "memory \<Rightarrow> int \<Rightarrow> PacketProtoDecoder" where
  "PacketProtoDecoder_Init buf mtu =
     (let output_mtu = min mtu PACKETPROTO_MAXPAYLOAD; buf_size = PACKETPROTO_ENCLEN output_mtu
      in \<lparr>dec_buf = buf, dec_output_mtu = output_mtu, dec_buf_size = buf_size, dec_buf_start = 0,
          dec_buf_used = 0, dec_recv = Some (0, buf_size), dec_send = None\<rparr>)"

definition PacketProtoDecoder_Reset :: "PacketProtoDecoder \<Rightarrow> PacketProtoDecoder" where
  "PacketProtoDecoder_Reset enc =
     enc\<lparr>dec_buf_start := dec_buf_start enc + dec_buf_used enc, dec_buf_used := 0\<rparr>"

text \<open>
  The decoder between its stream and its consumer. The stream puts some bytes where it was
  asked to and reports their number; the consumer reports the packet as done. The flag says
  whether the error handler was called.
\<close>

datatype dec_event = Recv "byte list" bool | Sent "byte list" bool

inductive dec_step :: "PacketProtoDecoder \<Rightarrow> dec_event \<Rightarrow> PacketProtoDecoder \<Rightarrow> bool" where
  dec_recv: "dec_recv enc = Some (a, n) \<Longrightarrow> d \<noteq> [] \<Longrightarrow> int (length d) \<le> n \<Longrightarrow>
    dec_input_handler_done (enc\<lparr>dec_recv := None, dec_buf := write_bytes (dec_buf enc) a d\<rparr>) (int (length d))
      = (enc', err) \<Longrightarrow>
    dec_step enc (Recv d err) enc'"
| dec_sent: "dec_send enc = Some (a, n) \<Longrightarrow>
    dec_output_handler_done (enc\<lparr>dec_send := None\<rparr>) = (enc', err) \<Longrightarrow>
    dec_step enc (Sent (read_bytes (dec_buf enc) a (nat n)) err) enc'"

inductive dec_run :: "PacketProtoDecoder \<Rightarrow> dec_event list \<Rightarrow> PacketProtoDecoder \<Rightarrow> bool" where
  dec_run_nil: "dec_run enc [] enc"
| dec_run_step: "dec_run enc evs enc' \<Longrightarrow> dec_step enc' ev enc'' \<Longrightarrow> dec_run enc (evs @ [ev]) enc''"

fun ev_received :: "dec_event list \<Rightarrow> byte list" where
  "ev_received [] = []"
| "ev_received (Recv d err # evs) = d @ ev_received evs"
| "ev_received (Sent p err # evs) = ev_received evs"

fun ev_delivered :: "dec_event list \<Rightarrow> byte list list" where
  "ev_delivered [] = []"
| "ev_delivered (Recv d err # evs) = ev_delivered evs"
| "ev_delivered (Sent p err # evs) = p # ev_delivered evs"

fun ev_error :: "dec_event \<Rightarrow> bool" where
  "ev_error (Recv d err) = err"
| "ev_error (Sent p err) = err"

lemma ev_received_append [simp]: "ev_received (xs @ ys) = ev_received xs @ ev_received ys"
  by (induction xs rule: ev_received.induct) auto

lemma ev_delivered_append [simp]: "ev_delivered (xs @ ys) = ev_delivered xs @ ev_delivered ys"
  by (induction xs rule: ev_delivered.induct) auto

subsection \<open>Reading a packet off a stream\<close>

datatype pp_result = Incomplete | TooLarge | Packet "byte list" "byte list"

definition pp_parse :: "int \<Rightarrow> byte list \<Rightarrow> pp_result" where
  "pp_parse mtu s =
     (if length s < 2 then Incomplete
      else let len = unat (mem16 (s ! 0) (s ! 1)) in
      if int len > mtu then TooLarge
      else if length s - 2 < len then Incomplete
      else Packet (take len (drop 2 s)) (drop (2 + len) s))"

lemma pp_parse_encode:
  assumes "length p \<le> 65535" "int (length p) \<le> mtu"
  shows "pp_parse mtu (pp_encode p @ s) = Packet p s"
  using assms by (simp add: pp_parse_def pp_encode_def packetproto_header_bytes_def bytes16_def
      byteorder_defs unat_of_nat)

lemma pp_parse_packet:
  assumes "pp_parse mtu s = Packet p r"
  shows "s = pp_encode p @ r" "int (length p) \<le> mtu"
proof -
  let ?len = "unat (mem16 (s ! 0) (s ! 1))"
  have *: "2 \<le> length s" "int ?len \<le> mtu" "?len \<le> length s - 2" "p = take ?len (drop 2 s)"
    "r = drop (2 + ?len) s"
    using assms by (auto simp: pp_parse_def Let_def split: if_splits)
  then have "s = [s ! 0, s ! 1] @ drop 2 s"
    by (cases s; cases "tl s") auto
  moreover have "drop 2 s = p @ r"
    using *(4,5) by (metis add.commute append_take_drop_id drop_drop)
  moreover have "length p = ?len"
    using *(3,4) by simp
  ultimately show "s = pp_encode p @ r"
    by (simp add: pp_encode_def packetproto_header_bytes_def byteorder_defs)
  show "int (length p) \<le> mtu"
    using *(2) \<open>length p = ?len\<close> by simp
qed

text \<open>A proper prefix of an encoded packet that fits is incomplete, never an error.\<close>

lemma pp_parse_prefix:
  assumes "pp_encode p = s @ t" "t \<noteq> []" "length p \<le> 65535" "int (length p) \<le> mtu"
  shows "pp_parse mtu s = Incomplete"
proof (cases "length s < 2")
  case False
  have "length s + length t = 2 + length p"
    using arg_cong [OF assms(1), of length] by (simp add: pp_encode_def packetproto_header_bytes_def)
  moreover have "0 < length t"
    using assms(2) by simp
  ultimately have "length s - 2 < length p"
    using False by linarith
  moreover have "unat (mem16 (s ! 0) (s ! 1)) = length p"
  proof -
    have "s ! 0 = pp_encode p ! 0" "s ! 1 = pp_encode p ! 1"
      using False by (cases s; simp add: assms(1) nth_append)+
    then show ?thesis
      using assms(3) by (simp add: pp_encode_def packetproto_header_bytes_def bytes16_def
          byteorder_defs unat_of_nat)
  qed
  ultimately show ?thesis
    using assms(4) False by (simp add: pp_parse_def)
qed (simp add: pp_parse_def)

subsection \<open>One step of the decoder\<close>

definition dec_geom :: "PacketProtoDecoder \<Rightarrow> bool" where
  "dec_geom enc \<longleftrightarrow> 0 \<le> dec_output_mtu enc \<and> dec_output_mtu enc \<le> 65535 \<and>
     dec_buf_size enc = 2 + dec_output_mtu enc \<and> 0 \<le> dec_buf_start enc \<and> 0 \<le> dec_buf_used enc \<and>
     dec_buf_start enc + dec_buf_used enc \<le> dec_buf_size enc"

definition dec_pending :: "PacketProtoDecoder \<Rightarrow> byte list" where
  "dec_pending enc = read_bytes (dec_buf enc) (dec_buf_start enc) (nat (dec_buf_used enc))"

text \<open>
  Either a packet is being sent from the buffer, or the decoder waits for at least one more
  byte; both areas lie in the buffer.
\<close>

definition dec_inv :: "PacketProtoDecoder \<Rightarrow> byte list option \<Rightarrow> byte list \<Rightarrow> bool" where
  "dec_inv enc out pend \<longleftrightarrow> dec_geom enc \<and> dec_pending enc = pend \<and>
     (case out of
        None \<Rightarrow> dec_send enc = None \<and> dec_buf_start enc + dec_buf_used enc < dec_buf_size enc \<and>
          dec_recv enc = Some (dec_buf_start enc + dec_buf_used enc,
                               dec_buf_size enc - (dec_buf_start enc + dec_buf_used enc)) \<and>
          pp_parse (dec_output_mtu enc) pend = Incomplete
      | Some p \<Rightarrow> dec_recv enc = None \<and>
          (\<exists>a n. dec_send enc = Some (a, n) \<and> 0 \<le> n \<and> 0 \<le> a \<and> a + n \<le> dec_buf_size enc \<and>
                 read_bytes (dec_buf enc) a (nat n) = p))"

lemma pp_parse_long:
  "2 \<le> length s \<Longrightarrow> len = unat (mem16 (s ! 0) (s ! 1)) \<Longrightarrow>
   pp_parse mtu s = (if int len > mtu then TooLarge else if length s - 2 < len then Incomplete
                     else Packet (take len (drop 2 s)) (drop (2 + len) s))"
  by (simp add: pp_parse_def Let_def)

lemma pp_parse_incomplete_length:
  assumes "pp_parse mtu s = Incomplete" "0 \<le> mtu"
  shows "int (length s) < 2 + mtu"
proof (cases "2 \<le> length s")
  case True
  obtain len where len: "len = unat (mem16 (s ! 0) (s ! 1))"
    by blast
  show ?thesis
    using assms unfolding pp_parse_long [OF True len] by (simp split: if_splits)
qed (use assms in simp)

lemma dec_wait_inv:
  assumes "dec_geom enc" "dec_send enc = None"
    and "pp_parse (dec_output_mtu enc) (dec_pending enc) = Incomplete"
  shows "dec_inv (dec_wait enc) None (dec_pending enc) \<and> dec_output_mtu (dec_wait enc) = dec_output_mtu enc"
proof -
  have "dec_buf_used enc < dec_buf_size enc"
    using pp_parse_incomplete_length [OF assms(3)] assms(1) by (simp add: dec_geom_def dec_pending_def)
  moreover have "read_bytes (write_bytes m 0 (read_bytes m a n)) 0 n = read_bytes m a n" for m a n
    using read_write_bytes [of m 0 "read_bytes m a n"] by simp
  ultimately show ?thesis
    using assms by (auto simp: dec_inv_def dec_wait_def dec_receive_def dec_geom_def dec_pending_def)
qed

lemma process_data_cases:
  assumes g: "dec_geom enc" and idle: "dec_send enc = None" "dec_recv enc = None"
    and p: "process_data enc = (enc', err)"
  shows "dec_output_mtu enc' = dec_output_mtu enc \<and>
    (case pp_parse (dec_output_mtu enc) (dec_pending enc) of
       Incomplete \<Rightarrow> \<not> err \<and> dec_inv enc' None (dec_pending enc)
     | TooLarge \<Rightarrow> err \<and> dec_inv enc' None []
     | Packet q r \<Rightarrow> \<not> err \<and> dec_inv enc' (Some q) r)"
proof -
  let ?s = "dec_pending enc" and ?m = "dec_buf enc" and ?a = "dec_buf_start enc" and ?u = "dec_buf_used enc"
  have u: "0 \<le> ?u" "length ?s = nat ?u"
    using g by (auto simp: dec_geom_def dec_pending_def)
  show ?thesis
  proof (cases "?u < 2")
    case True
    then have "length ?s < 2"
      using u by linarith
    then have "pp_parse (dec_output_mtu enc) ?s = Incomplete"
      by (simp add: pp_parse_def)
    moreover have "enc' = dec_wait enc" "\<not> err"
      using p True by (auto simp: process_data_def)
    ultimately show ?thesis
      using dec_wait_inv [OF g idle(1)] by simp
  next
    case False
    then have s2: "2 \<le> length ?s"
      using u by simp
    obtain len where len: "len = unat (mem16 (?m ?a) (?m (?a + 1)))"
      by blast
    have "?s ! 0 = ?m ?a" "?s ! 1 = ?m (?a + 1)"
      using False u by (simp_all add: dec_pending_def read_bytes_nth)
    then have parse: "pp_parse (dec_output_mtu enc) ?s =
        (if int len > dec_output_mtu enc then TooLarge else if length ?s - 2 < len then Incomplete
         else Packet (take len (drop 2 ?s)) (drop (2 + len) ?s))"
      using pp_parse_long [OF s2, of len] len by simp
    have proc: "process_data enc =
        (if int len > dec_output_mtu enc then (dec_receive (enc\<lparr>dec_buf_start := 0, dec_buf_used := 0\<rparr>), True)
         else if ?u - 2 < int len then (dec_wait enc, False)
         else (enc\<lparr>dec_buf_start := ?a + (2 + int len), dec_buf_used := ?u - (2 + int len),
                   dec_send := Some (?a + 2, int len)\<rparr>, False))"
      using False by (simp add: process_data_def ltoh16_def htol16_def Let_def len)
    have short: "?u - 2 < int len \<longleftrightarrow> length ?s - 2 < len"
      using u False by auto
    consider (large) "int len > dec_output_mtu enc" | (short) "int len \<le> dec_output_mtu enc" "?u - 2 < int len"
      | (full) "int len \<le> dec_output_mtu enc" "int len \<le> ?u - 2"
      by linarith
    then show ?thesis
    proof cases
      case large
      then show ?thesis
        using g idle p proc parse
        by (auto simp: dec_inv_def dec_receive_def dec_geom_def dec_pending_def read_bytes_def pp_parse_def)
    next
      case short
      then show ?thesis
        using dec_wait_inv [OF g idle(1)] p proc parse \<open>?u - 2 < int len \<longleftrightarrow> _\<close> by auto
    next
      case full
      have "nat (?u - (2 + int len)) = nat ?u - (2 + len)"
        by linarith
      with full have "take len (drop 2 ?s) = read_bytes ?m (?a + 2) len"
        "drop (2 + len) ?s = read_bytes ?m (?a + (2 + int len)) (nat (?u - (2 + int len)))"
        using u by (simp_all add: dec_pending_def drop_read_bytes take_read_bytes)
      then show ?thesis
        using g idle p proc parse full \<open>?u - 2 < int len \<longleftrightarrow> _\<close>
        by (auto simp: dec_inv_def dec_geom_def dec_pending_def)
    qed
  qed
qed

subsection \<open>The stream is recovered\<close>

abbreviation opt_list :: "'a option \<Rightarrow> 'a list" where
  "opt_list x \<equiv> (case x of None \<Rightarrow> [] | Some y \<Rightarrow> [y])"

definition pp_fits :: "int \<Rightarrow> byte list list \<Rightarrow> bool" where
  "pp_fits mtu ps \<longleftrightarrow> list_all (\<lambda>p. int (length p) \<le> mtu) ps"

definition pp_stream :: "byte list list \<Rightarrow> byte list" where
  "pp_stream ps = concat (map pp_encode ps)"

lemma pp_stream_simps [simp]:
  "pp_stream [] = []" "pp_stream (p # ps) = pp_encode p @ pp_stream ps"
  "pp_stream (ps @ qs) = pp_stream ps @ pp_stream qs"
  by (simp_all add: pp_stream_def)

lemma pp_encode_inject:
  assumes "pp_encode p @ x = pp_encode q @ y" "length p \<le> 65535" "length q \<le> 65535"
  shows "p = q \<and> x = y"
proof -
  have "Packet p x = pp_parse 65535 (pp_encode p @ x)"
    using assms(2) by (simp add: pp_parse_encode)
  also have "\<dots> = pp_parse 65535 (pp_encode q @ y)"
    by (simp only: assms(1))
  also have "\<dots> = Packet q y"
    using assms(3) by (simp add: pp_parse_encode)
  finally show ?thesis
    by simp
qed

lemma pp_stream_prefix:
  "pp_stream ds @ x = pp_stream ps \<Longrightarrow> pp_fits 65535 ds \<Longrightarrow> pp_fits 65535 ps \<Longrightarrow>
   \<exists>rest. ps = ds @ rest \<and> x = pp_stream rest"
proof (induction ds arbitrary: ps)
  case (Cons d ds)
  then obtain p ps' where ps: "ps = p # ps'"
    by (cases ps) (auto simp: pp_encode_def packetproto_header_bytes_def bytes16_def)
  then have "d = p" "pp_stream ds @ x = pp_stream ps'"
    using Cons.prems pp_encode_inject [of d "pp_stream ds @ x" p "pp_stream ps'"] by (auto simp: pp_fits_def)
  then show ?case
    using Cons.IH [of ps'] Cons.prems ps by (auto simp: pp_fits_def)
qed simp

lemma pp_parse_stream:
  assumes "pend @ future = pp_stream rest" "pp_fits mtu rest" "mtu \<le> 65535"
  shows "pp_parse mtu pend \<noteq> TooLarge" "pp_parse mtu pend = Incomplete \<Longrightarrow> future = [] \<Longrightarrow> rest = []"
proof -
  have "pp_parse mtu pend \<noteq> TooLarge \<and> (pp_parse mtu pend = Incomplete \<longrightarrow> future = [] \<longrightarrow> rest = [])"
  proof (cases rest)
    case Nil
    then show ?thesis
      using assms(1) by (simp add: pp_parse_def)
  next
    case (Cons q qs)
    then have q: "length q \<le> 65535" "int (length q) \<le> mtu"
      using assms(2,3) by (auto simp: pp_fits_def)
    from assms(1) Cons consider (less) t where "pp_encode q = pend @ t" "t \<noteq> []"
      | (more) r where "pend = pp_encode q @ r"
      by (auto simp: append_eq_append_conv2) (metis append_Nil2)
    then show ?thesis
    proof cases
      case less
      moreover have "future \<noteq> []"
        using less assms(1) Cons by auto
      ultimately show ?thesis
        using pp_parse_prefix [OF less q] by simp
    next
      case more
      then show ?thesis
        using pp_parse_encode [OF q] by simp
    qed
  qed
  then show "pp_parse mtu pend \<noteq> TooLarge" "pp_parse mtu pend = Incomplete \<Longrightarrow> future = [] \<Longrightarrow> rest = []"
    by blast+
qed

text \<open>
  The invariant of a run in which no error was reported: the bytes received are the
  encodings of the packets delivered, of the one being sent, and the bytes still pending.
\<close>

definition dec_run_inv :: "PacketProtoDecoder \<Rightarrow> byte list \<Rightarrow> byte list list \<Rightarrow> bool" where
  "dec_run_inv enc received delivered \<longleftrightarrow>
     (\<exists>out pend. dec_inv enc out pend \<and> received = pp_stream (delivered @ opt_list out) @ pend \<and>
        pp_fits (dec_output_mtu enc) (delivered @ opt_list out))"

lemma process_data_run_inv:
  assumes "dec_geom enc" "dec_send enc = None" "dec_recv enc = None" "process_data enc = (enc', err)"
    and "received = pp_stream delivered @ dec_pending enc" "pp_fits (dec_output_mtu enc) delivered"
  shows "dec_output_mtu enc' = dec_output_mtu enc \<and>
    (if err then pp_parse (dec_output_mtu enc) (dec_pending enc) = TooLarge
     else dec_run_inv enc' received delivered)"
proof -
  note pd = process_data_cases [OF assms(1-4)]
  show ?thesis
  proof (cases "pp_parse (dec_output_mtu enc) (dec_pending enc)")
    case (Packet q r)
    then have "dec_inv enc' (Some q) r" "\<not> err" "dec_pending enc = pp_encode q @ r"
      "int (length q) \<le> dec_output_mtu enc"
      using pd pp_parse_packet [OF Packet] by auto
    then show ?thesis
      using pd assms(5,6) unfolding dec_run_inv_def
      by (auto simp: pp_fits_def intro!: exI [of _ "Some q"] exI [of _ r])
  next
    case Incomplete
    then have "dec_inv enc' None (dec_pending enc)" "\<not> err"
      using pd by auto
    then show ?thesis
      using pd assms(5,6) unfolding dec_run_inv_def
      by (auto intro!: exI [of _ None] exI [of _ "dec_pending enc"])
  qed (use pd in auto)
qed

text \<open>A step either keeps the invariant, or has hit a length field above the MTU.\<close>

lemma dec_step_inv:
  assumes "dec_step enc ev enc'" "dec_run_inv enc received delivered"
  shows "dec_output_mtu enc' = dec_output_mtu enc \<and>
    (if ev_error ev
     then \<exists>pend ds. received @ ev_received [ev] = pp_stream ds @ pend \<and> pp_fits (dec_output_mtu enc) ds \<and>
            pp_parse (dec_output_mtu enc) pend = TooLarge
     else dec_run_inv enc' (received @ ev_received [ev]) (delivered @ ev_delivered [ev]))"
proof -
  obtain out pend where inv: "dec_inv enc out pend" and r: "received = pp_stream (delivered @ opt_list out) @ pend"
    and f: "pp_fits (dec_output_mtu enc) (delivered @ opt_list out)"
    using assms(2) by (auto simp: dec_run_inv_def)
  from assms(1) show ?thesis
  proof cases
    case (dec_recv a n d err)
    let ?e = "enc\<lparr>dec_recv := None, dec_buf := write_bytes (dec_buf enc) a d,
      dec_buf_used := dec_buf_used enc + int (length d)\<rparr>"
    from inv dec_recv have o: "out = None" "a = dec_buf_start enc + dec_buf_used enc"
      "n = dec_buf_size enc - a" "dec_send enc = None" "dec_geom enc" "dec_pending enc = pend"
      by (auto simp: dec_inv_def split: option.splits)
    have u: "0 \<le> dec_buf_used enc" "nat (dec_buf_used enc + int (length d)) = nat (dec_buf_used enc) + length d"
      using o(5) by (auto simp: dec_geom_def)
    have "dec_pending ?e = pend @ d"
      using o(6) unfolding dec_pending_def
      by (simp add: u read_bytes_append read_write_disjoint o(2))
    moreover have "dec_geom ?e"
      using o dec_recv by (auto simp: dec_geom_def)
    moreover have "process_data ?e = (enc', err)"
      using dec_recv by (simp add: dec_input_handler_done_def)
    ultimately show ?thesis
      using process_data_run_inv [of ?e enc' err "received @ d" delivered] o(1,4) r f dec_recv(1)
      by (auto intro!: exI [of _ "pend @ d"] exI [of _ delivered])
  next
    case (dec_sent a n err)
    let ?e = "enc\<lparr>dec_send := None\<rparr>"
    obtain p where p: "out = Some p" "read_bytes (dec_buf enc) a (nat n) = p" "dec_geom ?e"
      "dec_recv ?e = None" "dec_pending ?e = pend"
      using inv dec_sent by (auto simp: dec_inv_def dec_geom_def dec_pending_def split: option.splits)
    then show ?thesis
      using process_data_run_inv [of ?e enc' err received "delivered @ [p]"] r f dec_sent
      by (auto simp: dec_output_handler_done_def intro!: exI [of _ pend] exI [of _ "delivered @ [p]"])
  qed
qed

lemma dec_run_facts:
  assumes "dec_run enc0 evs enc" "dec_run_inv enc0 [] []" "pp_fits (dec_output_mtu enc0) ps"
    and "dec_output_mtu enc0 \<le> 65535" "ev_received evs @ future = pp_stream ps"
  shows "dec_output_mtu enc = dec_output_mtu enc0 \<and> list_all (\<lambda>ev. \<not> ev_error ev) evs \<and>
    dec_run_inv enc (ev_received evs) (ev_delivered evs)"
  using assms
proof (induction arbitrary: future rule: dec_run.induct)
  case (dec_run_step enc0 evs enc' ev enc)
  let ?mtu = "dec_output_mtu enc0"
  have mono: "pp_fits ?mtu xs \<Longrightarrow> pp_fits 65535 xs" for xs
    using dec_run_step.prems(3) by (auto simp: pp_fits_def list_all_iff)
  have IH: "dec_output_mtu enc' = ?mtu" "list_all (\<lambda>ev. \<not> ev_error ev) evs"
    "dec_run_inv enc' (ev_received evs) (ev_delivered evs)"
    using dec_run_step.IH [of "ev_received [ev] @ future"] dec_run_step.prems by auto
  have "\<not> ev_error ev"
  proof
    assume "ev_error ev"
    then obtain pend ds where e: "ev_received evs @ ev_received [ev] = pp_stream ds @ pend"
      "pp_fits ?mtu ds" "pp_parse ?mtu pend = TooLarge"
      using dec_step_inv [OF dec_run_step.hyps(2) IH(3)] IH(1) by auto
    then have "pp_stream ds @ (pend @ future) = pp_stream ps"
      using dec_run_step.prems(4) by (metis append.assoc ev_received_append)
    then obtain rest where "ps = ds @ rest" "pend @ future = pp_stream rest"
      using pp_stream_prefix mono e(2) dec_run_step.prems(2) by blast
    then show False
      using pp_parse_stream(1) [of pend future rest ?mtu] dec_run_step.prems(2,3) e(3) by (auto simp: pp_fits_def)
  qed
  then show ?case
    using dec_step_inv [OF dec_run_step.hyps(2) IH(3)] IH(1,2) by auto
qed auto

lemma PacketProtoDecoder_Init_inv:
  assumes "0 \<le> mtu"
  shows "dec_run_inv (PacketProtoDecoder_Init m mtu) [] []"
    "dec_output_mtu (PacketProtoDecoder_Init m mtu) = min mtu 65535"
proof -
  have "dec_inv (PacketProtoDecoder_Init m mtu) None []"
    using assms by (auto simp: dec_inv_def dec_geom_def dec_pending_def PacketProtoDecoder_Init_def
        PACKETPROTO_ENCLEN_def read_bytes_def pp_parse_def Let_def)
  then show "dec_run_inv (PacketProtoDecoder_Init m mtu) [] []"
    unfolding dec_run_inv_def by (intro exI [of _ None] exI [of _ "[]"]) (simp add: pp_fits_def)
  show "dec_output_mtu (PacketProtoDecoder_Init m mtu) = min mtu 65535"
    by (simp add: PacketProtoDecoder_Init_def Let_def)
qed

lemma decoder_delivers:
  assumes "0 \<le> mtu" "pp_fits (min mtu 65535) ps"
    and "dec_run (PacketProtoDecoder_Init m mtu) evs enc" "ev_received evs @ future = pp_stream ps"
  shows "list_all (\<lambda>ev. \<not> ev_error ev) evs \<and>
    (\<exists>rest. ps = ev_delivered evs @ rest \<and> (future = [] \<and> dec_send enc = None \<longrightarrow> rest = []))"
proof -
  note init = PacketProtoDecoder_Init_inv [OF assms(1), of m]
  have r: "dec_output_mtu enc = min mtu 65535" "list_all (\<lambda>ev. \<not> ev_error ev) evs"
    "dec_run_inv enc (ev_received evs) (ev_delivered evs)"
    using dec_run_facts [OF assms(3) init(1)] init(2) assms(2,4) by auto
  obtain out pend where i: "dec_inv enc out pend"
    "ev_received evs = pp_stream (ev_delivered evs @ opt_list out) @ pend"
    "pp_fits (min mtu 65535) (ev_delivered evs @ opt_list out)"
    using r(1,3) by (auto simp: dec_run_inv_def)
  have mono: "pp_fits (min mtu 65535) xs \<Longrightarrow> pp_fits 65535 xs" for xs
    by (auto simp: pp_fits_def list_all_iff)
  have "pp_stream (ev_delivered evs @ opt_list out) @ (pend @ future) = pp_stream ps"
    using assms(4) i(2) by simp
  then obtain rest where rest: "ps = (ev_delivered evs @ opt_list out) @ rest" "pend @ future = pp_stream rest"
    using pp_stream_prefix mono i(3) assms(2) by blast
  have "opt_list out @ rest = []" if "future = []" "dec_send enc = None"
  proof -
    have "out = None" "pp_parse (min mtu 65535) pend = Incomplete"
      using i(1) that(2) r(1) by (auto simp: dec_inv_def split: option.splits)
    moreover have "pp_fits (min mtu 65535) rest"
      using assms(2) rest(1) by (simp add: pp_fits_def)
    ultimately show ?thesis
      using pp_parse_stream(2) [OF rest(2), of "min mtu 65535"] that(1) by simp
  qed
  then show ?thesis
    using r(2) rest(1) by (intro conjI exI [of _ "opt_list out @ rest"]) auto
qed

text \<open>
  \<^bold>\<open>C4\<close>. However the encoded stream of packets \<open>ps\<close> is cut into received pieces, the decoder
  reports no error, what it has delivered and is delivering is a prefix of \<open>ps\<close>, and once
  the whole stream has been received and no packet is being sent, everything was delivered.
\<close>

theorem PacketProtoDecoder_correct:
  assumes "0 \<le> mtu" "pp_fits (min mtu 65535) ps"
    and "dec_run (PacketProtoDecoder_Init m mtu) evs enc" "ev_received evs @ future = pp_stream ps"
  shows "list_all (\<lambda>ev. \<not> ev_error ev) evs \<and>
    (\<exists>rest. ps = ev_delivered evs @ rest \<and> (future = [] \<and> dec_send enc = None \<longrightarrow> rest = []))"
  by (rule decoder_delivers [OF assms])

theorem PacketProtoDecoder_correct_witness:
  "\<exists>enc evs. dec_run (PacketProtoDecoder_Init (\<lambda>_. 0) 4) evs enc \<and> evs = [Recv [1, 0, 7] False] \<and>
     pp_stream [[7]] = ev_received evs \<and> (\<exists>rest. [[7]] = ev_delivered evs @ rest)"
proof -
  let ?e = "PacketProtoDecoder_Init (\<lambda>_. 0) 4"
  have r: "dec_recv ?e = Some (0, 6)"
    by (simp add: PacketProtoDecoder_Init_def PACKETPROTO_ENCLEN_def Let_def)
  obtain enc where "dec_input_handler_done (?e\<lparr>dec_recv := None, dec_buf := write_bytes (dec_buf ?e) 0 [1, 0, 7]\<rparr>)
      (int (length [1, 0, 7 :: byte])) = (enc, False)"
    by (simp add: dec_input_handler_done_def process_data_def PacketProtoDecoder_Init_def
        PACKETPROTO_ENCLEN_def write_bytes_def mem16_def byteorder_defs Let_def)
  then have "dec_step ?e (Recv [1, 0, 7] False) enc"
    by (intro dec_step.dec_recv [OF r]) simp_all
  then have run: "dec_run ?e [Recv [1, 0, 7] False] enc"
    using dec_run_step [OF dec_run_nil] by fastforce
  have s: "ev_received [Recv [1, 0, 7] False] @ [] = pp_stream [[7]]"
    by (simp add: pp_encode_def packetproto_header_bytes_def bytes16_def byteorder_defs)
  show ?thesis
    using PacketProtoDecoder_correct [OF _ _ run s] run s by (auto simp: pp_fits_def)
qed

text \<open>
  In every reachable state, whatever the stream, the decoder is sending a packet that lies
  in its buffer or waits for at least one byte, to be stored in its buffer.
\<close>

definition dec_alive :: "PacketProtoDecoder \<Rightarrow> bool" where
  "dec_alive enc \<longleftrightarrow>
     (case (dec_send enc, dec_recv enc) of
        (Some (a, n), None) \<Rightarrow> 0 \<le> a \<and> 0 \<le> n \<and> a + n \<le> dec_buf_size enc
      | (None, Some (a, n)) \<Rightarrow> 0 \<le> a \<and> 0 < n \<and> a + n \<le> dec_buf_size enc
      | _ \<Rightarrow> False)"

lemma dec_inv_alive: "dec_inv enc out pend \<Longrightarrow> dec_alive enc"
  by (auto simp: dec_inv_def dec_alive_def dec_geom_def split: option.splits)

lemma dec_step_some_inv:
  assumes "dec_step enc ev enc'" "dec_inv enc out pend"
  shows "\<exists>out' pend'. dec_inv enc' out' pend'"
proof -
  have pd: "\<exists>out' pend'. dec_inv enc' out' pend'"
    if "dec_geom e" "dec_send e = None" "dec_recv e = None" "process_data e = (enc', err)" for e err
    using process_data_cases [OF that] by (auto split: pp_result.splits)
  from assms(1) show ?thesis
  proof cases
    case (dec_recv a n d err)
    then show ?thesis
      using assms(2)
      by (intro pd [of "enc\<lparr>dec_recv := None, dec_buf := write_bytes (dec_buf enc) a d,
            dec_buf_used := dec_buf_used enc + int (length d)\<rparr>" err])
        (auto simp: dec_inv_def dec_geom_def dec_input_handler_done_def split: option.splits)
  next
    case (dec_sent a n err)
    then show ?thesis
      using assms(2) by (intro pd [of "enc\<lparr>dec_send := None\<rparr>" err])
        (auto simp: dec_inv_def dec_geom_def dec_output_handler_done_def split: option.splits)
  qed
qed

lemma dec_run_some_inv:
  "dec_run enc0 evs enc \<Longrightarrow> \<exists>out pend. dec_inv enc0 out pend \<Longrightarrow> \<exists>out pend. dec_inv enc out pend"
  by (induction rule: dec_run.induct) (blast intro: dec_step_some_inv)+

text \<open>
  \<^bold>\<open>C34\<close>. The decoder never stalls and never leaves its buffer: in every reachable state,
  whether or not the stream is well-formed, it is sending a packet that lies in the buffer,
  or it waits for at least one more byte, to be stored inside the buffer.
\<close>

theorem PacketProtoDecoder_alive:
  assumes "0 \<le> mtu" "dec_run (PacketProtoDecoder_Init m mtu) evs enc"
  shows "dec_alive enc"
proof -
  have "\<exists>out pend. dec_inv (PacketProtoDecoder_Init m mtu) out pend"
    using PacketProtoDecoder_Init_inv(1) [OF assms(1), of m] by (auto simp: dec_run_inv_def)
  then show ?thesis
    using dec_run_some_inv [OF assms(2)] dec_inv_alive by blast
qed

theorem PacketProtoDecoder_alive_witness:
  "dec_alive (PacketProtoDecoder_Init (\<lambda>_. 0) 0)"
  using PacketProtoDecoder_alive [OF _ dec_run_nil, of 0 "\<lambda>_. 0"] by simp

text \<open>
  The encoder produces the reference encoding: given a payload that its input placed
  behind the header, the finished output packet is the encoding of that payload, and
  nothing outside the header is written.
\<close>

lemma PacketProtoEncoder_encodes:
  assumes "enc_output_handler_recv enc a = (enc1, dest)" "read_bytes m dest (length p) = p"
    and "enc_input_handler_done enc1 m (int (length p)) = (enc2, m', n)"
  shows "read_bytes m' a (nat n) = pp_encode p \<and> n = int (length (pp_encode p)) \<and>
    enc_output_packet enc2 = None \<and> (\<forall>i. i < a \<or> a + 2 \<le> i \<longrightarrow> m' i = m i)"
proof -
  let ?h = "packetproto_header_bytes (htol16 (of_nat (length p)))"
  have h: "length ?h = 2"
    by (simp add: packetproto_header_bytes_def)
  have e: "dest = a + 2" "m' = write_bytes m a ?h" "n = 2 + int (length p)" "enc_output_packet enc2 = None"
    using assms by (auto simp: enc_output_handler_recv_def enc_input_handler_done_def PACKETPROTO_ENCLEN_def)
  have "read_bytes m' a 2 = ?h"
    using read_write_bytes [of m a ?h] h e(2) by simp
  moreover have "read_bytes m' (a + 2) (length p) = p"
    using assms(2) e(1,2) h by (simp add: read_write_disjoint)
  moreover have "nat n = 2 + length p"
    using e(3) by simp
  ultimately show ?thesis
    using e h read_bytes_append [of m' a 2 "length p"] by (simp add: pp_encode_def write_bytes_def)
qed

end
