(* ===== verification/SocksClient.thy ===== *)
theory SocksClient
  imports SockAddr
begin

text \<open>
  The SOCKS5 client of \<^verbatim>\<open>socksclient/BSocksClient.c\<close> with the messages of
  \<^verbatim>\<open>misc/socks_proto.h\<close>: a state machine driven by the connector, the completion of
  sends, received bytes and connection events. An outstanding send or receive is part of
  the state, \<^verbatim>\<open>BRealloc\<close> is an argument. The flags \<open>sc_con\<close>, \<open>sc_control_io\<close>, \<open>sc_up_io\<close> and
  \<open>sc_connector\<close> say which resources are initialized; \<open>sc_fault\<close> records a use of one that
  is not, \<open>sc_sent\<close> and \<open>sc_received\<close> are the history of the dialogue. The lemmas show that
  UP is reported only after a complete, successful SOCKS5 dialogue for the destination
  address, that the client never waits for nothing, stays in its buffer and never
  mismanages a resource.
\<close>

subsection \<open>Messages\<close>

abbreviation (input) "SOCKS_VERSION \<equiv> (5::byte)"
abbreviation (input) "SOCKS_METHOD_NO_AUTHENTICATION_REQUIRED \<equiv> (0::byte)"
abbreviation (input) "SOCKS_METHOD_USERNAME_PASSWORD \<equiv> (2::byte)"
abbreviation (input) "SOCKS_CMD_CONNECT \<equiv> (1::byte)"
abbreviation (input) "SOCKS_ATYP_IPV4 \<equiv> (1::byte)"
abbreviation (input) "SOCKS_ATYP_IPV6 \<equiv> (4::byte)"
abbreviation (input) "SOCKS_REP_SUCCEEDED \<equiv> (0::byte)"

definition socks_addr_ipv4_bytes :: "u32 \<Rightarrow> u16 \<Rightarrow> byte list" where
  "socks_addr_ipv4_bytes addr port = bytes32 addr @ bytes16 port"

definition socks_addr_ipv6_bytes :: "byte list \<Rightarrow> u16 \<Rightarrow> byte list" where
  "socks_addr_ipv6_bytes addr port = take 16 addr @ bytes16 port"

datatype auth_info = Auth_None | Auth_Password "byte list" "byte list"

definition BSocksClient_auth_none :: auth_info where
  "BSocksClient_auth_none = Auth_None"

definition BSocksClient_auth_password :: "byte list \<Rightarrow> byte list \<Rightarrow> auth_info" where
  "BSocksClient_auth_password username password = Auth_Password username password"

fun auth_type :: "auth_info \<Rightarrow> byte" where
  "auth_type Auth_None = SOCKS_METHOD_NO_AUTHENTICATION_REQUIRED"
| "auth_type (Auth_Password u p) = SOCKS_METHOD_USERNAME_PASSWORD"

subsection \<open>State\<close>

datatype socks_state =
    STATE_CONNECTING | STATE_SENDING_HELLO | STATE_SENT_HELLO | STATE_SENDING_PASSWORD
  | STATE_SENT_PASSWORD | STATE_SENDING_REQUEST | STATE_SENT_REQUEST
  | STATE_RECEIVED_REPLY_HEADER | STATE_UP

datatype socks_event = EVENT_ERROR | EVENT_UP | EVENT_ERROR_CLOSED

record BSocksClient =
  sc_auth_info :: "auth_info list"
  sc_dest_addr :: BAddr
  sc_state :: socks_state
  sc_buffer :: "byte list option"
  sc_recv_dest :: nat
  sc_recv_len :: nat
  sc_recv_total :: nat
  sc_recv :: "(nat \<times> nat) option"
  sc_sending :: "byte list option"
  sc_connector :: bool
  sc_con :: bool
  sc_control_io :: bool
  sc_up_io :: bool
  sc_fault :: bool
  sc_sent :: "byte list list"
  sc_received :: "byte list"

type_synonym socks_result = "BSocksClient \<times> socks_event option"

abbreviation report_error :: "BSocksClient \<Rightarrow> socks_event \<Rightarrow> socks_result" where
  "report_error s e \<equiv> (s, Some e)"

subsection \<open>Input and output\<close>

definition init_control_io :: "BSocksClient \<Rightarrow> BSocksClient" where
  "init_control_io s =
     s\<lparr>sc_fault := sc_fault s \<or> \<not> sc_con s \<or> sc_control_io s \<or> sc_up_io s, sc_control_io := True,
       sc_recv := None, sc_sending := None\<rparr>"

definition free_control_io :: "BSocksClient \<Rightarrow> BSocksClient" where
  "free_control_io s =
     s\<lparr>sc_fault := sc_fault s \<or> \<not> sc_control_io s, sc_control_io := False, sc_recv := None, sc_sending := None\<rparr>"

definition init_up_io :: "BSocksClient \<Rightarrow> BSocksClient" where
  "init_up_io s =
     s\<lparr>sc_fault := sc_fault s \<or> \<not> sc_con s \<or> sc_control_io s \<or> sc_up_io s, sc_up_io := True\<rparr>"

definition free_up_io :: "BSocksClient \<Rightarrow> BSocksClient" where
  "free_up_io s = s\<lparr>sc_fault := sc_fault s \<or> \<not> sc_up_io s, sc_up_io := False\<rparr>"

definition free_con :: "BSocksClient \<Rightarrow> BSocksClient" where
  "free_con s =
     s\<lparr>sc_fault := sc_fault s \<or> \<not> sc_con s \<or> sc_control_io s \<or> sc_up_io s, sc_con := False\<rparr>"

text \<open>
  \<^verbatim>\<open>BRealloc\<close> keeps the old content up to the new size. The bytes behind it are
  unspecified in C; here they are zero, and each is written before it is read.
\<close>

definition resize :: "nat \<Rightarrow> byte list \<Rightarrow> byte list" where
  "resize n b = take n b @ replicate (n - length b) 0"

definition reserve_buffer :: "(nat \<Rightarrow> bool) \<Rightarrow> BSocksClient \<Rightarrow> bsize_t \<Rightarrow> BSocksClient option" where
  "reserve_buffer alloc s sz =
     (if is_overflow sz then None
      else let n = unat (size_value sz) in
      if \<not> alloc n then None
      else Some (s\<lparr>sc_buffer := Some (resize n (case sc_buffer s of None \<Rightarrow> [] | Some b \<Rightarrow> b))\<rparr>))"

definition buffer_write :: "nat \<Rightarrow> byte list \<Rightarrow> BSocksClient \<Rightarrow> BSocksClient" where
  "buffer_write off d s =
     (case sc_buffer s of
        None \<Rightarrow> s\<lparr>sc_fault := True\<rparr>
      | Some b \<Rightarrow> s\<lparr>sc_fault := sc_fault s \<or> off + length d > length b,
                    sc_buffer := Some (take off b @ d @ drop (off + length d) b)\<rparr>)"

definition do_receive :: "BSocksClient \<Rightarrow> BSocksClient" where
  "do_receive s = s\<lparr>sc_recv := Some (sc_recv_dest s + sc_recv_len s, sc_recv_total s - sc_recv_len s)\<rparr>"

definition start_receive :: "BSocksClient \<Rightarrow> nat \<Rightarrow> nat \<Rightarrow> BSocksClient" where
  "start_receive s dest amount =
     do_receive (s\<lparr>sc_recv_dest := dest, sc_recv_len := 0, sc_recv_total := amount\<rparr>)"

definition sender_send :: "BSocksClient \<Rightarrow> nat \<Rightarrow> BSocksClient" where
  "sender_send s n =
     (let d = take n (the (sc_buffer s)) in s\<lparr>sc_sending := Some d, sc_sent := sc_sent s @ [d]\<rparr>)"

subsection \<open>Handlers\<close>

definition request_size :: "BAddr \<Rightarrow> bsize_t" where
  "request_size dest =
     (let sz = bsize_fromsize 4 in
      case dest of
        BAddr_IPv4 ip port \<Rightarrow> bsize_add sz (bsize_fromsize 6)
      | BAddr_IPv6 ip port \<Rightarrow> bsize_add sz (bsize_fromsize 18)
      | _ \<Rightarrow> sz)"

text \<open>The writes of \<open>auth_finished\<close>: the address after the header, then the header.\<close>

definition write_request :: "BSocksClient \<Rightarrow> BSocksClient" where
  "write_request s =
     (case sc_dest_addr s of
        BAddr_IPv4 ip port \<Rightarrow>
          buffer_write 0 [hton8 SOCKS_VERSION, hton8 SOCKS_CMD_CONNECT, hton8 0, hton8 SOCKS_ATYP_IPV4]
            (buffer_write 4 (socks_addr_ipv4_bytes ip port) s)
      | BAddr_IPv6 ip port \<Rightarrow>
          buffer_write 0 [hton8 SOCKS_VERSION, hton8 SOCKS_CMD_CONNECT, hton8 0, hton8 SOCKS_ATYP_IPV6]
            (buffer_write 4 (socks_addr_ipv6_bytes ip port) s)
      | _ \<Rightarrow> s\<lparr>sc_fault := True\<rparr>)"

definition auth_finished :: "(nat \<Rightarrow> bool) \<Rightarrow> BSocksClient \<Rightarrow> socks_result" where
  "auth_finished alloc s =
     (let sz = request_size (sc_dest_addr s) in
      case reserve_buffer alloc s sz of
        None \<Rightarrow> report_error s EVENT_ERROR
      | Some s \<Rightarrow>
          let s = write_request s;
              s = sender_send s (unat (size_value sz))
          in (s\<lparr>sc_state := STATE_SENDING_REQUEST\<rparr>, None))"

definition connector_handler :: "(nat \<Rightarrow> bool) \<Rightarrow> bool \<Rightarrow> bool \<Rightarrow> BSocksClient \<Rightarrow> socks_result" where
  "connector_handler alloc is_error con_ok s =
     (if is_error then report_error s EVENT_ERROR
      else if \<not> con_ok then report_error s EVENT_ERROR
      else
        let s = init_control_io (s\<lparr>sc_con := True\<rparr>);
            num = length (sc_auth_info s);
            fail1 = (\<lambda>s. report_error (free_con (free_control_io s)) EVENT_ERROR)
        in if num = 0 \<or> num > 255 then fail1 s
           else
             let sz = bsize_add (bsize_fromsize 2) (bsize_mul (bsize_fromsize (of_nat num)) (bsize_fromsize 1))
             in case reserve_buffer alloc s sz of
                  None \<Rightarrow> fail1 s
                | Some s \<Rightarrow>
                    let s = buffer_write 0 [hton8 SOCKS_VERSION, hton8 (of_nat num)] s;
                        s = buffer_write 2 (map (\<lambda>ai. hton8 (auth_type ai)) (sc_auth_info s)) s;
                        s = sender_send s (unat (size_value sz))
                    in (s\<lparr>sc_state := STATE_SENDING_HELLO\<rparr>, None))"

definition connection_handler :: "bool \<Rightarrow> BSocksClient \<Rightarrow> socks_result" where
  "connection_handler recvclosed s =
     (if sc_state s = STATE_UP \<and> recvclosed then report_error s EVENT_ERROR_CLOSED
      else report_error s EVENT_ERROR)"

definition send_password :: "(nat \<Rightarrow> bool) \<Rightarrow> byte list \<Rightarrow> byte list \<Rightarrow> BSocksClient \<Rightarrow> socks_result" where
  "send_password alloc username password s =
     (if length username = 0 \<or> length username > 255 \<or> length password = 0 \<or> length password > 255
      then report_error s EVENT_ERROR
      else
        let sz = bsize_fromsize (of_nat (1 + 1 + length username + 1 + length password)) in
        case reserve_buffer alloc s sz of
          None \<Rightarrow> report_error s EVENT_ERROR
        | Some s \<Rightarrow>
            let s = buffer_write 0 ([1, of_nat (length username)] @ username @
                                    [of_nat (length password)] @ password) s;
                s = sender_send s (unat (size_value sz))
            in (s\<lparr>sc_state := STATE_SENDING_PASSWORD\<rparr>, None))"

text \<open>The branches of \<open>recv_handler_done\<close> once all requested bytes are there.\<close>

definition recv_hello :: "(nat \<Rightarrow> bool) \<Rightarrow> BSocksClient \<Rightarrow> socks_result" where
  "recv_hello alloc s =
     (let b = the (sc_buffer s) in
      if ntoh8 (b ! 0) \<noteq> SOCKS_VERSION then report_error s EVENT_ERROR
      else case find (\<lambda>ai. auth_type ai = ntoh8 (b ! 1)) (sc_auth_info s) of
             None \<Rightarrow> report_error s EVENT_ERROR
           | Some Auth_None \<Rightarrow> auth_finished alloc s
           | Some (Auth_Password username password) \<Rightarrow> send_password alloc username password s)"

definition recv_reply_header :: "BSocksClient \<Rightarrow> socks_result" where
  "recv_reply_header s =
     (let b = the (sc_buffer s) in
      if ntoh8 (b ! 0) \<noteq> SOCKS_VERSION then report_error s EVENT_ERROR
      else if ntoh8 (b ! 1) \<noteq> SOCKS_REP_SUCCEEDED then report_error s EVENT_ERROR
      else if ntoh8 (b ! 3) = SOCKS_ATYP_IPV4
           then ((start_receive s 4 6)\<lparr>sc_state := STATE_RECEIVED_REPLY_HEADER\<rparr>, None)
      else if ntoh8 (b ! 3) = SOCKS_ATYP_IPV6
           then ((start_receive s 4 18)\<lparr>sc_state := STATE_RECEIVED_REPLY_HEADER\<rparr>, None)
      else report_error s EVENT_ERROR)"

definition recv_password_reply :: "(nat \<Rightarrow> bool) \<Rightarrow> BSocksClient \<Rightarrow> socks_result" where
  "recv_password_reply alloc s =
     (let b = the (sc_buffer s) in
      if b ! 0 \<noteq> 1 then report_error s EVENT_ERROR
      else if b ! 1 \<noteq> 0 then report_error s EVENT_ERROR
      else auth_finished alloc s)"

definition recv_reply_rest :: "BSocksClient \<Rightarrow> socks_result" where
  "recv_reply_rest s =
     (let s = s\<lparr>sc_fault := sc_fault s \<or> sc_buffer s = None, sc_buffer := None\<rparr>;
          s = init_up_io (free_control_io s)
      in (s\<lparr>sc_state := STATE_UP\<rparr>, Some EVENT_UP))"

definition recv_handler_done :: "(nat \<Rightarrow> bool) \<Rightarrow> nat \<Rightarrow> BSocksClient \<Rightarrow> socks_result" where
  "recv_handler_done alloc data_len s =
     (let s = s\<lparr>sc_recv_len := sc_recv_len s + data_len\<rparr> in
      if sc_recv_len s < sc_recv_total s then (do_receive s, None)
      else case sc_state s of
             STATE_SENT_HELLO \<Rightarrow> recv_hello alloc s
           | STATE_SENT_REQUEST \<Rightarrow> recv_reply_header s
           | STATE_SENT_PASSWORD \<Rightarrow> recv_password_reply alloc s
           | STATE_RECEIVED_REPLY_HEADER \<Rightarrow> recv_reply_rest s
           | _ \<Rightarrow> (s\<lparr>sc_fault := True\<rparr>, None))"

definition send_handler_done :: "(nat \<Rightarrow> bool) \<Rightarrow> BSocksClient \<Rightarrow> socks_result" where
  "send_handler_done alloc s =
     (let receive = (\<lambda>sz amount state.
            case reserve_buffer alloc s sz of
              None \<Rightarrow> report_error s EVENT_ERROR
            | Some s \<Rightarrow> ((start_receive s 0 amount)\<lparr>sc_state := state\<rparr>, None))
      in case sc_state s of
           STATE_SENDING_HELLO \<Rightarrow> receive (bsize_fromsize 2) 2 STATE_SENT_HELLO
         | STATE_SENDING_REQUEST \<Rightarrow>
             receive (bsize_add (bsize_fromsize 4) (bsize_max (bsize_fromsize 6) (bsize_fromsize 18))) 4
               STATE_SENT_REQUEST
         | STATE_SENDING_PASSWORD \<Rightarrow> receive (bsize_fromsize 2) 2 STATE_SENT_PASSWORD
         | _ \<Rightarrow> (s\<lparr>sc_fault := True\<rparr>, None))"

text \<open>\<open>BSocksClient_Init\<close> with the success of \<^verbatim>\<open>BConnector_Init\<close> as an argument.\<close>

definition BSocksClient_Init :: "bool \<Rightarrow> auth_info list \<Rightarrow> BAddr \<Rightarrow> BSocksClient option" where
  "BSocksClient_Init connector_ok auth_info dest_addr =
     (if \<not> connector_ok then None
      else Some \<lparr>sc_auth_info = auth_info, sc_dest_addr = dest_addr, sc_state = STATE_CONNECTING,
                 sc_buffer = None, sc_recv_dest = 0, sc_recv_len = 0, sc_recv_total = 0, sc_recv = None,
                 sc_sending = None, sc_connector = True, sc_con = False, sc_control_io = False,
                 sc_up_io = False, sc_fault = False, sc_sent = [], sc_received = []\<rparr>)"

definition BSocksClient_Free :: "BSocksClient \<Rightarrow> BSocksClient" where
  "BSocksClient_Free s =
     (let s = (if sc_state s \<noteq> STATE_CONNECTING
               then free_con (if sc_state s = STATE_UP then free_up_io s else free_control_io s)
               else s);
          s = s\<lparr>sc_fault := sc_fault s \<or> \<not> sc_connector s, sc_connector := False\<rparr>
      in s\<lparr>sc_buffer := None\<rparr>)"

subsection \<open>Runs\<close>

datatype socks_input = Connector bool bool | SendDone | Receive "byte list" | ConEvent bool

text \<open>One event; \<open>None\<close> when it cannot occur in the state.\<close>

fun socks_step :: "(nat \<Rightarrow> bool) \<Rightarrow> BSocksClient \<Rightarrow> socks_input \<Rightarrow> socks_result option" where
  "socks_step alloc s (Connector is_error con_ok) =
     (if sc_state s = STATE_CONNECTING then Some (connector_handler alloc is_error con_ok s) else None)"
| "socks_step alloc s SendDone =
     (case sc_sending s of
        None \<Rightarrow> None
      | Some d \<Rightarrow> Some (send_handler_done alloc (s\<lparr>sc_sending := None\<rparr>)))"
| "socks_step alloc s (Receive d) =
     (case sc_recv s of
        None \<Rightarrow> None
      | Some (a, n) \<Rightarrow>
          if d = [] \<or> length d > n then None
          else Some (recv_handler_done alloc (length d)
                      ((buffer_write a d s)\<lparr>sc_recv := None, sc_received := sc_received s @ d\<rparr>)))"
| "socks_step alloc s (ConEvent recvclosed) =
     (if sc_state s \<noteq> STATE_CONNECTING then Some (connection_handler recvclosed s) else None)"

text \<open>After an error event the client is freed: no further events.\<close>

inductive socks_run :: "(nat \<Rightarrow> bool) \<Rightarrow> auth_info list \<Rightarrow> BAddr \<Rightarrow> BSocksClient \<Rightarrow> socks_event option \<Rightarrow> bool"
  for alloc auths dest where
  socks_init: "BSocksClient_Init True auths dest = Some s \<Longrightarrow> socks_run alloc auths dest s None"
| socks_next: "socks_run alloc auths dest s ev \<Longrightarrow> ev \<noteq> Some EVENT_ERROR \<Longrightarrow> ev \<noteq> Some EVENT_ERROR_CLOSED \<Longrightarrow>
    socks_step alloc s i = Some (s', ev') \<Longrightarrow> socks_run alloc auths dest s' ev'"

subsection \<open>The dialogue of RFC 1928 and RFC 1929\<close>

definition socks_hello :: "auth_info list \<Rightarrow> byte list" where
  "socks_hello auths = [5, of_nat (length auths)] @ map auth_type auths"

definition socks_password :: "byte list \<Rightarrow> byte list \<Rightarrow> byte list" where
  "socks_password u p = [1, of_nat (length u)] @ u @ [of_nat (length p)] @ p"

fun socks_request :: "BAddr \<Rightarrow> byte list" where
  "socks_request (BAddr_IPv4 ip port) = [5, 1, 0, 1] @ bytes32 ip @ bytes16 port"
| "socks_request (BAddr_IPv6 ip port) = [5, 1, 0, 4] @ ip @ bytes16 port"
| "socks_request _ = []"

text \<open>
  The authentication phase is complete: the client has sent \<open>sent\<close> and received \<open>r\<close>. The
  server has chosen a method that was offered, and has accepted the password if there is one.
\<close>

definition socks_chosen :: "auth_info list \<Rightarrow> byte list \<Rightarrow> byte list \<Rightarrow> bool" where
  "socks_chosen auths u p \<longleftrightarrow> Auth_Password u p \<in> set auths \<and>
     0 < length u \<and> length u \<le> 255 \<and> 0 < length p \<and> length p \<le> 255"

definition socks_auth_done :: "auth_info list \<Rightarrow> byte list list \<Rightarrow> byte list \<Rightarrow> bool" where
  "socks_auth_done auths sent r \<longleftrightarrow>
     Auth_None \<in> set auths \<and> sent = [socks_hello auths] \<and> r = [5, 0] \<or>
     (\<exists>u p. socks_chosen auths u p \<and> sent = [socks_hello auths, socks_password u p] \<and> r = [5, 2, 1, 0])"

definition addr_len :: "byte \<Rightarrow> nat" where
  "addr_len atyp = (if atyp = 1 then 6 else 18)"

fun socks_phase :: "auth_info list \<Rightarrow> BAddr \<Rightarrow> socks_state \<Rightarrow> nat \<Rightarrow> byte list list \<Rightarrow> byte list \<Rightarrow> byte list \<Rightarrow> bool" where
  "socks_phase auths dest STATE_CONNECTING n sent recvd part \<longleftrightarrow> sent = [] \<and> recvd = [] \<and> part = []"
| "socks_phase auths dest STATE_SENDING_HELLO n sent recvd part \<longleftrightarrow>
     sent = [socks_hello auths] \<and> recvd = [] \<and> part = []"
| "socks_phase auths dest STATE_SENT_HELLO n sent recvd part \<longleftrightarrow>
     sent = [socks_hello auths] \<and> recvd = part \<and> n = 2"
| "socks_phase auths dest STATE_SENDING_PASSWORD n sent recvd part \<longleftrightarrow>
     (\<exists>u p. socks_chosen auths u p \<and> sent = [socks_hello auths, socks_password u p] \<and> recvd = [5, 2]) \<and> part = []"
| "socks_phase auths dest STATE_SENT_PASSWORD n sent recvd part \<longleftrightarrow>
     (\<exists>u p. socks_chosen auths u p \<and> sent = [socks_hello auths, socks_password u p] \<and> recvd = [5, 2] @ part) \<and> n = 2"
| "socks_phase auths dest STATE_SENDING_REQUEST n sent recvd part \<longleftrightarrow>
     (\<exists>sent'. socks_auth_done auths sent' recvd \<and> sent = sent' @ [socks_request dest]) \<and> part = []"
| "socks_phase auths dest STATE_SENT_REQUEST n sent recvd part \<longleftrightarrow>
     (\<exists>sent' r. socks_auth_done auths sent' r \<and> sent = sent' @ [socks_request dest] \<and> recvd = r @ part) \<and> n = 4"
| "socks_phase auths dest STATE_RECEIVED_REPLY_HEADER n sent recvd part \<longleftrightarrow>
     (\<exists>sent' r rsv atyp. socks_auth_done auths sent' r \<and> sent = sent' @ [socks_request dest] \<and>
        recvd = r @ [5, 0, rsv, atyp] @ part \<and> atyp \<in> {1, 4} \<and> n = addr_len atyp)"
| "socks_phase auths dest STATE_UP n sent recvd part \<longleftrightarrow>
     (\<exists>sent' r rsv atyp addr. socks_auth_done auths sent' r \<and> sent = sent' @ [socks_request dest] \<and>
        recvd = r @ [5, 0, rsv, atyp] @ addr \<and> atyp \<in> {1, 4} \<and> length addr = addr_len atyp) \<and> part = []"

subsection \<open>Invariant\<close>

definition is_sending :: "socks_state \<Rightarrow> bool" where
  "is_sending st \<longleftrightarrow> st \<in> {STATE_SENDING_HELLO, STATE_SENDING_PASSWORD, STATE_SENDING_REQUEST}"

definition is_receiving :: "socks_state \<Rightarrow> bool" where
  "is_receiving st \<longleftrightarrow> st \<in> {STATE_SENT_HELLO, STATE_SENT_PASSWORD, STATE_SENT_REQUEST, STATE_RECEIVED_REPLY_HEADER}"

text \<open>The resources that are initialized in a state.\<close>

definition socks_res :: "BSocksClient \<Rightarrow> bool" where
  "socks_res s \<longleftrightarrow> \<not> sc_fault s \<and> sc_connector s \<and>
     sc_con s = (sc_state s \<noteq> STATE_CONNECTING) \<and> sc_up_io s = (sc_state s = STATE_UP) \<and>
     sc_control_io s = (sc_state s \<noteq> STATE_CONNECTING \<and> sc_state s \<noteq> STATE_UP)"

text \<open>The receive in progress: \<open>part\<close> has arrived, the rest is asked for, all in the buffer.\<close>

definition socks_receiving :: "BSocksClient \<Rightarrow> byte list \<Rightarrow> bool" where
  "socks_receiving s part \<longleftrightarrow>
     (\<exists>b. sc_buffer s = Some b \<and> sc_recv_dest s + sc_recv_total s \<le> length b \<and>
        part = take (sc_recv_len s) (drop (sc_recv_dest s) b)) \<and>
     sc_recv_len s < sc_recv_total s \<and> sc_sending s = None \<and>
     sc_recv s = Some (sc_recv_dest s + sc_recv_len s, sc_recv_total s - sc_recv_len s) \<and>
     (if sc_state s = STATE_RECEIVED_REPLY_HEADER then True else sc_recv_dest s = 0) \<and>
     (sc_state s = STATE_SENT_REQUEST \<longrightarrow> length (the (sc_buffer s)) = 22)"

definition socks_inv :: "auth_info list \<Rightarrow> BAddr \<Rightarrow> BSocksClient \<Rightarrow> bool" where
  "socks_inv auths dest s \<longleftrightarrow> socks_res s \<and> sc_auth_info s = auths \<and> sc_dest_addr s = dest \<and>
     (\<exists>part. socks_phase auths dest (sc_state s) (sc_recv_total s) (sc_sent s) (sc_received s) part \<and>
        (if is_receiving (sc_state s) then socks_receiving s part
         else sc_recv s = None \<and>
              (if is_sending (sc_state s) then sc_sending s = Some (last (sc_sent s)) \<and> sc_buffer s \<noteq> None
               else sc_sending s = None)))"

subsection \<open>Buffers\<close>

lemma length_resize [simp]: "length (resize n b) = n"
  by (simp add: resize_def)

lemma reserve_buffer_Some:
  "reserve_buffer alloc s sz = Some s' \<Longrightarrow>
   \<exists>b. s' = s\<lparr>sc_buffer := Some b\<rparr> \<and> length b = unat (size_value sz)"
  by (auto simp: reserve_buffer_def Let_def split: if_splits)

lemma bsize_sizes:
  "bsize_add (bsize_fromsize 4) (bsize_fromsize 6) = bsize_fromsize 10"
  "bsize_add (bsize_fromsize 4) (bsize_fromsize 18) = bsize_fromsize 22"
  "bsize_add (bsize_fromsize 4) (bsize_max (bsize_fromsize 6) (bsize_fromsize 18)) = bsize_fromsize 22"
  by (simp_all add: bsize_add_def bsize_fromsize_def bsize_max_def)

lemma size_value_fromsize [simp]: "size_value (bsize_fromsize n) = n" "\<not> is_overflow (bsize_fromsize n)"
  by (simp_all add: bsize_fromsize_def)

lemma unat_of_nat_small: "n < 2 ^ 64 \<Longrightarrow> unat (of_nat n :: size_t) = n"
  by (simp add: unat_of_nat)

lemma hello_size:
  assumes "n \<le> 255"
  shows "unat (size_value (bsize_add (bsize_fromsize 2) (bsize_mul (bsize_fromsize (of_nat n)) (bsize_fromsize 1)))) = 2 + n"
proof -
  have "size_value (bsize_add (bsize_fromsize 2) (bsize_mul (bsize_fromsize (of_nat n)) (bsize_fromsize 1))) =
      (of_nat (2 + n) :: size_t)"
    by (simp add: bsize_add_def bsize_mul_def bsize_fromsize_def)
  then show ?thesis
    using assms unat_of_nat_small [of "2 + n"] by simp
qed

lemma buffer_write_both:
  assumes "sc_buffer s = Some b" "length b = n + length y" "length x = n"
  shows "buffer_write n y (buffer_write 0 x s) = s\<lparr>sc_buffer := Some (x @ y)\<rparr>"
    "buffer_write 0 x (buffer_write n y s) = s\<lparr>sc_buffer := Some (x @ y)\<rparr>"
  using assms by (simp_all add: buffer_write_def)

subsection \<open>Handlers keep the invariant\<close>

definition socks_post :: "auth_info list \<Rightarrow> BAddr \<Rightarrow> socks_result \<Rightarrow> bool" where
  "socks_post auths dest r \<longleftrightarrow> socks_res (fst r) \<and>
     (snd r \<in> {None, Some EVENT_UP} \<longrightarrow> socks_inv auths dest (fst r)) \<and>
     (snd r = Some EVENT_UP \<longrightarrow> sc_state (fst r) = STATE_UP)"

text \<open>Between two requests, in a state with control I/O.\<close>

definition socks_idle :: "auth_info list \<Rightarrow> BAddr \<Rightarrow> BSocksClient \<Rightarrow> bool" where
  "socks_idle auths dest s \<longleftrightarrow> socks_res s \<and> sc_auth_info s = auths \<and> sc_dest_addr s = dest \<and>
     sc_state s \<noteq> STATE_CONNECTING \<and> sc_state s \<noteq> STATE_UP \<and> sc_recv s = None \<and> sc_sending s = None"

lemma socks_post_error: "socks_res s \<Longrightarrow> socks_post auths dest (report_error s EVENT_ERROR)"
  by (simp add: socks_post_def)

lemma write_request_eq:
  assumes "BAddr_is_ip (sc_dest_addr s)" "sc_buffer s = Some b" "length b = unat (size_value (request_size (sc_dest_addr s)))"
  shows "write_request s = s\<lparr>sc_buffer := Some (socks_request (sc_dest_addr s))\<rparr>"
proof (cases "sc_dest_addr s")
  case (BAddr_IPv4 ip port)
  then have "length b = 4 + length (socks_addr_ipv4_bytes ip port)"
    using assms(3) by (simp add: request_size_def bsize_sizes socks_addr_ipv4_bytes_def)
  then show ?thesis
    using buffer_write_both(2) [OF assms(2), of 4 "socks_addr_ipv4_bytes ip port" "[5, 1, 0, 1]"] BAddr_IPv4
    by (simp add: write_request_def hton8_def socks_addr_ipv4_bytes_def)
next
  case (BAddr_IPv6 ip port)
  then have "length b = 4 + length (socks_addr_ipv6_bytes ip port)"
    using assms(1,3) by (simp add: request_size_def bsize_sizes socks_addr_ipv6_bytes_def)
  then show ?thesis
    using buffer_write_both(2) [OF assms(2), of 4 "socks_addr_ipv6_bytes ip port" "[5, 1, 0, 4]"] BAddr_IPv6 assms(1)
    by (simp add: write_request_def hton8_def socks_addr_ipv6_bytes_def)
qed (use assms(1) in auto)

lemma length_socks_request:
  "BAddr_is_ip dest \<Longrightarrow> length (socks_request dest) = unat (size_value (request_size dest))"
  by (cases dest) (simp_all add: request_size_def bsize_sizes)

lemma auth_finished_post:
  assumes "socks_idle auths dest s" "BAddr_is_ip dest" "socks_auth_done auths (sc_sent s) (sc_received s)"
  shows "socks_post auths dest (auth_finished alloc s)"
proof (cases "reserve_buffer alloc s (request_size dest)")
  case None
  then show ?thesis
    using assms by (simp add: auth_finished_def socks_idle_def socks_post_error)
next
  case (Some s')
  then obtain b where b: "s' = s\<lparr>sc_buffer := Some b\<rparr>" "length b = unat (size_value (request_size dest))"
    using reserve_buffer_Some by blast
  then have "write_request s' = s\<lparr>sc_buffer := Some (socks_request dest)\<rparr>"
    using write_request_eq [of s' b] assms(1,2) by (simp add: socks_idle_def)
  then show ?thesis
    using assms Some length_socks_request [OF assms(2)]
    by (auto simp: auth_finished_def socks_idle_def socks_post_def socks_inv_def socks_res_def
        sender_send_def is_receiving_def is_sending_def Let_def)
qed

lemma send_password_post:
  assumes "socks_idle auths dest s" "Auth_Password u p \<in> set auths"
    and "sc_sent s = [socks_hello auths]" "sc_received s = [5, 2]"
  shows "socks_post auths dest (send_password alloc u p s)"
proof (cases "length u = 0 \<or> length u > 255 \<or> length p = 0 \<or> length p > 255")
  case True
  then show ?thesis
    using assms by (simp add: send_password_def socks_idle_def socks_post_error)
next
  case False
  let ?n = "1 + 1 + length u + 1 + length p" and ?m = "socks_password u p"
  have n: "unat (of_nat ?n :: size_t) = ?n"
    using False by (intro unat_of_nat_small) simp
  have m: "length ?m = ?n" "?m = [1, of_nat (length u)] @ u @ [of_nat (length p)] @ p"
    by (simp_all add: socks_password_def)
  show ?thesis
  proof (cases "reserve_buffer alloc s (bsize_fromsize (of_nat ?n))")
    case None
    then show ?thesis
      using False assms unfolding send_password_def by (simp add: socks_idle_def socks_post_error)
  next
    case (Some s')
    then obtain b where b: "s' = s\<lparr>sc_buffer := Some b\<rparr>" "length b = ?n"
      using reserve_buffer_Some n by fastforce
    then have "buffer_write 0 ?m s' = s\<lparr>sc_buffer := Some ?m\<rparr>"
      using m(1) by (simp add: buffer_write_def)
    then have "send_password alloc u p s =
        ((sender_send (s\<lparr>sc_buffer := Some ?m\<rparr>) (length ?m))\<lparr>sc_state := STATE_SENDING_PASSWORD\<rparr>, None)"
      using False Some n m unfolding send_password_def by (simp add: Let_def)
    moreover have "socks_chosen auths u p"
      using False assms(2) by (auto simp: socks_chosen_def)
    ultimately show ?thesis
      using assms by (auto simp: socks_idle_def socks_post_def socks_inv_def socks_res_def sender_send_def
          is_receiving_def is_sending_def Let_def)
  qed
qed

lemma recv_hello_post:
  assumes "socks_idle auths dest s" "BAddr_is_ip dest" "sc_sent s = [socks_hello auths]"
    and "sc_buffer s = Some b" "sc_received s = [b ! 0, b ! 1]"
  shows "socks_post auths dest (recv_hello alloc s)"
proof -
  have res: "socks_res s" and a: "sc_auth_info s = auths"
    using assms(1) by (simp_all add: socks_idle_def)
  show ?thesis
  proof (cases "b ! 0 = 5")
    case True
    show ?thesis
    proof (cases "find (\<lambda>ai. auth_type ai = b ! 1) auths")
      case None
      then show ?thesis
        using True assms(4) a socks_post_error [OF res] by (simp add: recv_hello_def ntoh8_def hton8_def)
    next
      case (Some ai)
      then have ai: "ai \<in> set auths" "auth_type ai = b ! 1"
        by (auto simp: find_Some_iff)
      show ?thesis
      proof (cases ai)
        case Auth_None
        then have "socks_auth_done auths (sc_sent s) (sc_received s)"
          using ai True assms(3,5) by (auto simp: socks_auth_done_def)
        then show ?thesis
          using auth_finished_post [OF assms(1,2)] Auth_None True assms(4) Some a
          by (simp add: recv_hello_def ntoh8_def hton8_def)
      next
        case (Auth_Password u p)
        then show ?thesis
          using send_password_post [OF assms(1), of u p alloc] ai True assms(3,4,5) Some a
          by (simp add: recv_hello_def ntoh8_def hton8_def)
      qed
    qed
  qed (use assms(4) socks_post_error [OF res] in \<open>simp add: recv_hello_def ntoh8_def hton8_def\<close>)
qed

lemma recv_reply_header_post:
  assumes "socks_idle auths dest s" "socks_auth_done auths sent' r" "sc_sent s = sent' @ [socks_request dest]"
    and "sc_buffer s = Some b" "length b = 22" "sc_received s = r @ [b ! 0, b ! 1, b ! 2, b ! 3]"
  shows "socks_post auths dest (recv_reply_header s)"
proof -
  have res: "socks_res s"
    using assms(1) by (simp add: socks_idle_def)
  consider (bad) "b ! 0 \<noteq> 5 \<or> b ! 1 \<noteq> 0 \<or> b ! 3 \<notin> {1, 4}" | (good) "b ! 0 = 5" "b ! 1 = 0" "b ! 3 \<in> {1, 4}"
    by blast
  then show ?thesis
  proof cases
    case bad
    then show ?thesis
      using assms(4) socks_post_error [OF res] by (auto simp: recv_reply_header_def ntoh8_def hton8_def Let_def)
  next
    case good
    then have "recv_reply_header s = ((start_receive s 4 (addr_len (b ! 3)))\<lparr>sc_state := STATE_RECEIVED_REPLY_HEADER\<rparr>, None)"
      using assms(4) by (auto simp: recv_reply_header_def ntoh8_def hton8_def addr_len_def Let_def)
    moreover have "4 + addr_len (b ! 3) \<le> 22" "0 < addr_len (b ! 3)"
      by (simp_all add: addr_len_def)
    moreover have "socks_phase auths dest STATE_RECEIVED_REPLY_HEADER (addr_len (b ! 3)) (sc_sent s) (sc_received s) []"
      unfolding socks_phase.simps using assms(2,3,6) good
      by - (rule exI [of _ sent'], rule exI [of _ r], rule exI [of _ "b ! 2"], rule exI [of _ "b ! 3"], simp)
    ultimately show ?thesis
      using assms(1,4,5)
      by (auto simp: socks_post_def socks_inv_def socks_idle_def socks_res_def start_receive_def do_receive_def
          socks_receiving_def is_receiving_def simp del: socks_phase.simps)
  qed
qed

lemma recv_password_reply_post:
  assumes "socks_idle auths dest s" "BAddr_is_ip dest" "socks_chosen auths u p"
    and "sc_sent s = [socks_hello auths, socks_password u p]"
    and "sc_buffer s = Some b" "sc_received s = [5, 2] @ [b ! 0, b ! 1]"
  shows "socks_post auths dest (recv_password_reply alloc s)"
proof (cases "b ! 0 = 1 \<and> b ! 1 = 0")
  case True
  then have "socks_auth_done auths (sc_sent s) (sc_received s)"
    using assms(3,4,6) by (auto simp: socks_auth_done_def)
  then show ?thesis
    using auth_finished_post [OF assms(1,2)] True assms(5) by (simp add: recv_password_reply_def)
next
  case False
  then show ?thesis
    using assms(1,5) socks_post_error by (auto simp: recv_password_reply_def socks_idle_def)
qed

lemma recv_reply_rest_post:
  assumes "socks_idle auths dest s" "sc_buffer s \<noteq> None"
    and "socks_phase auths dest STATE_UP 0 (sc_sent s) (sc_received s) []"
  shows "socks_post auths dest (recv_reply_rest s)"
  using assms
  by (auto simp: recv_reply_rest_def init_up_io_def free_control_io_def socks_post_def socks_inv_def
      socks_idle_def socks_res_def is_receiving_def is_sending_def Let_def)

text \<open>A receive step: the bytes are appended to what has arrived.\<close>

lemma receive_part:
  assumes "socks_receiving s part" "length d \<le> sc_recv_total s - sc_recv_len s"
  shows "\<exists>b. buffer_write (sc_recv_dest s + sc_recv_len s) d s = s\<lparr>sc_buffer := Some b\<rparr> \<and>
    length b = length (the (sc_buffer s)) \<and>
    take (sc_recv_len s + length d) (drop (sc_recv_dest s) b) = part @ d \<and> length part = sc_recv_len s"
proof -
  let ?o = "sc_recv_dest s" and ?l = "sc_recv_len s"
  obtain b where b: "sc_buffer s = Some b" "?o + sc_recv_total s \<le> length b" "part = take ?l (drop ?o b)"
    "?l < sc_recv_total s"
    using assms(1) by (auto simp: socks_receiving_def)
  let ?b' = "take (?o + ?l) b @ d @ drop (?o + ?l + length d) b"
  have len: "?o + ?l + length d \<le> length b"
    using b(2,4) assms(2) by linarith
  have "take (?o + ?l) b = take ?o b @ part"
    using b(3) by (simp add: take_add)
  then have "drop ?o ?b' = part @ d @ drop (?o + ?l + length d) b"
    using len by simp
  moreover have "length part = ?l"
    using b len by simp
  moreover have "buffer_write (?o + ?l) d s = s\<lparr>sc_buffer := Some ?b'\<rparr>"
    using b(1) len by (simp add: buffer_write_def)
  ultimately show ?thesis
    using b(1) len by (intro exI [of _ ?b']) simp
qed

lemma take2_nth: "2 \<le> length b \<Longrightarrow> take 2 b = [b ! 0, b ! 1]"
  by (cases b; cases "tl b") auto

lemma take4_nth: "4 \<le> length b \<Longrightarrow> take 4 b = [b ! 0, b ! 1, b ! 2, b ! 3]"
  by (rule nth_equalityI) (auto simp: nth_Cons' less_Suc_eq numeral_eq_Suc)

lemma socks_phase_receive:
  assumes "is_receiving st" "socks_phase auths dest st n sent recvd part"
  shows "socks_phase auths dest st n sent (recvd @ d) (part @ d)"
  using assms by (cases st) (auto simp: is_receiving_def)

text \<open>The four branches of \<open>recv_handler_done\<close>.\<close>

lemma receive_full_post:
  assumes idle: "socks_idle auths dest s'" and ip: "BAddr_is_ip dest"
    and ph: "socks_phase auths dest (sc_state s) (sc_recv_total s) (sc_sent s) (sc_received s) part"
    and rc: "is_receiving (sc_state s)" "socks_receiving s part"
    and s': "sc_state s' = sc_state s" "sc_buffer s' = Some b" "sc_sent s' = sc_sent s"
      "sc_received s' = sc_received s @ d"
    and full: "take (sc_recv_total s) (drop (sc_recv_dest s) b) = part @ d" "length (part @ d) = sc_recv_total s"
      "sc_recv_dest s + sc_recv_total s \<le> length b" "length b = length (the (sc_buffer s))"
  shows "socks_post auths dest
     (case sc_state s of
        STATE_SENT_HELLO \<Rightarrow> recv_hello alloc s'
      | STATE_SENT_REQUEST \<Rightarrow> recv_reply_header s'
      | STATE_SENT_PASSWORD \<Rightarrow> recv_password_reply alloc s'
      | STATE_RECEIVED_REPLY_HEADER \<Rightarrow> recv_reply_rest s'
      | _ \<Rightarrow> (s'\<lparr>sc_fault := True\<rparr>, None))"
proof (cases "sc_state s")
  case STATE_SENT_HELLO
  then have "part @ d = [b ! 0, b ! 1]"
    using full ph rc(2) take2_nth [of b] by (auto simp: socks_receiving_def)
  then show ?thesis
    using recv_hello_post [OF idle ip _ s'(2)] STATE_SENT_HELLO ph s' by auto
next
  case STATE_SENT_PASSWORD
  then have "part @ d = [b ! 0, b ! 1]"
    using full ph rc(2) take2_nth [of b] by (auto simp: socks_receiving_def)
  then show ?thesis
    using recv_password_reply_post [OF idle ip _ _ s'(2)] STATE_SENT_PASSWORD ph s' by auto
next
  case STATE_SENT_REQUEST
  then have "part @ d = [b ! 0, b ! 1, b ! 2, b ! 3]" "length b = 22"
    using full ph rc(2) take4_nth [of b] by (auto simp: socks_receiving_def)
  then show ?thesis
    using recv_reply_header_post [OF idle _ _ s'(2)] STATE_SENT_REQUEST ph s' by auto
next
  case STATE_RECEIVED_REPLY_HEADER
  then obtain sent' r rsv atyp where "socks_auth_done auths sent' r" "sc_sent s = sent' @ [socks_request dest]"
    "sc_received s = r @ [5, 0, rsv, atyp] @ part" "atyp \<in> {1, 4}" "sc_recv_total s = addr_len atyp"
    using ph by auto
  then have "socks_phase auths dest STATE_UP 0 (sc_sent s') (sc_received s') []"
    unfolding socks_phase.simps using s' full(2)
    by - (rule conjI [OF _ refl], rule exI [of _ sent'], rule exI [of _ r], rule exI [of _ rsv],
        rule exI [of _ atyp], rule exI [of _ "part @ d"], simp)
  then show ?thesis
    using recv_reply_rest_post [OF idle] STATE_RECEIVED_REPLY_HEADER s'(2) by simp
qed (use rc(1) in \<open>auto simp: is_receiving_def\<close>)

lemma receive_post:
  assumes inv: "socks_inv auths dest s" and ip: "BAddr_is_ip dest"
    and st: "socks_step alloc s (Receive d) = Some r"
  shows "socks_post auths dest r"
proof -
  obtain part where ph: "socks_phase auths dest (sc_state s) (sc_recv_total s) (sc_sent s) (sc_received s) part"
    and rc: "is_receiving (sc_state s)" "socks_receiving s part"
    and d: "length d \<le> sc_recv_total s - sc_recv_len s" "d \<noteq> []"
    and r: "r = recv_handler_done alloc (length d) ((buffer_write (sc_recv_dest s + sc_recv_len s) d s)
        \<lparr>sc_recv := None, sc_received := sc_received s @ d\<rparr>)"
    using inv st by (auto simp: socks_inv_def socks_receiving_def split: if_splits option.splits)
  obtain b where b: "buffer_write (sc_recv_dest s + sc_recv_len s) d s = s\<lparr>sc_buffer := Some b\<rparr>"
    "length b = length (the (sc_buffer s))"
    "take (sc_recv_len s + length d) (drop (sc_recv_dest s) b) = part @ d" "length part = sc_recv_len s"
    using receive_part [OF rc(2) d(1)] by blast
  define s' where "s' = s\<lparr>sc_buffer := Some b, sc_recv := None, sc_received := sc_received s @ d,
    sc_recv_len := sc_recv_len s + length d\<rparr>"
  have base: "socks_res s" "sc_auth_info s = auths" "sc_dest_addr s = dest" "sc_sending s = None"
    using inv rc(2) by (auto simp: socks_inv_def socks_receiving_def)
  have r': "r = (if sc_recv_len s + length d < sc_recv_total s then (do_receive s', None)
      else case sc_state s of
             STATE_SENT_HELLO \<Rightarrow> recv_hello alloc s'
           | STATE_SENT_REQUEST \<Rightarrow> recv_reply_header s'
           | STATE_SENT_PASSWORD \<Rightarrow> recv_password_reply alloc s'
           | STATE_RECEIVED_REPLY_HEADER \<Rightarrow> recv_reply_rest s'
           | _ \<Rightarrow> (s'\<lparr>sc_fault := True\<rparr>, None))"
    using r b(1) by (cases "sc_state s") (simp_all add: recv_handler_done_def s'_def Let_def)
  show ?thesis
  proof (cases "sc_recv_len s + length d < sc_recv_total s")
    case True
    then show ?thesis
      using r' b(2,3) rc base socks_phase_receive [OF rc(1) ph, of d]
      by (auto simp: socks_post_def socks_inv_def socks_res_def s'_def do_receive_def socks_receiving_def)
  next
    case False
    then have full: "sc_recv_len s + length d = sc_recv_total s"
      using d(1) rc(2) by (auto simp: socks_receiving_def)
    have "sc_state s' = sc_state s" "sc_buffer s' = Some b" "sc_sent s' = sc_sent s"
      "sc_received s' = sc_received s @ d"
      by (simp_all add: s'_def)
    moreover have "socks_idle auths dest s'"
      using base rc(1) by (auto simp: socks_idle_def socks_res_def s'_def is_receiving_def)
    moreover have "take (sc_recv_total s) (drop (sc_recv_dest s) b) = part @ d" "length (part @ d) = sc_recv_total s"
      using b(3,4) full by simp_all
    moreover have "sc_recv_dest s + sc_recv_total s \<le> length b"
      using rc(2) b(2) by (auto simp: socks_receiving_def)
    ultimately show ?thesis
      using receive_full_post [of auths dest s' s part b d alloc] r' False ph rc ip b(2) by simp
  qed
qed

lemma connector_post:
  assumes inv: "socks_inv auths dest s" and st: "socks_step alloc s (Connector is_error con_ok) = Some r"
  shows "socks_post auths dest r"
proof -
  have s: "sc_state s = STATE_CONNECTING" "socks_res s" "sc_auth_info s = auths" "sc_dest_addr s = dest"
    "sc_sent s = []" "sc_received s = []" and r: "r = connector_handler alloc is_error con_ok s"
    using inv st by (auto simp: socks_inv_def split: if_splits)
  let ?n = "length auths"
  let ?sz = "bsize_add (bsize_fromsize 2) (bsize_mul (bsize_fromsize (of_nat ?n)) (bsize_fromsize 1))"
  define s1 where "s1 = init_control_io (s\<lparr>sc_con := True\<rparr>)"
  have fail1: "socks_post auths dest (report_error (free_con (free_control_io s1)) EVENT_ERROR)"
    using s by (simp add: s1_def init_control_io_def free_control_io_def free_con_def socks_post_def socks_res_def)
  show ?thesis
  proof (cases "is_error \<or> \<not> con_ok")
    case True
    then show ?thesis
      using r s(2) by (auto simp: connector_handler_def socks_post_error)
  next
    case ok: False
    show ?thesis
    proof (cases "?n = 0 \<or> ?n > 255 \<or> reserve_buffer alloc s1 ?sz = None")
      case True
      then show ?thesis
        using ok r s(3) fail1 by (auto simp: connector_handler_def s1_def init_control_io_def Let_def)
    next
      case False
      then obtain s2 where s2: "reserve_buffer alloc s1 ?sz = Some s2"
        by auto
      have sz: "unat (size_value ?sz) = 2 + ?n"
        using False by (intro hello_size) simp
      obtain b where b: "s2 = s1\<lparr>sc_buffer := Some b\<rparr>" "length b = 2 + ?n"
        using reserve_buffer_Some [OF s2] sz by auto
      have w: "buffer_write 2 (map auth_type auths) (buffer_write 0 [5, of_nat ?n] s2) =
          s1\<lparr>sc_buffer := Some (socks_hello auths)\<rparr>"
        using b buffer_write_both(1) [of s2 b 2 "map auth_type auths" "[5, of_nat ?n]"]
        by (simp add: socks_hello_def)
      have "sc_auth_info (buffer_write 0 [5, of_nat ?n] s2) = auths"
        using b s(3) by (simp add: buffer_write_def s1_def init_control_io_def)
      then have "r = ((sender_send (s1\<lparr>sc_buffer := Some (socks_hello auths)\<rparr>) (2 + ?n))\<lparr>sc_state := STATE_SENDING_HELLO\<rparr>, None)"
        using ok r s(3) s2 sz w False
        by (simp add: connector_handler_def s1_def init_control_io_def hton8_def Let_def)
      moreover have "length (socks_hello auths) = 2 + ?n"
        by (simp add: socks_hello_def)
      ultimately show ?thesis
        using s by (auto simp: s1_def init_control_io_def sender_send_def socks_post_def socks_inv_def socks_res_def
            is_receiving_def is_sending_def Let_def)
    qed
  qed
qed

lemma send_done_post:
  assumes inv: "socks_inv auths dest s" and st: "socks_step alloc s SendDone = Some r"
  shows "socks_post auths dest r"
proof -
  let ?s = "s\<lparr>sc_sending := None\<rparr>"
  have send: "sc_sending s \<noteq> None" and r: "r = send_handler_done alloc ?s"
    using st by (auto split: option.splits)
  obtain part where ph: "socks_phase auths dest (sc_state s) (sc_recv_total s) (sc_sent s) (sc_received s) part"
    and c: "if is_receiving (sc_state s) then socks_receiving s part
         else sc_recv s = None \<and>
              (if is_sending (sc_state s) then sc_sending s = Some (last (sc_sent s)) \<and> sc_buffer s \<noteq> None
               else sc_sending s = None)"
    using inv unfolding socks_inv_def by blast
  have sd: "is_sending (sc_state s)" "sc_recv s = None"
    using c send by (auto simp: socks_receiving_def simp del: socks_phase.simps split: if_splits)
  have base: "socks_res s" "sc_auth_info s = auths" "sc_dest_addr s = dest"
    using inv by (auto simp: socks_inv_def)
  have recv: "socks_post auths dest
      (case reserve_buffer alloc ?s sz of
         None \<Rightarrow> report_error ?s EVENT_ERROR
       | Some s \<Rightarrow> ((start_receive s 0 n)\<lparr>sc_state := state\<rparr>, None))"
    if "n \<le> unat (size_value sz)" "0 < n" "is_receiving state" "state = STATE_SENT_REQUEST \<longrightarrow> unat (size_value sz) = 22"
      "socks_phase auths dest state n (sc_sent s) (sc_received s) []" for sz n state
  proof (cases "reserve_buffer alloc ?s sz")
    case None
    then show ?thesis
      using base by (simp add: socks_post_def socks_res_def)
  next
    case (Some s')
    then obtain b where b: "s' = ?s\<lparr>sc_buffer := Some b\<rparr>" "length b = unat (size_value sz)"
      using reserve_buffer_Some by blast
    let ?t = "(start_receive s' 0 n)\<lparr>sc_state := state\<rparr>"
    have "socks_res ?t"
      using base(1) that(3) sd(1)
      by (auto simp: b(1) start_receive_def do_receive_def socks_res_def is_sending_def is_receiving_def)
    moreover have "socks_receiving ?t []"
      using that(1,2,4) b(2) by (simp add: b(1) start_receive_def do_receive_def socks_receiving_def)
    moreover have "sc_auth_info ?t = auths" "sc_dest_addr ?t = dest" "sc_recv_total ?t = n" "sc_state ?t = state"
      "sc_sent ?t = sc_sent s" "sc_received ?t = sc_received s"
      using base by (simp_all add: b(1) start_receive_def do_receive_def)
    ultimately have "socks_inv auths dest ?t"
      using that(3,5) unfolding socks_inv_def by auto
    then show ?thesis
      using Some \<open>socks_res ?t\<close> by (simp add: socks_post_def)
  qed
  show ?thesis
  proof (cases "sc_state s")
    case STATE_SENDING_HELLO
    then show ?thesis
      using r recv [of 2 "bsize_fromsize 2" STATE_SENT_HELLO] ph
      by (simp add: send_handler_done_def is_receiving_def)
  next
    case STATE_SENDING_PASSWORD
    then show ?thesis
      using r recv [of 2 "bsize_fromsize 2" STATE_SENT_PASSWORD] ph
      by (simp add: send_handler_done_def is_receiving_def)
  next
    case STATE_SENDING_REQUEST
    then show ?thesis
      using r recv [of 4 "bsize_fromsize 22" STATE_SENT_REQUEST] ph
      by (auto simp: send_handler_done_def is_receiving_def bsize_sizes)
  qed (use sd in \<open>auto simp: is_sending_def\<close>)
qed

lemma socks_step_post:
  assumes "socks_inv auths dest s" "BAddr_is_ip dest" "socks_step alloc s i = Some r"
  shows "socks_post auths dest r"
proof (cases i)
  case (Connector e c)
  then show ?thesis
    using assms connector_post by blast
next
  case SendDone
  then show ?thesis
    using assms send_done_post by blast
next
  case (Receive d)
  then show ?thesis
    using assms receive_post by blast
next
  case (ConEvent c)
  then show ?thesis
    using assms by (auto simp: connection_handler_def socks_post_def socks_inv_def split: if_splits)
qed

lemma socks_run_post:
  assumes "socks_run alloc auths dest s ev" "BAddr_is_ip dest"
  shows "socks_post auths dest (s, ev)"
  using assms
proof (induction rule: socks_run.induct)
  case (socks_init s)
  then show ?case
    by (auto simp: BSocksClient_Init_def socks_post_def socks_inv_def socks_res_def is_receiving_def is_sending_def)
next
  case (socks_next s ev i s' ev')
  then have "socks_inv auths dest s"
    by (cases ev) (auto simp: socks_post_def intro: socks_event.exhaust)
  then show ?case
    using socks_step_post socks_next.hyps(4) assms(2) by blast
qed

subsection \<open>What the client guarantees\<close>

text \<open>A sequence of events from a state, as a function; \<open>None\<close> if one of them cannot occur.\<close>

fun socks_exec :: "(nat \<Rightarrow> bool) \<Rightarrow> socks_result \<Rightarrow> socks_input list \<Rightarrow> socks_result option" where
  "socks_exec alloc r [] = Some r"
| "socks_exec alloc (s, ev) (i # is) =
     (if ev \<in> {Some EVENT_ERROR, Some EVENT_ERROR_CLOSED} then None
      else case socks_step alloc s i of None \<Rightarrow> None | Some r \<Rightarrow> socks_exec alloc r is)"

lemma socks_exec_run:
  "socks_exec alloc (s, ev) is = Some (s', ev') \<Longrightarrow> socks_run alloc auths dest s ev \<Longrightarrow>
   socks_run alloc auths dest s' ev'"
proof (induction "is" arbitrary: s ev)
  case (Cons i "is")
  then obtain s1 ev1 where "socks_step alloc s i = Some (s1, ev1)" "socks_exec alloc (s1, ev1) is = Some (s', ev')"
    "ev \<noteq> Some EVENT_ERROR" "ev \<noteq> Some EVENT_ERROR_CLOSED"
    by (auto split: if_splits option.splits)
  then show ?case
    using Cons socks_run.socks_next by blast
qed simp

text \<open>
  \<^bold>\<open>C6\<close>. The client reports UP only after a complete and successful SOCKS5 dialogue: it has
  sent the greeting with the offered methods, the server has chosen one of them and has
  accepted the username and password if it asked for them, the client has then sent the
  CONNECT request for the destination address, and the server has answered with success
  and a full bound address.
\<close>

theorem socks_up_after_dialogue:
  assumes "socks_run alloc auths dest s (Some EVENT_UP)" "BAddr_is_ip dest"
  shows "\<exists>sent r rsv atyp addr. socks_auth_done auths sent r \<and> sc_sent s = sent @ [socks_request dest] \<and>
     sc_received s = r @ [5, 0, rsv, atyp] @ addr \<and> atyp \<in> {1, 4} \<and> length addr = addr_len atyp"
  using socks_run_post [OF assms] by (auto simp: socks_post_def socks_inv_def)

theorem socks_up_after_dialogue_witness:
  "\<exists>s0 s. BSocksClient_Init True [Auth_None, Auth_Password [1] [2]] (BAddr_IPv4 7 8) = Some s0 \<and>
     socks_exec (\<lambda>_. True) (s0, None) [Connector False True, SendDone, Receive [5], Receive [2], SendDone,
       Receive [1, 0], SendDone, Receive [5, 0, 0, 1], Receive [1, 2, 3, 4, 5, 6]] = Some (s, Some EVENT_UP) \<and>
     (\<exists>sent r. socks_auth_done [Auth_None, Auth_Password [1] [2]] sent r \<and>
        sc_sent s = sent @ [socks_request (BAddr_IPv4 7 8)])"
proof -
  let ?auths = "[Auth_None, Auth_Password [1] [2]]" and ?dest = "BAddr_IPv4 7 8"
  let ?is = "[Connector False True, SendDone, Receive [5], Receive [2], SendDone,
       Receive [1, 0], SendDone, Receive [5, 0, 0, 1], Receive [1, 2, 3, 4, 5, 6]]"
  obtain s0 where s0: "BSocksClient_Init True ?auths ?dest = Some s0"
    by (simp add: BSocksClient_Init_def)
  have "map_option snd (socks_exec (\<lambda>_. True) (the (BSocksClient_Init True ?auths ?dest), None) ?is) = Some (Some EVENT_UP)"
    by code_simp
  then obtain s where s: "socks_exec (\<lambda>_. True) (s0, None) ?is = Some (s, Some EVENT_UP)"
    using s0 by auto
  then have "socks_run (\<lambda>_. True) ?auths ?dest s (Some EVENT_UP)"
    using socks_exec_run socks_init [OF s0] by blast
  then show ?thesis
    using socks_up_after_dialogue [of "\<lambda>_. True" ?auths ?dest s] s0 s by auto
qed

text \<open>
  \<^bold>\<open>C32\<close>. The client never waits for nothing and never leaves its buffer: as long as no error
  was reported, it is connecting, up, sending a message, or waiting for at least one byte
  that will be stored inside its buffer; and it never sends and receives at the same time.
\<close>

theorem socks_progress:
  assumes "socks_run alloc auths dest s ev" "BAddr_is_ip dest"
    and "ev \<noteq> Some EVENT_ERROR" "ev \<noteq> Some EVENT_ERROR_CLOSED"
  shows "sc_state s \<in> {STATE_CONNECTING, STATE_UP} \<or>
    (sc_sending s \<noteq> None \<and> sc_recv s = None) \<or>
    (\<exists>a n b. sc_recv s = Some (a, n) \<and> 0 < n \<and> sc_buffer s = Some b \<and> a + n \<le> length b \<and> sc_sending s = None)"
proof -
  have "socks_inv auths dest s"
    using socks_run_post [OF assms(1,2)] assms(3,4) by (cases ev) (auto simp: socks_post_def intro: socks_event.exhaust)
  then obtain part where c: "if is_receiving (sc_state s) then socks_receiving s part
         else sc_recv s = None \<and>
              (if is_sending (sc_state s) then sc_sending s = Some (last (sc_sent s)) \<and> sc_buffer s \<noteq> None
               else sc_sending s = None)"
    unfolding socks_inv_def by blast
  show ?thesis
  proof (cases "is_receiving (sc_state s)")
    case True
    then show ?thesis
      using c by (auto simp: socks_receiving_def)
  next
    case False
    then show ?thesis
      using c by (cases "sc_state s") (auto simp: is_receiving_def is_sending_def)
  qed
qed

theorem socks_progress_witness:
  "\<exists>s0 s a n b. BSocksClient_Init True [Auth_None] (BAddr_IPv4 7 8) = Some s0 \<and>
     socks_exec (\<lambda>_. True) (s0, None) [Connector False True, SendDone] = Some (s, None) \<and>
     sc_recv s = Some (a, n) \<and> 0 < n \<and> sc_buffer s = Some b \<and> a + n \<le> length b"
proof -
  let ?is = "[Connector False True, SendDone]"
  obtain s0 where s0: "BSocksClient_Init True [Auth_None] (BAddr_IPv4 7 8) = Some s0"
    by (simp add: BSocksClient_Init_def)
  have "map_option (\<lambda>(s, ev). (ev, sc_state s, sc_sending s))
      (socks_exec (\<lambda>_. True) (the (BSocksClient_Init True [Auth_None] (BAddr_IPv4 7 8)), None) ?is) =
      Some (None, STATE_SENT_HELLO, None)"
    by code_simp
  then obtain s where s: "socks_exec (\<lambda>_. True) (s0, None) ?is = Some (s, None)"
    "sc_state s = STATE_SENT_HELLO" "sc_sending s = None"
    using s0 by auto
  then have "socks_run (\<lambda>_. True) [Auth_None] (BAddr_IPv4 7 8) s None"
    using socks_exec_run socks_init [OF s0] by blast
  then show ?thesis
    using socks_progress [of "\<lambda>_. True" "[Auth_None]" "BAddr_IPv4 7 8" s None] s0 s by auto
qed

text \<open>
  \<^bold>\<open>C33\<close>. Resources are managed correctly on every path, errors included: no handler has used,
  freed or initialized twice a resource out of turn, and \<open>BSocksClient_Free\<close> in any reachable
  state releases everything that is held, exactly once.
\<close>

theorem socks_free_safe:
  assumes "socks_run alloc auths dest s ev" "BAddr_is_ip dest"
  shows "\<not> sc_fault (BSocksClient_Free s) \<and> \<not> sc_connector (BSocksClient_Free s) \<and>
    \<not> sc_con (BSocksClient_Free s) \<and> \<not> sc_control_io (BSocksClient_Free s) \<and>
    \<not> sc_up_io (BSocksClient_Free s) \<and> sc_buffer (BSocksClient_Free s) = None"
  using socks_run_post [OF assms]
  by (auto simp: socks_post_def socks_res_def BSocksClient_Free_def free_con_def free_up_io_def
      free_control_io_def Let_def)

theorem socks_free_safe_witness:
  "\<exists>s. BSocksClient_Init True [Auth_None] (BAddr_IPv4 7 8) = Some s \<and> \<not> sc_fault (BSocksClient_Free s)"
proof -
  obtain s where s: "BSocksClient_Init True [Auth_None] (BAddr_IPv4 7 8) = Some s"
    by (simp add: BSocksClient_Init_def)
  then show ?thesis
    using socks_free_safe [OF socks_init [OF s, of "\<lambda>_. True"]] by auto
qed
end
