(* ===== verification/TcpRelay.thy ===== *)
theory TcpRelay
  imports SocksClient
begin

text \<open>
  The relay between a TCP connection of the virtual network (lwIP) and its SOCKS
  connection: the functions \<open>client_*\<close> and \<open>listener_accept_func\<close> of
  \<^verbatim>\<open>tun2socks/tun2socks.c\<close>. The state is that of one \<^verbatim>\<open>struct tcp_client\<close>, together with what
  lwIP and the SOCKS client know about it: the callbacks that are registered, the pcb, the
  outstanding send and receive. What lwIP answers to \<open>tcp_close\<close>, \<open>tcp_sndbuf\<close>, \<open>tcp_write\<close>
  and \<open>tcp_output\<close> is a parameter, any answer is allowed.

  An assertion of the source that does not hold, the use of a pcb or of a SOCKS client that
  is gone, and a write through a dangling \<open>dead_aborted\<close> set the flag \<open>tc_fault\<close>. The ghost
  fields record the bytes that went through. The lemmas show that no fault ever happens,
  that both byte streams are kept in order without loss, that lwIP is told of an abort
  exactly when there was one, and that the client is never left waiting for nothing.
\<close>

subsection \<open>State\<close>

datatype err_t = ERR_OK | ERR_MEM | ERR_BUF | ERR_TIMEOUT | ERR_RTE | ERR_INPROGRESS | ERR_VAL | ERR_WOULDBLOCK
  | ERR_USE | ERR_ALREADY | ERR_ISCONN | ERR_CONN | ERR_IF | ERR_ABRT | ERR_RST | ERR_CLSD | ERR_ARG

text \<open>
  \<open>dead_aborted\<close> is \<open>NULL\<close>, the address of \<^verbatim>\<open>badvpn__dead\<close> in the running callback, or the
  address of that variable of a callback that has returned.
\<close>

datatype dead_t = DeadNull | DeadFrame | DeadDangling

datatype pcb_state = PcbLive | PcbClosed | PcbAborted | PcbFreed

abbreviation (input) "TCP_WND \<equiv> (5840::nat)"
abbreviation (input) "CLIENT_SOCKS_RECV_BUF_SIZE \<equiv> (8192::nat)"

text \<open>\<open>tc_buf\<close> is the used part of \<^verbatim>\<open>buf\<close>, so \<^verbatim>\<open>buf_used\<close> is its length.\<close>

record tcp_client =
  tc_aborted :: bool
  tc_dead :: dead_t
  tc_killed :: int
  tc_listed :: bool
  tc_local_addr :: BAddr
  tc_remote_addr :: BAddr
  tc_pcb :: pcb_state
  tc_err_cb :: bool
  tc_recv_cb :: bool
  tc_sent_cb :: bool
  tc_client_closed :: bool
  tc_buf :: "byte list"
  tc_socks_username :: "string option"
  tc_socks_client :: bool
  tc_socks_up :: bool
  tc_socks_closed :: bool
  tc_sending :: "nat option"
  tc_receiving :: bool
  tc_recv_buf :: "byte list"
  tc_recv_buf_used :: int
  tc_recv_buf_sent :: int
  tc_recv_waiting :: bool
  tc_recv_tcp_pending :: int
  tc_freed :: bool
  tc_fault :: bool
  tc_window :: int
  tc_unacked :: int
  tc_from_client :: "byte list"
  tc_to_socks :: "byte list"
  tc_from_socks :: "byte list"
  tc_to_client :: "byte list"

text \<open>The answers of lwIP; \<open>tcp_sndbuf\<close> and \<open>tcp_write\<close> may answer differently in each iteration.\<close>

record lwip =
  lw_close :: err_t
  lw_sndbuf :: "nat \<Rightarrow> nat"
  lw_write :: "nat \<Rightarrow> err_t"
  lw_output :: err_t

definition ensure :: "bool \<Rightarrow> tcp_client \<Rightarrow> tcp_client" where
  "ensure c s = s\<lparr>tc_fault := tc_fault s \<or> \<not> c\<rparr>"

subsection \<open>Calls of lwIP and of the SOCKS client\<close>

definition remove_callbacks :: "tcp_client \<Rightarrow> tcp_client" where
  "remove_callbacks s =
     (ensure (tc_pcb s = PcbLive) s)\<lparr>tc_err_cb := False, tc_recv_cb := False, tc_sent_cb := False\<rparr>"

definition dead_kill_with :: "int \<Rightarrow> tcp_client \<Rightarrow> tcp_client" where
  "dead_kill_with v s =
     (case tc_dead s of
        DeadNull \<Rightarrow> s
      | DeadFrame \<Rightarrow> s\<lparr>tc_killed := v\<rparr>
      | DeadDangling \<Rightarrow> ensure False s)"

text \<open>
  \<^verbatim>\<open>DEAD_ENTER\<close> also keeps the previous pointer. The callbacks do not nest, so that is \<open>NULL\<close> and
  leaving has nothing to pass on; this is checked like an assertion.
\<close>

definition dead_enter :: "tcp_client \<Rightarrow> tcp_client" where
  "dead_enter s = (ensure (tc_dead s = DeadNull) s)\<lparr>tc_killed := 0, tc_dead := DeadFrame\<rparr>"

text \<open>The variable of the callback goes out of scope; \<^verbatim>\<open>dead_aborted\<close> is reset only if it was not killed.\<close>

definition dead_leave :: "tcp_client \<Rightarrow> tcp_client" where
  "dead_leave s = (if tc_killed s = 0 then s\<lparr>tc_dead := DeadNull\<rparr> else s\<lparr>tc_dead := DeadDangling\<rparr>)"

definition socks_free :: "tcp_client \<Rightarrow> tcp_client" where
  "socks_free s = (ensure (tc_socks_client s) s)\<lparr>tc_socks_client := False, tc_sending := None, tc_receiving := False\<rparr>"

subsection \<open>Closing the two halves\<close>

definition client_abort_pcb :: "tcp_client \<Rightarrow> tcp_client" where
  "client_abort_pcb s =
     (let s = ensure (\<not> tc_aborted s) s;
          s = (ensure (tc_pcb s = PcbLive) s)\<lparr>tc_pcb := PcbAborted\<rparr>;
          s = s\<lparr>tc_aborted := True\<rparr>
      in dead_kill_with 1 s)"

definition client_dealloc :: "tcp_client \<Rightarrow> tcp_client" where
  "client_dealloc s =
     (let s = ensure (tc_client_closed s) s;
          s = ensure (tc_socks_closed s) s;
          s = (ensure (tc_listed s \<and> \<not> tc_freed s) s)\<lparr>tc_listed := False\<rparr>;
          s = (if \<not> tc_aborted s then dead_kill_with (-1) s else s)
      in s\<lparr>tc_freed := True\<rparr>)"

text \<open>\<open>tcp_close\<close> either takes the pcb or fails and leaves it.\<close>

definition close_pcb :: "lwip \<Rightarrow> tcp_client \<Rightarrow> tcp_client" where
  "close_pcb lw s =
     (let s = remove_callbacks (ensure (\<not> tc_client_closed s) s) in
      if lw_close lw = ERR_OK then (ensure (tc_pcb s = PcbLive) s)\<lparr>tc_pcb := PcbClosed\<rparr>
      else client_abort_pcb s)"

lemma ensure_simps [simp]:
  "tc_aborted (ensure c s) = tc_aborted s" "tc_dead (ensure c s) = tc_dead s" "tc_killed (ensure c s) = tc_killed s"
  "tc_listed (ensure c s) = tc_listed s" "tc_pcb (ensure c s) = tc_pcb s" "tc_err_cb (ensure c s) = tc_err_cb s"
  "tc_recv_cb (ensure c s) = tc_recv_cb s" "tc_sent_cb (ensure c s) = tc_sent_cb s"
  "tc_client_closed (ensure c s) = tc_client_closed s" "tc_buf (ensure c s) = tc_buf s"
  "tc_socks_client (ensure c s) = tc_socks_client s" "tc_socks_up (ensure c s) = tc_socks_up s"
  "tc_socks_closed (ensure c s) = tc_socks_closed s" "tc_sending (ensure c s) = tc_sending s"
  "tc_receiving (ensure c s) = tc_receiving s" "tc_recv_buf (ensure c s) = tc_recv_buf s"
  "tc_recv_buf_used (ensure c s) = tc_recv_buf_used s" "tc_recv_buf_sent (ensure c s) = tc_recv_buf_sent s"
  "tc_recv_waiting (ensure c s) = tc_recv_waiting s" "tc_recv_tcp_pending (ensure c s) = tc_recv_tcp_pending s"
  "tc_freed (ensure c s) = tc_freed s" "tc_window (ensure c s) = tc_window s" "tc_unacked (ensure c s) = tc_unacked s"
  "tc_from_client (ensure c s) = tc_from_client s" "tc_to_socks (ensure c s) = tc_to_socks s"
  "tc_from_socks (ensure c s) = tc_from_socks s" "tc_to_client (ensure c s) = tc_to_client s"
  "tc_fault (ensure c s) \<longleftrightarrow> tc_fault s \<or> \<not> c"
  by (simp_all add: ensure_def)

lemma close_pcb_flags [simp]:
  "tc_client_closed (close_pcb lw s) = tc_client_closed s" "tc_socks_closed (close_pcb lw s) = tc_socks_closed s"
  by (auto simp: close_pcb_def remove_callbacks_def client_abort_pcb_def dead_kill_with_def Let_def split: dead_t.split)

text \<open>Each half is closed at most once, so the mutual calls end.\<close>

function client_handle_freed_client :: "lwip \<Rightarrow> tcp_client \<Rightarrow> tcp_client"
  and client_free_client :: "lwip \<Rightarrow> tcp_client \<Rightarrow> tcp_client"
  and client_free_socks :: "lwip \<Rightarrow> tcp_client \<Rightarrow> tcp_client" where
  "client_handle_freed_client lw s =
     (let s = (ensure (\<not> tc_client_closed s) s)\<lparr>tc_client_closed := True\<rparr> in
      if length (tc_buf s) > 0 \<and> \<not> tc_socks_closed s then s
      else if \<not> tc_socks_closed s then client_free_socks lw s
      else client_dealloc s)"
| "client_free_client lw s = client_handle_freed_client lw (close_pcb lw s)"
| "client_free_socks lw s =
     (let s = ensure (\<not> tc_socks_closed s) s;
          s = (if tc_socks_up s \<and> \<not> tc_client_closed s
               then (ensure (tc_pcb s = PcbLive) s)\<lparr>tc_recv_cb := False\<rparr> else s);
          s = (socks_free s)\<lparr>tc_socks_closed := True\<rparr>
      in if tc_socks_up s \<and> (tc_recv_buf_used s \<ge> 0 \<or> tc_recv_tcp_pending s > 0) \<and> \<not> tc_client_closed s then s
         else if \<not> tc_client_closed s then client_free_client lw s
         else client_dealloc s)"
  by pat_completeness auto
termination
  by (relation "measure (\<lambda>x. case x of
        Inl (lw, s) \<Rightarrow> if tc_socks_closed s then 0 else 2
      | Inr (Inl (lw, s)) \<Rightarrow> if tc_socks_closed s then 1 else 3
      | Inr (Inr (lw, s)) \<Rightarrow> if tc_client_closed s then 1 else 2)")
    (auto simp: socks_free_def)

definition client_abort_client :: "lwip \<Rightarrow> tcp_client \<Rightarrow> tcp_client" where
  "client_abort_client lw s =
     (let s = remove_callbacks (ensure (\<not> tc_client_closed s) s)
      in client_handle_freed_client lw (client_abort_pcb s))"

definition client_murder :: "tcp_client \<Rightarrow> tcp_client" where
  "client_murder s =
     (let s = (if \<not> tc_client_closed s then (client_abort_pcb (remove_callbacks s))\<lparr>tc_client_closed := True\<rparr> else s);
          s = (if \<not> tc_socks_closed s then (socks_free s)\<lparr>tc_socks_closed := True\<rparr> else s)
      in client_dealloc s)"

subsection \<open>From the client to SOCKS\<close>

text \<open>\<open>StreamPassInterface_Sender_Send\<close> on the first \<open>n\<close> bytes of the buffer.\<close>

definition sender_start :: "tcp_client \<Rightarrow> tcp_client" where
  "sender_start s =
     (ensure (tc_socks_client s \<and> tc_sending s = None \<and> tc_buf s \<noteq> []) s)\<lparr>tc_sending := Some (length (tc_buf s))\<rparr>"

definition client_send_to_socks :: "tcp_client \<Rightarrow> tcp_client" where
  "client_send_to_socks s =
     sender_start (ensure (\<not> tc_socks_closed s \<and> tc_socks_up s \<and> length (tc_buf s) > 0) s)"

definition client_socks_send_handler_done :: "lwip \<Rightarrow> nat \<Rightarrow> tcp_client \<Rightarrow> tcp_client" where
  "client_socks_send_handler_done lw data_len s =
     (let s = ensure (\<not> tc_socks_closed s \<and> tc_socks_up s \<and> length (tc_buf s) > 0 \<and>
                      data_len > 0 \<and> data_len \<le> length (tc_buf s)) s;
          s = s\<lparr>tc_buf := drop data_len (tc_buf s)\<rparr>;
          s = (if \<not> tc_client_closed s
               then (ensure (tc_pcb s = PcbLive) s)\<lparr>tc_window := tc_window s + int data_len\<rparr> else s)
      in if length (tc_buf s) > 0 then sender_start s
         else if tc_client_closed s then client_free_socks lw s
         else s)"

subsection \<open>From SOCKS to the client\<close>

definition client_socks_recv_initiate :: "tcp_client \<Rightarrow> tcp_client" where
  "client_socks_recv_initiate s =
     (ensure (\<not> tc_client_closed s \<and> \<not> tc_socks_closed s \<and> tc_socks_up s \<and> tc_recv_buf_used s = -1 \<and>
              tc_socks_client s \<and> \<not> tc_receiving s) s)\<lparr>tc_receiving := True\<rparr>"

text \<open>The loop of \<open>client_socks_recv_send_out\<close>; the second component tells that \<open>tcp_write\<close> failed.\<close>

function send_loop :: "lwip \<Rightarrow> nat \<Rightarrow> tcp_client \<Rightarrow> tcp_client \<times> bool" where
  "send_loop lw i s =
     (let to_write = min (tc_recv_buf_used s - tc_recv_buf_sent s) (int (lw_sndbuf lw i)) in
      if to_write = 0 then (s, False)
      else let s = ensure (tc_pcb s = PcbLive) s in
      if lw_write lw i \<noteq> ERR_OK then (if lw_write lw i = ERR_MEM then (s, False) else (s, True))
      else
        let s = s\<lparr>tc_to_client := tc_to_client s @ take (nat to_write) (drop (nat (tc_recv_buf_sent s)) (tc_recv_buf s)),
                  tc_unacked := tc_unacked s + to_write,
                  tc_recv_buf_sent := tc_recv_buf_sent s + to_write,
                  tc_recv_tcp_pending := tc_recv_tcp_pending s + to_write\<rparr>
        in if tc_recv_buf_sent s < tc_recv_buf_used s then send_loop lw (i + 1) s else (s, False))"
  by pat_completeness auto
termination
  by (relation "measure (\<lambda>(lw, i, s). nat (tc_recv_buf_used s - tc_recv_buf_sent s))") (auto simp: min_def split: if_splits)

text \<open>The result \<open>True\<close> is the return value -1.\<close>

definition client_socks_recv_send_out :: "lwip \<Rightarrow> tcp_client \<Rightarrow> tcp_client \<times> bool" where
  "client_socks_recv_send_out lw s =
     (let s = ensure (\<not> tc_client_closed s \<and> tc_socks_up s \<and> tc_recv_buf_used s > 0 \<and>
                      tc_recv_buf_sent s < tc_recv_buf_used s \<and> \<not> tc_recv_waiting s) s;
          (s, failed) = send_loop lw 0 s
      in if failed then (client_abort_client lw s, True)
         else if lw_output lw \<noteq> ERR_OK then (client_abort_client lw (ensure (tc_pcb s = PcbLive) s), True)
         else let s = ensure (tc_pcb s = PcbLive) s in
         if tc_recv_buf_sent s < tc_recv_buf_used s then
           if tc_recv_tcp_pending s = 0 then (client_abort_client lw s, True)
           else (s\<lparr>tc_recv_waiting := True\<rparr>, False)
         else (s\<lparr>tc_recv_buf_used := -1\<rparr>, False))"

definition client_socks_recv_handler_done :: "lwip \<Rightarrow> nat \<Rightarrow> tcp_client \<Rightarrow> tcp_client" where
  "client_socks_recv_handler_done lw data_len s =
     (let s = ensure (data_len > 0 \<and> data_len \<le> CLIENT_SOCKS_RECV_BUF_SIZE \<and> \<not> tc_socks_closed s \<and> tc_socks_up s \<and>
                      tc_recv_buf_used s = -1) s
      in if tc_client_closed s then s
         else let s = s\<lparr>tc_recv_buf_used := int data_len, tc_recv_buf_sent := 0, tc_recv_waiting := False\<rparr>;
                  (s, failed) = client_socks_recv_send_out lw s
              in if failed then s
                 else if tc_recv_buf_used s = -1 then client_socks_recv_initiate s
                 else s)"

subsection \<open>Events of the SOCKS client\<close>

definition client_socks_handler :: "lwip \<Rightarrow> socks_event \<Rightarrow> tcp_client \<Rightarrow> tcp_client" where
  "client_socks_handler lw event s =
     (let s = ensure (\<not> tc_socks_closed s) s in
      case event of
        EVENT_ERROR \<Rightarrow> client_free_socks lw s
      | EVENT_UP \<Rightarrow>
          let s = ensure (\<not> tc_socks_up s) s;
              s = s\<lparr>tc_sending := None, tc_receiving := False, tc_recv_buf_used := -1, tc_recv_tcp_pending := 0\<rparr>;
              s = (if \<not> tc_client_closed s then (ensure (tc_pcb s = PcbLive) s)\<lparr>tc_sent_cb := True\<rparr> else s);
              s = s\<lparr>tc_socks_up := True\<rparr>;
              s = (if length (tc_buf s) > 0 then client_send_to_socks s else s)
          in if \<not> tc_client_closed s then client_socks_recv_initiate s else s
      | EVENT_ERROR_CLOSED \<Rightarrow> client_free_socks lw (ensure (tc_socks_up s) s))"

text \<open>
  What the SOCKS connection can do to the client: report an event, complete part of an
  outstanding send, or complete an outstanding receive. \<open>None\<close> when it cannot happen:
  \<open>EVENT_UP\<close> comes once, before any transfer, and \<open>EVENT_ERROR_CLOSED\<close> only after it.
\<close>

datatype relay_input = Event socks_event | Sent nat | Received "byte list"

fun socks_input_handler :: "lwip \<Rightarrow> relay_input \<Rightarrow> tcp_client \<Rightarrow> tcp_client option" where
  "socks_input_handler lw (Event ev) s =
     (if \<not> tc_socks_client s \<or> tc_freed s \<or> (ev = EVENT_UP \<longleftrightarrow> tc_socks_up s) \<and> ev \<noteq> EVENT_ERROR then None
      else Some (client_socks_handler lw ev s))"
| "socks_input_handler lw (Sent n) s =
     (case tc_sending s of
        None \<Rightarrow> None
      | Some len \<Rightarrow>
          if n = 0 \<or> n > len \<or> tc_freed s then None
          else Some (client_socks_send_handler_done lw n
                      (s\<lparr>tc_sending := None, tc_to_socks := tc_to_socks s @ take n (tc_buf s)\<rparr>)))"
| "socks_input_handler lw (Received d) s =
     (if \<not> tc_receiving s \<or> d = [] \<or> length d > CLIENT_SOCKS_RECV_BUF_SIZE \<or> tc_freed s then None
      else Some (client_socks_recv_handler_done lw (length d)
                  (s\<lparr>tc_receiving := False, tc_recv_buf := d,
                     tc_from_socks := tc_from_socks s @ (if tc_client_closed s then [] else d)\<rparr>)))"

text \<open>
  \<open>SYNC_COMMIT\<close> runs the jobs that were scheduled since \<open>SYNC_FROMHERE\<close>: inside a callback of
  lwIP any number of SOCKS events can take place.
\<close>

fun sync_commit :: "(lwip \<times> relay_input) list \<Rightarrow> tcp_client \<Rightarrow> tcp_client" where
  "sync_commit [] s = s"
| "sync_commit ((lw, i) # is) s =
     sync_commit is (case socks_input_handler lw i s of None \<Rightarrow> s | Some s' \<Rightarrow> s')"

subsection \<open>Callbacks of lwIP\<close>

definition client_err_func :: "lwip \<Rightarrow> tcp_client \<Rightarrow> tcp_client" where
  "client_err_func lw s = client_handle_freed_client lw (ensure (\<not> tc_client_closed s) s)"

text \<open>\<open>ERR_ABRT\<close> is returned if \<^verbatim>\<open>DEAD_KILLED > 0\<close>.\<close>

definition dead_result :: "tcp_client \<Rightarrow> tcp_client \<times> err_t" where
  "dead_result s = (dead_leave s, if tc_killed s > 0 then ERR_ABRT else ERR_OK)"

definition client_recv_func ::
  "lwip \<Rightarrow> (lwip \<times> relay_input) list \<Rightarrow> byte list option \<Rightarrow> tcp_client \<Rightarrow> tcp_client \<times> err_t" where
  "client_recv_func lw jobs p s =
     (let s = dead_enter (ensure (\<not> tc_client_closed s) s) in
      case p of
        None \<Rightarrow> dead_result (client_free_client lw s)
      | Some d \<Rightarrow>
          if length d > TCP_WND - length (tc_buf s) then (dead_leave s, ERR_MEM)
          else
            let s = s\<lparr>tc_buf := tc_buf s @ d\<rparr> in
            dead_result
              (if length (tc_buf s) = length d \<and> tc_socks_up s
               then sync_commit jobs (client_send_to_socks (ensure (\<not> tc_socks_closed s) s))
               else s))"

definition client_sent_func ::
  "lwip \<Rightarrow> (lwip \<times> relay_input) list \<Rightarrow> nat \<Rightarrow> tcp_client \<Rightarrow> tcp_client \<times> err_t" where
  "client_sent_func lw jobs len s =
     (let s = ensure (\<not> tc_client_closed s \<and> tc_socks_up s \<and> len > 0 \<and> int len \<le> tc_recv_tcp_pending s) s;
          s = dead_enter s;
          s = s\<lparr>tc_recv_tcp_pending := tc_recv_tcp_pending s - int len\<rparr>
      in dead_result
           (if tc_recv_buf_used s > 0 then
              let s = (ensure (tc_recv_waiting s \<and> tc_recv_buf_sent s < tc_recv_buf_used s) s)\<lparr>tc_recv_waiting := False\<rparr>;
                  (s, failed) = client_socks_recv_send_out lw s
              in if failed then s
                 else let s = ensure (tc_recv_tcp_pending s > 0) s in
                 if tc_recv_buf_used s = -1 \<and> \<not> tc_socks_closed s
                 then sync_commit jobs (client_socks_recv_initiate s)
                 else s
            else if tc_socks_closed s \<and> tc_recv_tcp_pending s = 0 then client_free_client lw s
            else s))"

subsection \<open>Accepting a connection\<close>

datatype ip_addr_t = Ip4 u32 | Ip6 "byte list"

record tcp_pcb =
  local_ip :: ip_addr_t
  local_port :: u16
  remote_ip :: ip_addr_t
  remote_port :: u16

fun baddr_from_lwip :: "ip_addr_t \<Rightarrow> u16 \<Rightarrow> BAddr" where
  "baddr_from_lwip (Ip6 ip) port_hostorder = BAddr_MakeIPv6 ip (hton16 port_hostorder)"
| "baddr_from_lwip (Ip4 ip) port_hostorder = BAddr_MakeIPv4 ip (hton16 port_hostorder)"

text \<open>The first loop of \<open>concat_strings\<close> adds the lengths and stops if the sum would overflow.\<close>

fun concat_sum :: "size_t \<Rightarrow> string list \<Rightarrow> size_t option" where
  "concat_sum acc [] = Some acc"
| "concat_sum acc (str # strs) =
     (if of_nat (length str) > SIZE_MAX - 1 - acc then None else concat_sum (acc + of_nat (length str)) strs)"

definition concat_strings :: "bool \<Rightarrow> string list \<Rightarrow> string option" where
  "concat_strings malloc_ok strs =
     (case concat_sum 0 strs of
        None \<Rightarrow> None
      | Some acc \<Rightarrow> if malloc_ok then Some (concat strs) else None)"

text \<open>
  The username for the SOCKS server; with \<^verbatim>\<open>append_source_to_username\<close> the entry of the shared
  array \<^verbatim>\<open>socks_auth_info\<close> is overwritten.
\<close>

record accept_options =
  opt_username :: "string option"
  append_source_to_username :: bool

fun set_auth_username :: "string \<Rightarrow> auth_info list \<Rightarrow> auth_info list" where
  "set_auth_username name [a, Auth_Password _ p] = [a, Auth_Password (map of_char name) p]"
| "set_auth_username name auths = auths"

definition accept_username ::
  "accept_options \<Rightarrow> bool \<Rightarrow> auth_info list \<Rightarrow> BAddr \<Rightarrow> (string option \<times> auth_info list) option" where
  "accept_username opts malloc_ok auths remote =
     (case opt_username opts of
        Some name \<Rightarrow>
          if append_source_to_username opts then
            (case concat_strings malloc_ok [name, ''@'', BAddr_Print remote] of
               None \<Rightarrow> None
             | Some full \<Rightarrow> Some (Some full, set_auth_username full auths))
          else Some (None, auths)
      | None \<Rightarrow> Some (None, auths))"

text \<open>
  The four fields of the receive buffer are not initialized before the SOCKS connection is
  up: their values \<open>u\<close> are arbitrary.
\<close>

definition new_client :: "BAddr \<Rightarrow> BAddr \<Rightarrow> string option \<Rightarrow> int \<times> int \<times> bool \<times> int \<Rightarrow> tcp_client" where
  "new_client local remote username u = \<lparr>tc_aborted = False, tc_dead = DeadNull, tc_killed = 0, tc_listed = True,
     tc_local_addr = local, tc_remote_addr = remote, tc_pcb = PcbLive,
     tc_err_cb = True, tc_recv_cb = True, tc_sent_cb = False, tc_client_closed = False, tc_buf = [],
     tc_socks_username = username,
     tc_socks_client = True, tc_socks_up = False, tc_socks_closed = False, tc_sending = None, tc_receiving = False,
     tc_recv_buf = [], tc_recv_buf_used = fst u, tc_recv_buf_sent = fst (snd u),
     tc_recv_waiting = fst (snd (snd u)), tc_recv_tcp_pending = snd (snd (snd u)),
     tc_freed = False, tc_fault = False, tc_window = int TCP_WND, tc_unacked = 0,
     tc_from_client = [], tc_to_socks = [], tc_from_socks = [], tc_to_client = []\<rparr>"

text \<open>
  Accepting fails when there is no memory for the client or for its username, or when the
  SOCKS client cannot be initialized; then nothing is left behind. The booleans are the
  successes of \<open>malloc\<close> for the two and of the connector. The result has the client, its
  SOCKS client and the array \<^verbatim>\<open>socks_auth_info\<close>; the counter \<^verbatim>\<open>num_clients\<close>, which is only
  logged, is left out.
\<close>

definition listener_accept_func ::
  "accept_options \<Rightarrow> auth_info list \<Rightarrow> tcp_pcb \<Rightarrow> bool \<Rightarrow> bool \<Rightarrow> bool \<Rightarrow> int \<times> int \<times> bool \<times> int \<Rightarrow>
   (lwip \<times> relay_input) list \<Rightarrow> (tcp_client \<times> BSocksClient) option \<times> auth_info list \<times> err_t" where
  "listener_accept_func opts auths newpcb client_ok username_ok connector_ok u jobs =
     (if \<not> client_ok then (None, auths, ERR_MEM)
      else
        let local = baddr_from_lwip (local_ip newpcb) (local_port newpcb);
            remote = baddr_from_lwip (remote_ip newpcb) (remote_port newpcb)
        in case accept_username opts username_ok auths remote of
             None \<Rightarrow> (None, auths, ERR_MEM)
           | Some (username, auths) \<Rightarrow>
               (case BSocksClient_Init connector_ok auths local of
                  None \<Rightarrow> (None, auths, ERR_MEM)
                | Some sc \<Rightarrow>
                    let (s, err) = dead_result (sync_commit jobs (dead_enter (new_client local remote username u)))
                    in (Some (s, sc), auths, err)))"


subsection \<open>Invariant\<close>

text \<open>The bytes from SOCKS that wait in the receive buffer.\<close>

definition waiting_bytes :: "tcp_client \<Rightarrow> byte list" where
  "waiting_bytes s = (if tc_socks_up s \<and> tc_recv_buf_used s > 0 then drop (nat (tc_recv_buf_sent s)) (tc_recv_buf s) else [])"

text \<open>What holds of every client, at any point of a handler between two calls.\<close>

definition relay_ok :: "tcp_client \<Rightarrow> bool" where
  "relay_ok s \<longleftrightarrow> \<not> tc_fault s \<and> tc_listed s = (\<not> tc_freed s) \<and> tc_socks_client s = (\<not> tc_socks_closed s) \<and>
     tc_aborted s = (tc_pcb s = PcbAborted) \<and>
     (tc_dead s = DeadDangling \<longrightarrow> tc_aborted s \<or> tc_freed s) \<and>
     (tc_dead s = DeadFrame \<longrightarrow> tc_killed s = (if tc_aborted s then 1 else if tc_freed s then -1 else 0)) \<and>
     (\<forall>n. tc_sending s = Some n \<longrightarrow> tc_socks_client s \<and> tc_socks_up s \<and> 0 < n \<and> n \<le> length (tc_buf s)) \<and>
     (tc_receiving s \<longrightarrow> tc_socks_client s \<and> tc_socks_up s \<and> tc_recv_buf_used s = -1) \<and>
     tc_from_client s = tc_to_socks s @ tc_buf s \<and> tc_from_socks s = tc_to_client s @ waiting_bytes s \<and>
     (tc_socks_up s \<and> tc_recv_buf_used s > 0 \<longrightarrow>
        0 \<le> tc_recv_buf_sent s \<and> tc_recv_buf_used s = int (length (tc_recv_buf s)))"

text \<open>The half towards lwIP is open.\<close>

definition relay_open :: "tcp_client \<Rightarrow> bool" where
  "relay_open s \<longleftrightarrow> tc_pcb s = PcbLive \<and> tc_err_cb s \<and> tc_recv_cb s = (\<not> tc_socks_closed s) \<and> tc_sent_cb s = tc_socks_up s \<and>
     (\<not> tc_socks_closed s \<longrightarrow> tc_window s + int (length (tc_buf s)) = int TCP_WND) \<and>
     (tc_socks_up s \<longrightarrow> tc_recv_tcp_pending s = tc_unacked s \<and> 0 \<le> tc_unacked s \<and>
        (tc_recv_buf_used s = -1 \<or>
         0 < tc_recv_buf_used s \<and> tc_recv_buf_sent s < tc_recv_buf_used s \<and> tc_recv_waiting s \<and> 0 < tc_recv_tcp_pending s)) \<and>
     (\<not> tc_socks_up s \<longrightarrow> tc_unacked s = 0) \<and>
     (tc_socks_closed s \<longrightarrow> tc_socks_up s \<and> 0 < tc_recv_tcp_pending s) \<and>
     (tc_socks_up s \<and> \<not> tc_socks_closed s \<and> tc_recv_buf_used s = -1 \<longrightarrow> tc_receiving s)"

text \<open>The half towards lwIP is gone.\<close>

definition relay_detached :: "tcp_client \<Rightarrow> bool" where
  "relay_detached s \<longleftrightarrow> tc_pcb s \<noteq> PcbLive \<and> \<not> tc_err_cb s \<and> \<not> tc_recv_cb s \<and> \<not> tc_sent_cb s"

definition relay_busy :: "tcp_client \<Rightarrow> bool" where
  "relay_busy s \<longleftrightarrow> (tc_socks_up s \<and> \<not> tc_socks_closed s \<and> tc_buf s \<noteq> [] \<longrightarrow> tc_sending s \<noteq> None)"

definition relay_inv :: "tcp_client \<Rightarrow> bool" where
  "relay_inv s \<longleftrightarrow> relay_ok s \<and> relay_busy s \<and>
     (if tc_client_closed s
      then relay_detached s \<and> tc_freed s = tc_socks_closed s \<and> (\<not> tc_socks_closed s \<longrightarrow> tc_buf s \<noteq> [])
      else \<not> tc_freed s \<and> relay_open s)"

lemmas relay_defs = relay_ok_def relay_open_def relay_detached_def relay_busy_def waiting_bytes_def

declare client_handle_freed_client.simps [simp del] client_free_client.simps [simp del] client_free_socks.simps [simp del]

lemma dealloc_inv:
  assumes "relay_ok s" "relay_detached s" "tc_client_closed s" "tc_socks_closed s" "\<not> tc_freed s"
  shows "relay_inv (client_dealloc s)"
  using assms unfolding relay_inv_def client_dealloc_def
  by (cases "tc_dead s") (auto simp: relay_defs Let_def dead_kill_with_def)

lemma free_socks_closed_inv:
  assumes "relay_ok s" "relay_detached s" "tc_client_closed s" "\<not> tc_socks_closed s" "\<not> tc_freed s"
  shows "relay_inv (client_free_socks lw s)"
proof -
  have "client_free_socks lw s = client_dealloc ((socks_free (ensure (\<not> tc_socks_closed s) s))\<lparr>tc_socks_closed := True\<rparr>)"
    using assms by (subst client_free_socks.simps) (simp add: Let_def socks_free_def)
  moreover have "relay_inv (client_dealloc ((socks_free (ensure (\<not> tc_socks_closed s) s))\<lparr>tc_socks_closed := True\<rparr>))"
    using assms by (intro dealloc_inv) (auto simp: relay_defs socks_free_def)
  ultimately show ?thesis
    by simp
qed

lemma handle_freed_inv:
  assumes "relay_ok s" "relay_detached s" "relay_busy s" "\<not> tc_client_closed s" "\<not> tc_freed s"
  shows "relay_inv (client_handle_freed_client lw s)"
proof -
  define s' where "s' = (ensure (\<not> tc_client_closed s) s)\<lparr>tc_client_closed := True\<rparr>"
  have s': "relay_ok s'" "relay_detached s'" "relay_busy s'" "tc_client_closed s'" "\<not> tc_freed s'"
    "tc_buf s' = tc_buf s" "tc_socks_closed s' = tc_socks_closed s"
    using assms by (auto simp: s'_def relay_defs)
  have "client_handle_freed_client lw s =
      (if length (tc_buf s') > 0 \<and> \<not> tc_socks_closed s' then s'
       else if \<not> tc_socks_closed s' then client_free_socks lw s' else client_dealloc s')"
    by (subst client_handle_freed_client.simps) (simp add: s'_def Let_def)
  moreover have "relay_inv s'" if "length (tc_buf s') > 0" "\<not> tc_socks_closed s'"
    using s' that by (auto simp: relay_inv_def)
  ultimately show ?thesis
    using free_socks_closed_inv [OF s'(1,2,4) _ s'(5)] dealloc_inv [OF s'(1,2,4) _ s'(5)] by auto
qed

text \<open>Both ways of giving up the pcb.\<close>

lemma abort_pcb_detached:
  assumes "relay_ok s" "relay_busy s" "tc_pcb s = PcbLive" "\<not> tc_freed s" "\<not> tc_client_closed s"
  shows "relay_ok (client_abort_pcb (remove_callbacks s)) \<and> relay_detached (client_abort_pcb (remove_callbacks s)) \<and>
    relay_busy (client_abort_pcb (remove_callbacks s)) \<and> \<not> tc_client_closed (client_abort_pcb (remove_callbacks s)) \<and>
    \<not> tc_freed (client_abort_pcb (remove_callbacks s))"
  using assms by (cases "tc_dead s")
    (auto simp: relay_defs client_abort_pcb_def remove_callbacks_def dead_kill_with_def Let_def)

lemma relay_ensure [simp]: "c \<Longrightarrow> ensure c s = s"
  by (simp add: ensure_def)

lemma free_client_inv:
  assumes "relay_ok s" "relay_busy s" "tc_pcb s = PcbLive" "\<not> tc_freed s" "\<not> tc_client_closed s"
  shows "relay_inv (client_free_client lw s)"
proof -
  have "relay_ok (close_pcb lw s) \<and> relay_detached (close_pcb lw s) \<and> relay_busy (close_pcb lw s) \<and>
      \<not> tc_client_closed (close_pcb lw s) \<and> \<not> tc_freed (close_pcb lw s)"
  proof (cases "lw_close lw = ERR_OK")
    case True
    then show ?thesis
      using assms by (auto simp: close_pcb_def relay_defs remove_callbacks_def Let_def)
  next
    case False
    then show ?thesis
      using abort_pcb_detached [OF assms] assms(5) by (simp add: close_pcb_def)
  qed
  then show ?thesis
    by (subst client_free_client.simps) (blast intro: handle_freed_inv)
qed

lemma abort_client_inv:
  assumes "relay_ok s" "relay_busy s" "tc_pcb s = PcbLive" "\<not> tc_freed s" "\<not> tc_client_closed s"
  shows "relay_inv (client_abort_client lw s)"
  using abort_pcb_detached [OF assms] assms(5) unfolding client_abort_client_def by (auto intro: handle_freed_inv)

lemma free_socks_inv:
  assumes "relay_ok s" "\<not> tc_client_closed s" "relay_open s" "\<not> tc_socks_closed s" "\<not> tc_freed s"
  shows "relay_inv (client_free_socks lw s)"
proof -
  define s' where "s' = (socks_free (s\<lparr>tc_recv_cb := tc_recv_cb s \<and> \<not> tc_socks_up s\<rparr>))\<lparr>tc_socks_closed := True\<rparr>"
  have p: "tc_pcb s = PcbLive" "tc_socks_client s"
    using assms by (auto simp: relay_defs)
  have "client_free_socks lw s =
      (if tc_socks_up s' \<and> (tc_recv_buf_used s' \<ge> 0 \<or> tc_recv_tcp_pending s' > 0) then s'
       else client_free_client lw s')"
    using assms(2,4) p by (subst client_free_socks.simps) (cases "tc_socks_up s"; simp add: Let_def s'_def socks_free_def)
  moreover have "relay_ok s'" "tc_pcb s' = PcbLive" "\<not> tc_freed s'" "\<not> tc_client_closed s'" "relay_busy s'"
    using assms(1,2,4,5) p by (auto simp: s'_def relay_ok_def relay_busy_def waiting_bytes_def socks_free_def)
  moreover have "relay_inv s'" if "tc_socks_up s'" "tc_recv_buf_used s' \<ge> 0 \<or> tc_recv_tcp_pending s' > 0"
  proof -
    have "relay_open s'"
      using assms p that by (auto simp: s'_def relay_open_def socks_free_def)
    then show ?thesis
      using calculation(2-6) by (simp add: relay_inv_def)
  qed
  ultimately show ?thesis
    using free_client_inv [of s' lw] by auto
qed

subsection \<open>Handlers preserve the invariant\<close>

lemma sending_facts:
  assumes "relay_inv s" "tc_sending s = Some len"
  shows "tc_socks_client s" "\<not> tc_socks_closed s" "\<not> tc_freed s" "tc_socks_up s" "len \<le> length (tc_buf s)" "0 < len"
  using assms by (auto simp: relay_inv_def relay_ok_def relay_open_def split: if_splits)

lemma receiving_facts:
  assumes "relay_inv s" "tc_receiving s"
  shows "tc_socks_client s" "\<not> tc_socks_closed s" "\<not> tc_freed s" "tc_socks_up s" "tc_recv_buf_used s = -1"
  using assms by (auto simp: relay_inv_def relay_ok_def relay_open_def split: if_splits)

lemma sender_start_ok:
  assumes "relay_ok s" "tc_socks_client s" "tc_socks_up s" "tc_sending s = None" "tc_buf s \<noteq> []"
  shows "relay_ok (sender_start s)" "relay_busy (sender_start s)"
  using assms by (auto simp: relay_ok_def relay_busy_def waiting_bytes_def sender_start_def)

lemma relay_open_sending [simp]:
  "relay_open (s\<lparr>tc_sending := x\<rparr>) \<longleftrightarrow> relay_open s" "relay_detached (s\<lparr>tc_sending := x\<rparr>) \<longleftrightarrow> relay_detached s"
  by (simp_all add: relay_open_def relay_detached_def)

lemma sender_start_inv:
  assumes "relay_ok s" "tc_socks_client s" "tc_socks_up s" "tc_sending s = None" "tc_buf s \<noteq> []"
    and "if tc_client_closed s then relay_detached s \<and> \<not> tc_freed s \<and> \<not> tc_socks_closed s else \<not> tc_freed s \<and> relay_open s"
  shows "relay_inv (sender_start s)"
proof -
  have "sender_start s = s\<lparr>tc_sending := Some (length (tc_buf s))\<rparr>"
    using assms(2,4,5) by (simp add: sender_start_def)
  then show ?thesis
    using sender_start_ok [OF assms(1-5)] assms(5,6) by (simp add: relay_inv_def split: if_splits)
qed

lemma send_done_inv:
  assumes i: "relay_inv s" and n: "tc_sending s = Some len" "0 < n" "n \<le> len"
  shows "relay_inv (client_socks_send_handler_done lw n
     (s\<lparr>tc_sending := None, tc_to_socks := tc_to_socks s @ take n (tc_buf s)\<rparr>))"
proof -
  note f = sending_facts [OF i n(1)]
  have ok: "relay_ok s"
    using i by (simp add: relay_inv_def)
  define s' where "s' = s\<lparr>tc_sending := None, tc_to_socks := tc_to_socks s @ take n (tc_buf s), tc_buf := drop n (tc_buf s),
      tc_window := (if tc_client_closed s then tc_window s else tc_window s + int n)\<rparr>"
  have pcb: "\<not> tc_client_closed s \<Longrightarrow> tc_pcb s = PcbLive"
    using i by (auto simp: relay_inv_def relay_open_def)
  have ne: "tc_buf s \<noteq> []"
    using f by auto
  have "client_socks_send_handler_done lw n (s\<lparr>tc_sending := None, tc_to_socks := tc_to_socks s @ take n (tc_buf s)\<rparr>) =
      (if length (tc_buf s') > 0 then sender_start s'
       else if tc_client_closed s' then client_free_socks lw s' else s')"
    using n f pcb ne by (cases "tc_client_closed s") (simp_all add: client_socks_send_handler_done_def s'_def Let_def)
  moreover have ok': "relay_ok s'"
    using ok n(1) by (auto simp: s'_def relay_ok_def waiting_bytes_def)
  moreover have d: "tc_client_closed s' \<Longrightarrow> relay_detached s'"
    using i by (auto simp: s'_def relay_inv_def relay_detached_def)
  moreover have o: "\<not> tc_client_closed s' \<Longrightarrow> relay_open s'"
    using i n f by (auto simp: s'_def relay_inv_def relay_open_def)
  moreover have "tc_socks_client s'" "tc_socks_up s'" "tc_sending s' = None" "\<not> tc_socks_closed s'" "\<not> tc_freed s'"
    using f by (auto simp: s'_def)
  moreover have "relay_inv s'" if "length (tc_buf s') = 0" "\<not> tc_client_closed s'"
    using that calculation by (simp add: relay_inv_def relay_busy_def)
  ultimately show ?thesis
    using sender_start_inv [of s'] free_socks_closed_inv [of s' lw] by (cases "tc_client_closed s'") auto
qed

declare send_loop.simps [simp del]

text \<open>What \<open>send_loop\<close> changes, and what it needs.\<close>

lemma send_loop_ok:
  assumes "relay_ok s" "tc_socks_up s" "tc_pcb s = PcbLive" "0 < tc_recv_buf_used s"
    "tc_recv_buf_sent s < tc_recv_buf_used s" "tc_recv_tcp_pending s = tc_unacked s" "0 \<le> tc_unacked s"
  shows "\<exists>k c. 0 \<le> k \<and> fst (send_loop lw i s) =
      s\<lparr>tc_recv_buf_sent := tc_recv_buf_sent s + k, tc_recv_tcp_pending := tc_recv_tcp_pending s + k,
        tc_unacked := tc_unacked s + k, tc_to_client := tc_to_client s @ c\<rparr> \<and>
      tc_recv_buf_sent s + k \<le> tc_recv_buf_used s \<and> relay_ok (fst (send_loop lw i s))"
  using assms
proof (induction lw i s rule: send_loop.induct)
  case (1 lw i s)
  let ?w = "min (tc_recv_buf_used s - tc_recv_buf_sent s) (int (lw_sndbuf lw i))"
  let ?c = "take (nat ?w) (drop (nat (tc_recv_buf_sent s)) (tc_recv_buf s))"
  define s' where "s' = s\<lparr>tc_to_client := tc_to_client s @ ?c, tc_unacked := tc_unacked s + ?w,
    tc_recv_buf_sent := tc_recv_buf_sent s + ?w, tc_recv_tcp_pending := tc_recv_tcp_pending s + ?w\<rparr>"
  have same: "\<exists>k c. 0 \<le> k \<and> s = s\<lparr>tc_recv_buf_sent := tc_recv_buf_sent s + k, tc_recv_tcp_pending := tc_recv_tcp_pending s + k,
        tc_unacked := tc_unacked s + k, tc_to_client := tc_to_client s @ c\<rparr> \<and>
      tc_recv_buf_sent s + k \<le> tc_recv_buf_used s \<and> relay_ok s"
  proof (intro exI [of _ 0] exI [of _ "[]"] conjI)
    show "s = s\<lparr>tc_recv_buf_sent := tc_recv_buf_sent s + 0, tc_recv_tcp_pending := tc_recv_tcp_pending s + 0,
        tc_unacked := tc_unacked s + 0, tc_to_client := tc_to_client s @ []\<rparr>"
      by (rule tcp_client.equality) simp_all
  qed (use "1.prems" in simp_all)
  show ?case
  proof (cases "?w = 0 \<or> lw_write lw i \<noteq> ERR_OK")
    case True
    then have "fst (send_loop lw i s) = s"
      using "1.prems"(3) by (subst send_loop.simps) (auto simp: Let_def)
    then show ?thesis
      using same by simp
  next
    case False
    have w: "0 < ?w" "?w \<le> tc_recv_buf_used s - tc_recv_buf_sent s"
      using False "1.prems"(5) by auto
    have sb: "0 \<le> tc_recv_buf_sent s" "tc_recv_buf_used s = int (length (tc_recv_buf s))"
      using "1.prems"(1,2,4) by (auto simp: relay_ok_def)
    have e: "send_loop lw i s = (if tc_recv_buf_sent s' < tc_recv_buf_used s' then send_loop lw (i + 1) s' else (s', False))"
      using False "1.prems"(3) by (subst send_loop.simps) (auto simp: Let_def s'_def)
    have wb: "waiting_bytes s = ?c @ waiting_bytes s'"
    proof -
      have "nat (tc_recv_buf_sent s + ?w) = nat ?w + nat (tc_recv_buf_sent s)"
        using nat_add_distrib [OF sb(1) less_imp_le [OF w(1)]] by simp
      then have "drop (nat (tc_recv_buf_sent s)) (tc_recv_buf s) = ?c @ drop (nat (tc_recv_buf_sent s + ?w)) (tc_recv_buf s)"
        by (metis append_take_drop_id drop_drop)
      then show ?thesis
        using "1.prems"(2,4) by (simp add: waiting_bytes_def s'_def)
    qed
    have ok': "relay_ok s'"
      using "1.prems"(1) w sb wb by (auto simp: relay_ok_def s'_def)
    show ?thesis
    proof (cases "tc_recv_buf_sent s' < tc_recv_buf_used s'")
      case True
      then obtain k c where "0 \<le> k" "fst (send_loop lw (i + 1) s') =
        s'\<lparr>tc_recv_buf_sent := tc_recv_buf_sent s' + k, tc_recv_tcp_pending := tc_recv_tcp_pending s' + k,
          tc_unacked := tc_unacked s' + k, tc_to_client := tc_to_client s' @ c\<rparr>"
        "tc_recv_buf_sent s' + k \<le> tc_recv_buf_used s'" "relay_ok (fst (send_loop lw (i + 1) s'))"
        using "1.IH" [of ?w s s'] False ok' "1.prems" w by (auto simp: s'_def)
      then show ?thesis
        using e True w by (intro exI [of _ "?w + k"] exI [of _ "?c @ c"]) (auto simp: s'_def)
    next
      case False
      then show ?thesis
        using e ok' w by (intro exI [of _ ?w] exI [of _ ?c]) (auto simp: s'_def)
    qed
  qed
qed

text \<open>The half towards lwIP, while data from SOCKS is being passed on.\<close>

definition relay_passing :: "tcp_client \<Rightarrow> bool" where
  "relay_passing s \<longleftrightarrow> relay_ok s \<and> relay_busy s \<and> \<not> tc_client_closed s \<and> \<not> tc_freed s \<and> tc_socks_up s \<and> \<not> tc_receiving s \<and>
     tc_pcb s = PcbLive \<and> tc_err_cb s \<and> tc_recv_cb s = (\<not> tc_socks_closed s) \<and> tc_sent_cb s \<and>
     (\<not> tc_socks_closed s \<longrightarrow> tc_window s + int (length (tc_buf s)) = int TCP_WND) \<and>
     tc_recv_tcp_pending s = tc_unacked s \<and> 0 \<le> tc_unacked s"

lemma passing_open:
  assumes "relay_passing s" "0 < tc_recv_tcp_pending s"
    and "tc_recv_buf_used s = -1 \<and> tc_socks_closed s \<or>
         0 < tc_recv_buf_used s \<and> tc_recv_buf_sent s < tc_recv_buf_used s \<and> tc_recv_waiting s"
  shows "relay_inv s"
proof -
  have "relay_open s"
    unfolding relay_open_def using assms by (auto simp: relay_passing_def)
  then show ?thesis
    using assms(1) by (simp add: relay_inv_def relay_passing_def)
qed

lemma passing_initiate:
  assumes "relay_passing s" "tc_recv_buf_used s = -1" "\<not> tc_socks_closed s"
  shows "relay_inv (client_socks_recv_initiate s)"
proof -
  have "client_socks_recv_initiate s = s\<lparr>tc_receiving := True\<rparr>"
    using assms by (simp add: client_socks_recv_initiate_def relay_passing_def relay_ok_def)
  moreover have "relay_ok (s\<lparr>tc_receiving := True\<rparr>)" "relay_busy (s\<lparr>tc_receiving := True\<rparr>)"
    using assms by (auto simp: relay_passing_def relay_ok_def relay_busy_def waiting_bytes_def)
  moreover have "relay_open (s\<lparr>tc_receiving := True\<rparr>)"
    using assms by (auto simp: relay_passing_def relay_open_def)
  ultimately show ?thesis
    using assms by (simp add: relay_inv_def relay_passing_def)
qed

lemma send_out_ok:
  assumes p: "relay_passing s" and u: "0 < tc_recv_buf_used s" "tc_recv_buf_sent s < tc_recv_buf_used s" "\<not> tc_recv_waiting s"
    and r: "client_socks_recv_send_out lw s = (s', failed)"
  shows "failed \<Longrightarrow> relay_inv s'"
    and "\<not> failed \<Longrightarrow> relay_passing s' \<and> 0 < tc_recv_tcp_pending s' \<and> tc_socks_closed s' = tc_socks_closed s \<and>
      (tc_recv_buf_used s' = -1 \<or>
       0 < tc_recv_buf_used s' \<and> tc_recv_buf_sent s' < tc_recv_buf_used s' \<and> tc_recv_waiting s')"
proof -
  have pf: "relay_ok s" "tc_socks_up s" "tc_pcb s = PcbLive" "tc_recv_tcp_pending s = tc_unacked s" "0 \<le> tc_unacked s"
    "\<not> tc_client_closed s" "\<not> tc_freed s" "relay_busy s"
    using p by (auto simp: relay_passing_def)
  obtain s1 fl where l: "send_loop lw 0 s = (s1, fl)"
    by fastforce
  obtain k c where k: "0 \<le> k" "s1 = s\<lparr>tc_recv_buf_sent := tc_recv_buf_sent s + k,
      tc_recv_tcp_pending := tc_recv_tcp_pending s + k, tc_unacked := tc_unacked s + k, tc_to_client := tc_to_client s @ c\<rparr>"
    "tc_recv_buf_sent s + k \<le> tc_recv_buf_used s" "relay_ok s1"
    using send_loop_ok [OF pf(1-3) u(1,2) pf(4,5), of lw 0] unfolding l by auto
  have s1: "relay_passing s1" "tc_pcb s1 = PcbLive" "tc_recv_buf_used s1 = tc_recv_buf_used s" "tc_socks_closed s1 = tc_socks_closed s"
    using p k by (auto simp: relay_passing_def relay_busy_def)
  have ab: "relay_inv (client_abort_client lw s1)"
    using s1(1) by (intro abort_client_inv) (auto simp: relay_passing_def)
  have e: "client_socks_recv_send_out lw s =
      (if fl then (client_abort_client lw s1, True)
       else if lw_output lw \<noteq> ERR_OK then (client_abort_client lw s1, True)
       else if tc_recv_buf_sent s1 < tc_recv_buf_used s1 then
         if tc_recv_tcp_pending s1 = 0 then (client_abort_client lw s1, True) else (s1\<lparr>tc_recv_waiting := True\<rparr>, False)
       else (s1\<lparr>tc_recv_buf_used := -1\<rparr>, False))"
    using pf(2,3,6) u s1(2) l by (simp add: client_socks_recv_send_out_def Let_def)
  show "relay_inv s'" if "failed"
    using r e ab that by (auto split: if_splits)
  show "relay_passing s' \<and> 0 < tc_recv_tcp_pending s' \<and> tc_socks_closed s' = tc_socks_closed s \<and>
      (tc_recv_buf_used s' = -1 \<or>
       0 < tc_recv_buf_used s' \<and> tc_recv_buf_sent s' < tc_recv_buf_used s' \<and> tc_recv_waiting s')" if "\<not> failed"
  proof (cases "tc_recv_buf_sent s1 < tc_recv_buf_used s1")
    case True
    then have "s' = s1\<lparr>tc_recv_waiting := True\<rparr>" "tc_recv_tcp_pending s1 \<noteq> 0"
      using r e that by (auto split: if_splits)
    moreover have "relay_passing (s1\<lparr>tc_recv_waiting := True\<rparr>)"
      using s1(1) by (auto simp: relay_passing_def relay_ok_def relay_busy_def waiting_bytes_def)
    ultimately show ?thesis
      using True s1 u k(1) pf(4,5) by (simp add: relay_passing_def)
  next
    case False
    then have s': "s' = s1\<lparr>tc_recv_buf_used := -1\<rparr>"
      using r e that by (auto split: if_splits)
    have "tc_recv_buf_sent s1 = tc_recv_buf_used s1" "0 < k"
      using False k(2,3) u(2) by auto
    then have "waiting_bytes s1 = []"
      using k(4) s1(1) by (auto simp: waiting_bytes_def relay_ok_def relay_passing_def)
    then have "relay_passing s'"
      using s1(1) unfolding s' by (auto simp: relay_passing_def relay_ok_def relay_busy_def waiting_bytes_def [of "s1\<lparr>tc_recv_buf_used := -1\<rparr>"])
    moreover have "0 < tc_recv_tcp_pending s'"
      using \<open>0 < k\<close> pf(4,5) unfolding s' k(2) by simp
    ultimately show ?thesis
      using s1(4) unfolding s' by simp
  qed
qed

lemma recv_done_inv:
  assumes i: "relay_inv s" and r: "tc_receiving s" "d \<noteq> []" "length d \<le> CLIENT_SOCKS_RECV_BUF_SIZE"
  shows "relay_inv (client_socks_recv_handler_done lw (length d)
     (s\<lparr>tc_receiving := False, tc_recv_buf := d, tc_from_socks := tc_from_socks s @ (if tc_client_closed s then [] else d)\<rparr>))"
proof (cases "tc_client_closed s")
  case True
  note f = receiving_facts [OF i r(1)]
  have "relay_inv (s\<lparr>tc_receiving := False, tc_recv_buf := d\<rparr>)"
    using i True f by (auto simp: relay_inv_def relay_ok_def relay_busy_def relay_detached_def waiting_bytes_def)
  moreover have "s\<lparr>tc_receiving := False, tc_recv_buf := d, tc_from_socks := tc_from_socks s @ []\<rparr> = s\<lparr>tc_receiving := False, tc_recv_buf := d\<rparr>"
    by (rule tcp_client.equality) simp_all
  ultimately show ?thesis
    using True f r by (simp add: client_socks_recv_handler_done_def Let_def)
next
  case False
  note f = receiving_facts [OF i r(1)]
  define s1 where "s1 = s\<lparr>tc_receiving := False, tc_recv_buf := d, tc_from_socks := tc_from_socks s @ d,
    tc_recv_buf_used := int (length d), tc_recv_buf_sent := 0, tc_recv_waiting := False\<rparr>"
  obtain s2 failed where s2: "client_socks_recv_send_out lw s1 = (s2, failed)"
    by fastforce
  have "relay_ok s1"
    using i False f r(2) by (auto simp: relay_inv_def relay_ok_def s1_def waiting_bytes_def)
  moreover have "relay_busy s1"
    using i by (auto simp: relay_inv_def relay_busy_def s1_def)
  ultimately have "relay_passing s1"
    using i False f by (auto simp: relay_inv_def relay_passing_def relay_open_def s1_def)
  moreover have "0 < tc_recv_buf_used s1" "tc_recv_buf_sent s1 < tc_recv_buf_used s1" "\<not> tc_recv_waiting s1"
    using r(2) by (auto simp: s1_def)
  ultimately have out: "failed \<Longrightarrow> relay_inv s2" "\<not> failed \<Longrightarrow> relay_passing s2 \<and> 0 < tc_recv_tcp_pending s2 \<and> tc_socks_closed s2 = tc_socks_closed s1 \<and>
      (tc_recv_buf_used s2 = -1 \<or>
       0 < tc_recv_buf_used s2 \<and> tc_recv_buf_sent s2 < tc_recv_buf_used s2 \<and> tc_recv_waiting s2)"
    using send_out_ok [OF _ _ _ _ s2] by blast+
  have "client_socks_recv_handler_done lw (length d)
     (s\<lparr>tc_receiving := False, tc_recv_buf := d, tc_from_socks := tc_from_socks s @ (if tc_client_closed s then [] else d)\<rparr>) =
     (if failed then s2 else if tc_recv_buf_used s2 = -1 then client_socks_recv_initiate s2 else s2)"
    using False f r s2 by (simp add: client_socks_recv_handler_done_def Let_def s1_def)
  moreover have "tc_socks_closed s1 = tc_socks_closed s"
    by (simp add: s1_def)
  ultimately show ?thesis
    using out f(2) passing_initiate [of s2] passing_open [of s2] by auto
qed

lemma up_inv:
  assumes i: "relay_inv s" and u: "tc_socks_client s" "\<not> tc_socks_up s" "\<not> tc_freed s"
  shows "relay_inv (client_socks_handler lw EVENT_UP s)"
proof -
  have f: "\<not> tc_socks_closed s" "tc_sending s = None" "\<not> tc_receiving s"
    using i u by (auto simp: relay_inv_def relay_ok_def)
  have pcb: "\<not> tc_client_closed s \<Longrightarrow> tc_pcb s = PcbLive"
    using i by (auto simp: relay_inv_def relay_open_def)
  define s1 where "s1 = s\<lparr>tc_sending := None, tc_receiving := False, tc_recv_buf_used := -1, tc_recv_tcp_pending := 0,
    tc_sent_cb := (\<not> tc_client_closed s), tc_socks_up := True\<rparr>"
  define s2 where "s2 = (if length (tc_buf s1) > 0 then client_send_to_socks s1 else s1)"
  have cb: "tc_client_closed s \<Longrightarrow> \<not> tc_sent_cb s"
    using i by (auto simp: relay_inv_def relay_detached_def)
  have e: "client_socks_handler lw EVENT_UP s = (if \<not> tc_client_closed s2 then client_socks_recv_initiate s2 else s2)"
  proof (cases "tc_client_closed s")
    case True
    then have "s1 = s\<lparr>tc_sending := None, tc_receiving := False, tc_recv_buf_used := -1, tc_recv_tcp_pending := 0, tc_socks_up := True\<rparr>"
      unfolding s1_def using cb by (intro tcp_client.equality) simp_all
    then show ?thesis
      using f u(2) True unfolding client_socks_handler_def s2_def by (simp add: Let_def)
  next
    case False
    then show ?thesis
      using f u(2) pcb unfolding client_socks_handler_def s2_def s1_def by (simp add: Let_def)
  qed
  have ok1: "relay_ok s1"
    using i u f by (auto simp: relay_inv_def relay_ok_def s1_def waiting_bytes_def)
  have s2: "s2 = s1\<lparr>tc_sending := if tc_buf s = [] then None else Some (length (tc_buf s))\<rparr>"
    unfolding s2_def client_send_to_socks_def sender_start_def using u(1) f(1)
    by (auto simp: s1_def intro: tcp_client.equality)
  have ok2: "relay_ok s2" "relay_busy s2"
    using ok1 u(1) unfolding s2 by (auto simp: relay_ok_def relay_busy_def waiting_bytes_def s1_def)
  show ?thesis
  proof (cases "tc_client_closed s")
    case True
    then have "relay_detached s2" "tc_client_closed s2" "\<not> tc_freed s2" "\<not> tc_socks_closed s2" "tc_buf s2 \<noteq> []"
      using i f(1) u(3) unfolding s2 s1_def by (auto simp: relay_inv_def relay_detached_def)
    then show ?thesis
      using ok2 by (simp add: e relay_inv_def)
  next
    case False
    then have "relay_passing s2"
      using i ok2 f u(2) unfolding relay_passing_def by (auto simp: relay_inv_def relay_open_def s2 s1_def)
    moreover have "tc_recv_buf_used s2 = -1" "\<not> tc_socks_closed s2" "\<not> tc_client_closed s2"
      using f(1) False by (simp_all add: s2 s1_def)
    ultimately show ?thesis
      using passing_initiate by (simp add: e)
  qed
qed

lemma socks_input_inv:
  assumes "relay_inv s" "socks_input_handler lw i s = Some s'"
  shows "relay_inv s'"
proof (cases i)
  case (Event ev)
  then have e: "tc_socks_client s" "\<not> tc_freed s" "ev = EVENT_ERROR \<or> (ev = EVENT_UP) \<noteq> tc_socks_up s"
    "s' = client_socks_handler lw ev s"
    using assms(2) by (auto split: if_splits)
  then have c: "\<not> tc_socks_closed s"
    using assms(1) by (auto simp: relay_inv_def relay_ok_def)
  have free: "relay_inv (client_free_socks lw s)"
    using free_socks_inv [of s lw] free_socks_closed_inv [of s lw] assms(1) c e(2) by (auto simp: relay_inv_def split: if_splits)
  show ?thesis
    using free up_inv [OF assms(1) e(1)] e c by (cases ev) (auto simp: client_socks_handler_def)
next
  case (Sent n)
  then show ?thesis
    using assms send_done_inv by (auto split: option.splits if_splits)
next
  case (Received d)
  then show ?thesis
    using assms(2) recv_done_inv [OF assms(1), of d lw] by (simp split: if_splits)
qed

lemma sync_commit_inv: "relay_inv s \<Longrightarrow> relay_inv (sync_commit jobs s)"
  by (induction jobs s rule: sync_commit.induct) (auto split: option.splits dest: socks_input_inv)


subsection \<open>\<open>dead_aborted\<close> during a callback\<close>

lemma dead_same_basic [simp]:
  "tc_dead (client_dealloc s) = tc_dead s" "tc_dead (client_abort_pcb s) = tc_dead s"
  "tc_dead (remove_callbacks s) = tc_dead s" "tc_dead (close_pcb lw s) = tc_dead s" "tc_dead (socks_free s) = tc_dead s"
  by (auto simp: client_dealloc_def client_abort_pcb_def remove_callbacks_def close_pcb_def socks_free_def
      dead_kill_with_def Let_def split: dead_t.split)

lemma dead_same_close:
  "tc_dead (client_handle_freed_client lw s) = tc_dead s"
  "tc_dead (client_free_client lw s) = tc_dead s"
  "tc_dead (client_free_socks lw s) = tc_dead s"
  by (induction lw s and lw s and lw s rule: client_handle_freed_client_client_free_client_client_free_socks.induct)
    (subst client_handle_freed_client.simps client_free_client.simps client_free_socks.simps; simp add: Let_def)+

lemma dead_same_loop [simp]: "tc_dead (fst (send_loop lw i s)) = tc_dead s"
  by (induction lw i s rule: send_loop.induct) (subst send_loop.simps; auto simp: Let_def)

lemma dead_same_loop_eq: "send_loop lw i s = (s', f) \<Longrightarrow> tc_dead s' = tc_dead s"
  using dead_same_loop [of lw i s] by simp

lemma dead_same_send_out: "client_socks_recv_send_out lw s = (s', f) \<Longrightarrow> tc_dead s' = tc_dead s"
  by (auto simp: client_socks_recv_send_out_def client_abort_client_def dead_same_close Let_def
      split: prod.splits if_splits dest!: dead_same_loop_eq)

lemma dead_same_handlers [simp]:
  "tc_dead (sender_start s) = tc_dead s" "tc_dead (client_send_to_socks s) = tc_dead s"
  "tc_dead (client_socks_recv_initiate s) = tc_dead s"
  by (simp_all add: sender_start_def client_send_to_socks_def client_socks_recv_initiate_def)

lemma dead_same_events [simp]:
  "tc_dead (client_socks_send_handler_done lw n s) = tc_dead s"
  "tc_dead (client_socks_recv_handler_done lw n s) = tc_dead s"
  "tc_dead (client_socks_handler lw ev s) = tc_dead s"
  by (auto simp: client_socks_send_handler_done_def client_socks_recv_handler_done_def client_socks_handler_def
      dead_same_close Let_def split: prod.splits socks_event.splits dest!: dead_same_send_out)

lemma dead_same_socks_input: "socks_input_handler lw i s = Some s' \<Longrightarrow> tc_dead s' = tc_dead s"
  by (cases i) (auto split: if_splits option.splits)

lemma dead_same_sync [simp]: "tc_dead (sync_commit jobs s) = tc_dead s"
  by (induction jobs s rule: sync_commit.induct) (auto split: option.splits dest: dead_same_socks_input)

subsection \<open>Callbacks preserve the invariant\<close>

lemma relay_dead [simp]:
  "relay_open (s\<lparr>tc_dead := x\<rparr>) \<longleftrightarrow> relay_open s" "relay_detached (s\<lparr>tc_dead := x\<rparr>) \<longleftrightarrow> relay_detached s"
  "relay_busy (s\<lparr>tc_dead := x\<rparr>) \<longleftrightarrow> relay_busy s" "waiting_bytes (s\<lparr>tc_dead := x\<rparr>) = waiting_bytes s"
  "relay_open (s\<lparr>tc_killed := k\<rparr>) \<longleftrightarrow> relay_open s" "relay_detached (s\<lparr>tc_killed := k\<rparr>) \<longleftrightarrow> relay_detached s"
  "relay_busy (s\<lparr>tc_killed := k\<rparr>) \<longleftrightarrow> relay_busy s" "waiting_bytes (s\<lparr>tc_killed := k\<rparr>) = waiting_bytes s"
  by (simp_all add: relay_open_def relay_detached_def relay_busy_def waiting_bytes_def)

lemma relay_ok_dead:
  assumes "relay_ok s" "x = DeadDangling \<longrightarrow> tc_aborted s \<or> tc_freed s"
    and "x = DeadFrame \<longrightarrow> k = (if tc_aborted s then 1 else if tc_freed s then -1 else 0)"
  shows "relay_ok (s\<lparr>tc_killed := k, tc_dead := x\<rparr>)"
  using assms by (auto simp: relay_ok_def)

lemma dead_enter_frame: "tc_dead s = DeadNull \<Longrightarrow> dead_enter s = s\<lparr>tc_killed := 0, tc_dead := DeadFrame\<rparr>"
  by (simp add: dead_enter_def)

lemma dead_enter_inv:
  assumes "relay_inv s" "tc_pcb s = PcbLive" "\<not> tc_freed s" and dn: "tc_dead s = DeadNull"
  shows "relay_inv (dead_enter s)"
proof -
  have "relay_ok (dead_enter s)"
    unfolding dead_enter_frame [OF dn] using assms by (intro relay_ok_dead) (auto simp: relay_inv_def relay_ok_def)
  then show ?thesis
    using assms(1) by (simp add: relay_inv_def dead_enter_frame dn)
qed

lemma dead_result_inv:
  assumes "relay_inv s" "tc_dead s = DeadFrame" "dead_result s = (s', err)"
  shows "relay_inv s'" "tc_dead s' \<noteq> DeadFrame" "err = ERR_ABRT \<longleftrightarrow> tc_pcb s' = PcbAborted" "err = ERR_OK \<or> err = ERR_ABRT"
proof -
  have s': "s' = s\<lparr>tc_killed := tc_killed s, tc_dead := if tc_killed s = 0 then DeadNull else DeadDangling\<rparr>"
    "err = (if tc_killed s > 0 then ERR_ABRT else ERR_OK)"
    using assms(3) by (auto simp: dead_result_def dead_leave_def)
  have k: "tc_killed s = (if tc_aborted s then 1 else if tc_freed s then -1 else 0)" "tc_aborted s = (tc_pcb s = PcbAborted)"
    using assms(1,2) by (auto simp: relay_inv_def relay_ok_def)
  have "relay_ok s'"
    unfolding s'(1) using assms(1) k by (intro relay_ok_dead) (auto simp: relay_inv_def)
  then show "relay_inv s'"
    using assms(1) by (simp add: relay_inv_def s')
  show "tc_dead s' \<noteq> DeadFrame" "err = ERR_ABRT \<longleftrightarrow> tc_pcb s' = PcbAborted" "err = ERR_OK \<or> err = ERR_ABRT"
    using k by (auto simp: s')
qed

lemma open_facts:
  assumes "relay_inv s" "tc_recv_cb s \<or> tc_sent_cb s \<or> tc_pcb s = PcbLive"
  shows "\<not> tc_client_closed s" "\<not> tc_freed s" "relay_open s" "tc_pcb s = PcbLive" "relay_ok s" "relay_busy s"
  using assms by (auto simp: relay_inv_def relay_detached_def relay_open_def split: if_splits)

lemma live_dead_null:
  assumes "relay_inv s" "tc_pcb s = PcbLive" "tc_dead s \<noteq> DeadFrame"
  shows "tc_dead s = DeadNull"
  using assms open_facts(2) [OF assms(1)] by (cases "tc_dead s") (auto simp: relay_inv_def relay_ok_def)

text \<open>Data from the client, on the way into the buffer.\<close>

lemma recv_data_ok:
  assumes "relay_inv s" "tc_recv_cb s" "int (length d) \<le> tc_window s" and dn: "tc_dead s = DeadNull"
  defines "s1 \<equiv> dead_enter (s\<lparr>tc_window := tc_window s - int (length d), tc_from_client := tc_from_client s @ d,
      tc_buf := tc_buf s @ d\<rparr>)"
  shows "relay_ok s1" "relay_open s1" "\<not> tc_client_closed s1" "\<not> tc_freed s1" "\<not> tc_socks_closed s1" "tc_socks_client s1"
    "length d \<le> TCP_WND - length (tc_buf s)" "tc_buf s \<noteq> [] \<or> \<not> tc_socks_up s \<Longrightarrow> relay_busy s1"
    "tc_buf s = [] \<Longrightarrow> tc_sending s1 = None"
proof -
  note o = open_facts [OF assms(1) disjI1 [OF assms(2)]]
  have c: "\<not> tc_socks_closed s" "tc_window s + int (length (tc_buf s)) = int TCP_WND" "\<not> tc_aborted s"
    using o(3,4,5) assms(2) by (auto simp: relay_open_def relay_ok_def)
  show "relay_ok s1"
    using o(2,5) c(3) by (auto simp: s1_def relay_ok_def waiting_bytes_def dead_enter_frame dn)
  show "relay_open s1"
    using o(3) c by (auto simp: s1_def relay_open_def dead_enter_frame dn)
  show "\<not> tc_client_closed s1" "\<not> tc_freed s1" "\<not> tc_socks_closed s1" "tc_socks_client s1"
    using o c by (auto simp: s1_def dead_enter_frame dn relay_ok_def)
  show "length d \<le> TCP_WND - length (tc_buf s)"
    using assms(3) c(2) by simp
  show "relay_busy s1" if "tc_buf s \<noteq> [] \<or> \<not> tc_socks_up s"
    using o(6) c(1) that by (auto simp: relay_busy_def s1_def dead_enter_frame dn)
  show "tc_sending s1 = None" if "tc_buf s = []"
    using o(5) that by (cases "tc_sending s") (auto simp: s1_def dead_enter_frame dn relay_ok_def)
qed

lemma recv_func_inv:
  assumes i: "relay_inv s" "tc_recv_cb s" and dn: "tc_dead s = DeadNull" and d: "int (length d) \<le> tc_window s" "d \<noteq> []"
    and r: "client_recv_func lw jobs (Some d)
      (s\<lparr>tc_window := tc_window s - int (length d), tc_from_client := tc_from_client s @ d\<rparr>) = (s', err)"
  shows "relay_inv s' \<and> tc_dead s' \<noteq> DeadFrame \<and> (err = ERR_ABRT \<longleftrightarrow> tc_pcb s' = PcbAborted) \<and> (err = ERR_OK \<or> err = ERR_ABRT)"
proof -
  define s1 where "s1 = dead_enter (s\<lparr>tc_window := tc_window s - int (length d), tc_from_client := tc_from_client s @ d,
      tc_buf := tc_buf s @ d\<rparr>)"
  note k = recv_data_ok [OF i d(1) dn, folded s1_def]
  define s2 where "s2 = (if tc_buf s = [] \<and> tc_socks_up s then sync_commit jobs (client_send_to_socks s1) else s1)"
  have c: "\<not> tc_client_closed s"
    using open_facts(1) i by blast
  have s1: "tc_buf s1 = tc_buf s @ d" "tc_socks_up s1 = tc_socks_up s" "tc_dead s1 = DeadFrame"
    by (simp_all add: s1_def dead_enter_frame dn)
  have "(dead_enter (s\<lparr>tc_window := tc_window s - int (length d), tc_from_client := tc_from_client s @ d\<rparr>))\<lparr>tc_buf := tc_buf s @ d\<rparr> = s1"
    by (simp add: s1_def dead_enter_frame dn)
  then have e: "dead_result s2 = (s', err)"
    using r k(5,7) c s1(1,2)
    by (cases "tc_buf s = []"; cases "tc_socks_up s") (simp_all add: client_recv_func_def Let_def s2_def dead_enter_frame dn)
  have start: "relay_inv (client_send_to_socks s1)" if "tc_buf s = []" "tc_socks_up s"
  proof -
    have "client_send_to_socks s1 = sender_start s1"
      using k(5) s1 that d(2) by (simp add: client_send_to_socks_def)
    then show ?thesis
      using sender_start_inv [OF k(1,6) _ k(9)] k(2-4) s1 that d(2) by simp
  qed
  have "relay_inv s2"
  proof (cases "tc_buf s = [] \<and> tc_socks_up s")
    case True
    then show ?thesis
      using start sync_commit_inv by (simp add: s2_def)
  next
    case False
    then have "relay_busy s1"
      using k(8) by blast
    then show ?thesis
      using False k(1-4) unfolding s2_def by (simp add: relay_inv_def if_not_P)
  qed
  moreover have "tc_dead s2 = DeadFrame"
    using s1(3) by (simp add: s2_def)
  ultimately show ?thesis
    using dead_result_inv [OF _ _ e] by blast
qed

lemma recv_close_inv:
  assumes i: "relay_inv s" "tc_recv_cb s" and dn: "tc_dead s = DeadNull" and r: "client_recv_func lw jobs None s = (s', err)"
  shows "relay_inv s' \<and> tc_dead s' \<noteq> DeadFrame \<and> (err = ERR_ABRT \<longleftrightarrow> tc_pcb s' = PcbAborted) \<and> (err = ERR_OK \<or> err = ERR_ABRT)"
proof -
  note o = open_facts [OF i(1) disjI1 [OF i(2)]]
  have "relay_inv (dead_enter s)"
    by (rule dead_enter_inv [OF i(1) o(4,2) dn])
  moreover have d: "tc_pcb (dead_enter s) = PcbLive" "tc_dead (dead_enter s) = DeadFrame" "\<not> tc_freed (dead_enter s)"
    "\<not> tc_client_closed (dead_enter s)"
    using o by (simp_all add: dead_enter_frame dn)
  ultimately have "relay_inv (client_free_client lw (dead_enter s))"
    by (intro free_client_inv) (auto simp: relay_inv_def)
  moreover have "dead_result (client_free_client lw (dead_enter s)) = (s', err)"
    using r o(1) by (simp add: client_recv_func_def Let_def)
  ultimately show ?thesis
    using dead_result_inv d(2) dead_same_close(2) by metis
qed


lemma sent_func_inv:
  assumes i: "relay_inv s" "tc_sent_cb s" and dn: "tc_dead s = DeadNull" and n: "0 < n" "int n \<le> tc_unacked s"
    and r: "client_sent_func lw jobs n (s\<lparr>tc_unacked := tc_unacked s - int n\<rparr>) = (s', err)"
  shows "relay_inv s' \<and> tc_dead s' \<noteq> DeadFrame \<and> (err = ERR_ABRT \<longleftrightarrow> tc_pcb s' = PcbAborted) \<and> (err = ERR_OK \<or> err = ERR_ABRT)"
proof -
  note o = open_facts [OF i(1) disjI2 [OF disjI1 [OF i(2)]]]
  have up: "tc_socks_up s" "tc_recv_tcp_pending s = tc_unacked s"
    using o(3) i(2) by (auto simp: relay_open_def)
  have ab: "\<not> tc_aborted s"
    using o(4,5) by (auto simp: relay_ok_def)
  define s1 where "s1 = (dead_enter (s\<lparr>tc_unacked := tc_unacked s - int n\<rparr>))
    \<lparr>tc_recv_tcp_pending := tc_unacked s - int n, tc_recv_waiting := False\<rparr>"
  define s0 where "s0 = (dead_enter (s\<lparr>tc_unacked := tc_unacked s - int n\<rparr>))\<lparr>tc_recv_tcp_pending := tc_unacked s - int n\<rparr>"
  obtain s2 failed where s2: "client_socks_recv_send_out lw s1 = (s2, failed)"
    by fastforce
  define s3 where "s3 =
    (if tc_recv_buf_used s > 0 then
       if failed then s2
       else let s2 = ensure (tc_recv_tcp_pending s2 > 0) s2 in
         if tc_recv_buf_used s2 = -1 \<and> \<not> tc_socks_closed s2 then sync_commit jobs (client_socks_recv_initiate s2) else s2
     else if tc_socks_closed s0 \<and> tc_recv_tcp_pending s0 = 0 then client_free_client lw s0 else s0)"
  have w: "tc_recv_buf_used s > 0 \<Longrightarrow> tc_recv_waiting s \<and> tc_recv_buf_sent s < tc_recv_buf_used s"
    using o(3) up(1) by (auto simp: relay_open_def)
  have "dead_result s3 = (s', err)"
  proof (cases "tc_recv_buf_used s > 0")
    case True
    then show ?thesis
      using r o(1) up n w s2 unfolding s3_def s1_def by (simp add: client_sent_func_def Let_def dead_enter_frame dn)
  next
    case False
    then show ?thesis
      using r o(1) up n unfolding s3_def s0_def
      by (auto simp: client_sent_func_def Let_def dead_enter_frame dn split: if_splits)
  qed
  moreover have "relay_inv s3 \<and> tc_dead s3 = DeadFrame"
  proof (cases "tc_recv_buf_used s > 0")
    case True
    have "relay_ok s1" "relay_busy s1"
      using o(2,5,6) ab by (auto simp: s1_def dead_enter_frame dn relay_ok_def relay_busy_def waiting_bytes_def)
    then have "relay_passing s1"
      using o(1-4) up n(2) True unfolding relay_passing_def by (auto simp: s1_def dead_enter_frame dn relay_open_def relay_ok_def)
    moreover have "0 < tc_recv_buf_used s1" "tc_recv_buf_sent s1 < tc_recv_buf_used s1" "\<not> tc_recv_waiting s1"
      using True w by (simp_all add: s1_def dead_enter_frame dn)
    ultimately have out: "failed \<Longrightarrow> relay_inv s2"
      "\<not> failed \<Longrightarrow> relay_passing s2 \<and> 0 < tc_recv_tcp_pending s2 \<and> tc_socks_closed s2 = tc_socks_closed s1 \<and>
        (tc_recv_buf_used s2 = -1 \<or> 0 < tc_recv_buf_used s2 \<and> tc_recv_buf_sent s2 < tc_recv_buf_used s2 \<and> tc_recv_waiting s2)"
      using send_out_ok [OF _ _ _ _ s2] by blast+
    have "tc_dead s2 = DeadFrame"
      using dead_same_send_out [OF s2] by (simp add: s1_def dead_enter_frame dn)
    then show ?thesis
      using True out passing_initiate [of s2] passing_open [of s2] sync_commit_inv by (auto simp: s3_def Let_def)
  next
    case False
    then have u: "tc_recv_buf_used s = -1"
      using o(3) up(1) by (auto simp: relay_open_def)
    have ok: "relay_ok s0" "relay_busy s0"
      using o(2,5,6) ab u by (auto simp: s0_def dead_enter_frame dn relay_ok_def relay_busy_def waiting_bytes_def)
    have "relay_open s0" if "\<not> (tc_socks_closed s0 \<and> tc_recv_tcp_pending s0 = 0)"
      using o(3) u up n(2) that by (auto simp: s0_def dead_enter_frame dn relay_open_def)
    then have "relay_inv s0" if "\<not> (tc_socks_closed s0 \<and> tc_recv_tcp_pending s0 = 0)"
      using that ok o(1,2) by (simp add: relay_inv_def) (simp add: s0_def dead_enter_frame dn)
    moreover have "relay_inv (client_free_client lw s0)"
      using ok o(1,2,4) by (intro free_client_inv) (simp_all add: s0_def dead_enter_frame dn)
    moreover have "tc_dead s0 = DeadFrame"
      by (simp add: s0_def dead_enter_frame dn)
    ultimately show ?thesis
      using False by (simp add: s3_def dead_same_close)
  qed
  ultimately show ?thesis
    using dead_result_inv by metis
qed

lemma err_func_inv:
  assumes "relay_inv s" "tc_pcb s = PcbLive"
  shows "relay_inv (client_err_func lw (s\<lparr>tc_pcb := PcbFreed, tc_err_cb := False, tc_recv_cb := False, tc_sent_cb := False\<rparr>))"
proof -
  note o = open_facts [OF assms(1)] assms(2)
  have "relay_ok (s\<lparr>tc_pcb := PcbFreed, tc_err_cb := False, tc_recv_cb := False, tc_sent_cb := False\<rparr>)"
    using o by (auto simp: relay_ok_def waiting_bytes_def)
  moreover have "relay_busy (s\<lparr>tc_pcb := PcbFreed, tc_err_cb := False, tc_recv_cb := False, tc_sent_cb := False\<rparr>)"
    using o by (auto simp: relay_busy_def)
  ultimately show ?thesis
    unfolding client_err_func_def using o by (intro handle_freed_inv) (auto simp: relay_detached_def)
qed

lemma murder_inv:
  assumes i: "relay_inv s" "\<not> tc_freed s"
  shows "relay_inv (client_murder s) \<and> tc_freed (client_murder s) \<and> tc_dead (client_murder s) = tc_dead s"
proof -
  define s1 where "s1 = (if \<not> tc_client_closed s then (client_abort_pcb (remove_callbacks s))\<lparr>tc_client_closed := True\<rparr> else s)"
  define s2 where "s2 = (if \<not> tc_socks_closed s1 then (socks_free s1)\<lparr>tc_socks_closed := True\<rparr> else s1)"
  have "relay_ok s1 \<and> relay_detached s1 \<and> tc_client_closed s1 \<and> \<not> tc_freed s1 \<and> tc_dead s1 = tc_dead s"
  proof (cases "tc_client_closed s")
    case True
    then show ?thesis
      using i by (simp add: s1_def relay_inv_def)
  next
    case False
    then have o: "relay_ok s" "relay_busy s" "tc_pcb s = PcbLive"
      using i by (auto simp: relay_inv_def relay_open_def)
    let ?t = "client_abort_pcb (remove_callbacks s)"
    have "relay_ok ?t" "relay_detached ?t" "\<not> tc_freed ?t"
      using abort_pcb_detached [OF o i(2) False] by auto
    then have "relay_ok (?t\<lparr>tc_client_closed := True\<rparr>)" "relay_detached (?t\<lparr>tc_client_closed := True\<rparr>)"
      by (auto simp: relay_ok_def relay_detached_def waiting_bytes_def)
    then show ?thesis
      using False \<open>\<not> tc_freed ?t\<close> by (simp add: s1_def)
  qed
  then have "relay_ok s2 \<and> relay_detached s2 \<and> tc_client_closed s2 \<and> tc_socks_closed s2 \<and> \<not> tc_freed s2 \<and> tc_dead s2 = tc_dead s"
    by (auto simp: s2_def socks_free_def relay_ok_def relay_detached_def waiting_bytes_def)
  moreover have "client_murder s = client_dealloc s2"
    by (simp add: client_murder_def s1_def s2_def Let_def)
  moreover have "tc_freed (client_dealloc s2)"
    by (simp add: client_dealloc_def Let_def)
  ultimately show ?thesis
    using dealloc_inv by simp
qed

lemma accept_cases:
  assumes "listener_accept_func opts auths pcb c n k u jobs = (Some (s, sc), auths', err)"
  obtains username remote where
    "dead_result (sync_commit jobs (dead_enter (new_client (baddr_from_lwip (local_ip pcb) (local_port pcb)) remote username u)))
       = (s, err)"
    "BSocksClient_Init True auths' (baddr_from_lwip (local_ip pcb) (local_port pcb)) = Some sc"
  using assms by (cases k) (auto simp: listener_accept_func_def Let_def BSocksClient_Init_def split: if_splits option.splits prod.splits)

lemma accept_inv:
  assumes "listener_accept_func opts auths pcb c n k u jobs = (Some (s, sc), auths', err)"
  shows "relay_inv s \<and> tc_dead s \<noteq> DeadFrame \<and> (err = ERR_ABRT \<longleftrightarrow> tc_pcb s = PcbAborted)"
proof -
  obtain l r name where d: "dead_result (sync_commit jobs (dead_enter (new_client l r name u))) = (s, err)"
    using accept_cases [OF assms] by blast
  have i: "relay_inv (dead_enter (new_client l r name u))" "tc_dead (dead_enter (new_client l r name u)) = DeadFrame"
    by (simp_all add: relay_inv_def relay_defs dead_enter_def new_client_def)
  from dead_result_inv [OF sync_commit_inv [OF i(1)] _ d] i(2) show ?thesis
    by simp
qed

subsection \<open>The life of a client\<close>

text \<open>
  What lwIP does to a client. It calls the functions that are registered, on a pcb that is
  alive: \<open>tcp_err\<close> after having freed the pcb, \<open>tcp_recv\<close> with data that fits the window it
  announced or with \<open>NULL\<close>, \<open>tcp_sent\<close> for data that was written and not yet acknowledged.
\<close>

datatype lwip_input = LwErr | LwRecv "byte list option" | LwSent nat

fun lwip_step :: "lwip \<Rightarrow> (lwip \<times> relay_input) list \<Rightarrow> lwip_input \<Rightarrow> tcp_client \<Rightarrow> (tcp_client \<times> err_t) option" where
  "lwip_step lw jobs LwErr s =
     (if tc_err_cb s \<and> tc_pcb s = PcbLive
      then Some (client_err_func lw (s\<lparr>tc_pcb := PcbFreed, tc_err_cb := False, tc_recv_cb := False, tc_sent_cb := False\<rparr>), ERR_OK)
      else None)"
| "lwip_step lw jobs (LwRecv None) s =
     (if tc_recv_cb s \<and> tc_pcb s = PcbLive then Some (client_recv_func lw jobs None s) else None)"
| "lwip_step lw jobs (LwRecv (Some d)) s =
     (if tc_recv_cb s \<and> tc_pcb s = PcbLive \<and> d \<noteq> [] \<and> int (length d) \<le> tc_window s
      then Some (client_recv_func lw jobs (Some d)
             (s\<lparr>tc_window := tc_window s - int (length d), tc_from_client := tc_from_client s @ d\<rparr>))
      else None)"
| "lwip_step lw jobs (LwSent n) s =
     (if tc_sent_cb s \<and> tc_pcb s = PcbLive \<and> 0 < n \<and> int n \<le> tc_unacked s
      then Some (client_sent_func lw jobs n (s\<lparr>tc_unacked := tc_unacked s - int n\<rparr>))
      else None)"

inductive relay_reach :: "tcp_client \<Rightarrow> bool" where
  accept: "listener_accept_func opts auths pcb c n k u jobs = (Some (s, sc), auths', err) \<Longrightarrow> relay_reach s"
| socks: "relay_reach s \<Longrightarrow> socks_input_handler lw i s = Some s' \<Longrightarrow> relay_reach s'"
| lwip: "relay_reach s \<Longrightarrow> lwip_step lw jobs j s = Some (s', err) \<Longrightarrow> relay_reach s'"
| murder: "relay_reach s \<Longrightarrow> \<not> tc_freed s \<Longrightarrow> relay_reach (client_murder s)"

lemma lwip_step_inv:
  assumes "relay_inv s" "tc_dead s \<noteq> DeadFrame" "lwip_step lw jobs j s = Some (s', err)"
  shows "relay_inv s' \<and> tc_dead s' \<noteq> DeadFrame \<and>
    (j \<noteq> LwErr \<longrightarrow> (err = ERR_ABRT \<longleftrightarrow> tc_pcb s' = PcbAborted) \<and> (err = ERR_OK \<or> err = ERR_ABRT))"
proof -
  note dn = live_dead_null [OF assms(1) _ assms(2)]
  show ?thesis
  proof (cases "(lw, jobs, j, s)" rule: lwip_step.cases)
    case (1 lw' jobs' s0)
    then have "s' = client_err_func lw (s\<lparr>tc_pcb := PcbFreed, tc_err_cb := False, tc_recv_cb := False, tc_sent_cb := False\<rparr>)"
      "tc_pcb s = PcbLive" "j = LwErr"
      using assms(3) by (auto split: if_splits)
    then show ?thesis
      using err_func_inv [OF assms(1)] assms(2) by (simp add: client_err_func_def dead_same_close)
  next
    case (2 lw' jobs' s0)
    then have "client_recv_func lw jobs None s = (s', err)" "tc_recv_cb s" "tc_pcb s = PcbLive"
      using assms(3) by (auto split: if_splits)
    then show ?thesis
      using recv_close_inv [OF assms(1)] dn by blast
  next
    case (3 lw' jobs' d s0)
    then have "client_recv_func lw jobs (Some d)
        (s\<lparr>tc_window := tc_window s - int (length d), tc_from_client := tc_from_client s @ d\<rparr>) = (s', err)"
      "tc_recv_cb s" "tc_pcb s = PcbLive" "int (length d) \<le> tc_window s" "d \<noteq> []"
      using assms(3) by (auto split: if_splits)
    then show ?thesis
      using recv_func_inv [OF assms(1)] dn by blast
  next
    case (4 lw' jobs' n s0)
    then have "client_sent_func lw jobs n (s\<lparr>tc_unacked := tc_unacked s - int n\<rparr>) = (s', err)"
      "tc_sent_cb s" "tc_pcb s = PcbLive" "0 < n" "int n \<le> tc_unacked s"
      using assms(3) by (auto split: if_splits)
    then show ?thesis
      using sent_func_inv [OF assms(1)] dn by blast
  qed
qed

lemma reach_inv:
  assumes "relay_reach s"
  shows "relay_inv s \<and> tc_dead s \<noteq> DeadFrame"
  using assms
proof (induction rule: relay_reach.induct)
  case (accept opts auths pcb c n k u jobs s sc auths' err)
  then show ?case
    using accept_inv by blast
next
  case (socks s lw i s')
  then show ?case
    using socks_input_inv dead_same_socks_input by metis
next
  case (lwip s lw jobs j s' err)
  then show ?case
    using lwip_step_inv by blast
next
  case (murder s)
  then show ?case
    using murder_inv by simp
qed

subsection \<open>Properties\<close>

text \<open>
  A client that has been accepted, whose SOCKS connection came up, that has received bytes
  from both sides and waits for lwIP to take the rest of a block.
\<close>

definition relay_sample :: "tcp_client option" where
  "relay_sample =
     (let lw = \<lparr>lw_close = ERR_OK, lw_sndbuf = (\<lambda>i. if i = 0 then 2 else 0), lw_write = (\<lambda>i. ERR_OK), lw_output = ERR_OK\<rparr> in
      case listener_accept_func \<lparr>opt_username = Some ''u'', append_source_to_username = False\<rparr> [Auth_None, Auth_Password [1] [2]]
             \<lparr>local_ip = Ip4 1, local_port = 80, remote_ip = Ip4 2, remote_port = 99\<rparr> True True True (7, 9, True, 3) [] of
        (None, _) \<Rightarrow> None
      | (Some (s, _), _) \<Rightarrow>
          (case lwip_step lw [] (LwRecv (Some [1, 2, 3])) s of
             None \<Rightarrow> None
           | Some (s, _) \<Rightarrow>
               (case socks_input_handler lw (Event EVENT_UP) s of
                  None \<Rightarrow> None
                | Some s \<Rightarrow> socks_input_handler lw (Received [5, 6, 7, 8]) s)))"

lemmas relay_eval = relay_sample_def accept_username_def concat_strings_def BSocksClient_Init_def listener_accept_func_def new_client_def client_recv_func_def client_socks_handler_def
  client_socks_recv_handler_done_def client_socks_recv_send_out_def client_socks_recv_initiate_def client_send_to_socks_def
  sender_start_def dead_result_def dead_enter_def dead_leave_def ensure_def Let_def

lemma relay_sample_value:
  obtains s where "relay_sample = Some s" "tc_to_client s = [5, 6]" "tc_buf s = [1, 2, 3]" "tc_sending s = Some 3"
    "waiting_bytes s = [7, 8]" "tc_sent_cb s" "tc_pcb s = PcbLive" "tc_unacked s = 2" "\<not> tc_freed s" "tc_recv_cb s"
  by (simp add: relay_eval send_loop.simps waiting_bytes_def)

lemma relay_sample_reach:
  assumes "relay_sample = Some s"
  shows "relay_reach s"
  using assms unfolding relay_sample_def Let_def
  by (auto simp del: lwip_step.simps socks_input_handler.simps split: prod.splits option.splits
      intro!: relay_reach.socks [OF relay_reach.socks [OF relay_reach.lwip [OF relay_reach.accept]]])

text \<open>
  \<^bold>\<open>C7\<close>: in whatever order the events of lwIP and of SOCKS arrive, and whatever lwIP answers,
  no assertion of the relay fails and nothing that was freed is used. The bytes of the client
  are passed to SOCKS in order and without loss, those not yet passed are exactly the buffer,
  which never holds more than the window; and the same holds for the bytes from SOCKS.
\<close>

theorem relay_streams:
  assumes "relay_reach s"
  shows "\<not> tc_fault s \<and>
    tc_from_client s = tc_to_socks s @ tc_buf s \<and>
    tc_from_socks s = tc_to_client s @ waiting_bytes s \<and>
    (\<not> tc_client_closed s \<and> \<not> tc_socks_closed s \<longrightarrow> tc_window s + int (length (tc_buf s)) = int TCP_WND)"
  using reach_inv [OF assms] by (auto simp: relay_inv_def relay_ok_def relay_open_def)

theorem relay_streams_witness:
  "\<exists>s. relay_sample = Some s \<and> \<not> tc_fault s \<and> tc_from_client s = tc_to_socks s @ [1, 2, 3] \<and>
     tc_from_socks s = [5, 6] @ [7, 8]"
proof -
  obtain s where s: "relay_sample = Some s" "tc_to_client s = [5, 6]" "tc_buf s = [1, 2, 3]" "waiting_bytes s = [7, 8]"
    using relay_sample_value by metis
  then show ?thesis
    using relay_streams [OF relay_sample_reach [OF s(1)]] by (intro exI [of _ s]) simp
qed

text \<open>
  \<^bold>\<open>C8\<close>: a callback tells lwIP \<open>ERR_ABRT\<close> exactly when the pcb was aborted while it ran, also
  when this happened in a job run by \<open>SYNC_COMMIT\<close>; otherwise it returns \<open>ERR_OK\<close>.
\<close>

theorem relay_abort_reported:
  assumes "relay_reach s" "lwip_step lw jobs j s = Some (s', err)" "j \<noteq> LwErr"
  shows "err = (if tc_pcb s' = PcbAborted then ERR_ABRT else ERR_OK)"
  using lwip_step_inv [OF _ _ assms(2)] reach_inv [OF assms(1)] assms(3) by auto

theorem relay_abort_reported_witness:
  "\<exists>s. relay_sample = Some s \<and>
     (\<exists>s' err. lwip_step \<lparr>lw_close = ERR_OK, lw_sndbuf = (\<lambda>i. 9), lw_write = (\<lambda>i. ERR_CONN), lw_output = ERR_OK\<rparr> [] (LwSent 1) s
          = Some (s', err) \<and>
        err = (if tc_pcb s' = PcbAborted then ERR_ABRT else ERR_OK))"
proof -
  obtain s where s: "relay_sample = Some s" "tc_sent_cb s" "tc_pcb s = PcbLive" "tc_unacked s = 2"
    using relay_sample_value by metis
  let ?lw = "\<lparr>lw_close = ERR_OK, lw_sndbuf = (\<lambda>i. 9), lw_write = (\<lambda>i. ERR_CONN), lw_output = ERR_OK\<rparr>"
  obtain s' err where step: "lwip_step ?lw [] (LwSent 1) s = Some (s', err)"
    using s(2-4) by (cases "client_sent_func ?lw [] 1 (s\<lparr>tc_unacked := tc_unacked s - 1\<rparr>)") simp
  have "err = (if tc_pcb s' = PcbAborted then ERR_ABRT else ERR_OK)"
    by (rule relay_abort_reported [OF relay_sample_reach [OF s(1)] step]) simp
  then show ?thesis
    by (intro exI [of _ s] exI [of _ s'] exI [of _ err] conjI s(1) step)
qed

text \<open>
  \<^bold>\<open>C9\<close>: the relay never gets stuck. A client that is not freed waits for the SOCKS connection
  to come up, or for an outstanding send or receive, or for lwIP to acknowledge data; and
  bytes in either buffer always have an operation under way that will move them on.
\<close>

theorem relay_never_stuck:
  assumes "relay_reach s" "\<not> tc_freed s"
  shows "(tc_socks_client s \<and> \<not> tc_socks_up s \<or> tc_sending s \<noteq> None \<or> tc_receiving s \<or> tc_sent_cb s \<and> 0 < tc_unacked s) \<and>
    (tc_socks_up s \<and> \<not> tc_socks_closed s \<and> tc_buf s \<noteq> [] \<longrightarrow> tc_sending s \<noteq> None) \<and>
    (\<not> tc_client_closed s \<and> waiting_bytes s \<noteq> [] \<longrightarrow> tc_sent_cb s \<and> 0 < tc_unacked s)"
proof -
  have i: "relay_ok s" "relay_busy s" "tc_client_closed s \<Longrightarrow> \<not> tc_socks_closed s \<and> tc_buf s \<noteq> []"
    "\<not> tc_client_closed s \<Longrightarrow> relay_open s"
    using reach_inv [OF assms(1)] assms(2) by (simp_all add: relay_inv_def)
  have c: "tc_socks_client s = (\<not> tc_socks_closed s)"
    using i(1) by (simp add: relay_ok_def)
  have w: "tc_sent_cb s \<and> 0 < tc_unacked s" if "\<not> tc_client_closed s" "waiting_bytes s \<noteq> []"
    using i(4) that by (auto simp: relay_open_def waiting_bytes_def split: if_splits)
  have "tc_socks_client s \<and> \<not> tc_socks_up s \<or> tc_receiving s \<or> tc_sent_cb s \<and> 0 < tc_unacked s" if "\<not> tc_client_closed s"
    using i(4) [OF that] c by (cases "tc_socks_closed s"; cases "tc_socks_up s") (auto simp: relay_open_def)
  moreover have "tc_socks_client s \<and> \<not> tc_socks_up s \<or> tc_sending s \<noteq> None" if "tc_client_closed s"
    using i(2,3) that c unfolding relay_busy_def by blast
  ultimately show ?thesis
    using i(2) w unfolding relay_busy_def by blast
qed

theorem relay_never_stuck_witness:
  "\<exists>s. relay_sample = Some s \<and> waiting_bytes s = [7, 8] \<and> tc_sent_cb s \<and> 0 < tc_unacked s"
proof -
  obtain s where s: "relay_sample = Some s" "waiting_bytes s = [7, 8]" "\<not> tc_freed s" "tc_recv_cb s" "tc_pcb s = PcbLive"
    using relay_sample_value by metis
  have "\<not> tc_client_closed s"
    using open_facts(1) reach_inv [OF relay_sample_reach [OF s(1)]] s(4) by blast
  then show ?thesis
    using relay_never_stuck [OF relay_sample_reach [OF s(1)] s(3)] s(1,2) by (intro exI [of _ s]) simp
qed

text \<open>
  \<^bold>\<open>C10\<close>: a client is freed exactly when both halves are closed, and then lwIP and SOCKS keep no
  pointer to it: no callback is registered, the pcb was closed, aborted or freed, the SOCKS
  client is freed and the client is off the list. \<open>client_murder\<close> always gets there.
\<close>

theorem relay_freed_released:
  assumes "relay_reach s"
  shows "(tc_freed s \<longleftrightarrow> tc_client_closed s \<and> tc_socks_closed s) \<and>
    (tc_freed s \<longrightarrow> \<not> tc_err_cb s \<and> \<not> tc_recv_cb s \<and> \<not> tc_sent_cb s \<and> tc_pcb s \<noteq> PcbLive \<and>
      \<not> tc_socks_client s \<and> tc_sending s = None \<and> \<not> tc_receiving s \<and> \<not> tc_listed s) \<and>
    (\<not> tc_freed s \<longrightarrow> tc_freed (client_murder s) \<and> \<not> tc_fault (client_murder s))"
proof -
  have i: "relay_inv s"
    using reach_inv [OF assms] by blast
  have "tc_freed s \<longleftrightarrow> tc_client_closed s \<and> tc_socks_closed s"
    using i by (auto simp: relay_inv_def split: if_splits)
  moreover have "\<not> tc_err_cb s \<and> \<not> tc_recv_cb s \<and> \<not> tc_sent_cb s \<and> tc_pcb s \<noteq> PcbLive \<and>
      \<not> tc_socks_client s \<and> tc_sending s = None \<and> \<not> tc_receiving s \<and> \<not> tc_listed s" if "tc_freed s"
    using i that by (cases "tc_sending s") (auto simp: relay_inv_def relay_detached_def relay_ok_def split: if_splits)
  moreover have "tc_freed (client_murder s) \<and> \<not> tc_fault (client_murder s)" if "\<not> tc_freed s"
    using murder_inv [OF i that] by (auto simp: relay_inv_def relay_ok_def)
  ultimately show ?thesis
    by simp
qed

theorem relay_freed_released_witness:
  "\<exists>s. relay_sample = Some s \<and> tc_freed (client_murder s) \<and> \<not> tc_fault (client_murder s) \<and> \<not> tc_listed (client_murder s)"
proof -
  obtain s where s: "relay_sample = Some s" "\<not> tc_freed s"
    using relay_sample_value by metis
  note r = relay_sample_reach [OF s(1)]
  have "tc_freed (client_murder s) \<and> \<not> tc_fault (client_murder s)"
    using relay_freed_released [OF r] s(2) by simp
  then show ?thesis
    using relay_freed_released [OF relay_reach.murder [OF r s(2)]] s(1) by (intro exI [of _ s]) simp
qed

end
