(* ===== verification/LwipChecksum.thy ===== *)
theory LwipChecksum
  imports Packets
begin

text \<open>
  The Internet checksum of lwIP (\<^verbatim>\<open>lwip/src/core/inet_chksum.c\<close>): the three versions of
  \<open>lwip_standard_chksum\<close> that can be selected at compile time (the second one is compiled),
  the sum over a chain of pbufs and the pseudo headers of IPv4 and IPv6.

  A buffer is its address, which decides the alignment, and its bytes. The reference is the
  one's complement sum of the little-endian words (\<open>ones\<close>, \<open>le_sum\<close>). The lemmas show that the
  three versions agree with it for every alignment, that the chain of pbufs is summed as if
  it were one buffer, and that the result is the checksum of the rest of the program
  (\<open>ipv4_checksum\<close>) and is accepted by the receiver's check of RFC 1071.
\<close>

subsection \<open>Byte order and folding\<close>

definition lwip_htons :: "u16 \<Rightarrow> u16" where
  "lwip_htons n = push_bit 8 (n AND 0x00FF) OR drop_bit 8 (n AND 0xFF00)"

definition FOLD_U32T :: "u32 \<Rightarrow> u32" where
  "FOLD_U32T u = drop_bit 16 u + (u AND 0x0000FFFF)"

definition SWAP_BYTES_IN_WORD :: "u32 \<Rightarrow> u32" where
  "SWAP_BYTES_IN_WORD w = push_bit 8 (w AND 0xFF) OR drop_bit 8 (w AND 0xFF00)"

subsection \<open>The three versions\<close>

text \<open>Version 1: byte pairs in network order.\<close>

fun chksum1_loop :: "u32 \<Rightarrow> byte list \<Rightarrow> u32" where
  "chksum1_loop acc (a # b # d) = chksum1_loop (acc + ucast (push_bit 8 (ucast a) OR ucast b :: u16)) d"
| "chksum1_loop acc [a] = acc + ucast (push_bit 8 (ucast a) :: u16)"
| "chksum1_loop acc [] = acc"

definition lwip_standard_chksum1 :: "byte list \<Rightarrow> u16" where
  "lwip_standard_chksum1 d =
     (let acc = chksum1_loop 0 d;
          acc = drop_bit 16 acc + (acc AND 0x0000FFFF);
          acc = (if acc AND 0xFFFF0000 \<noteq> 0 then drop_bit 16 acc + (acc AND 0x0000FFFF) else acc)
      in lwip_htons (ucast acc))"

text \<open>
  Versions 2 and 3 read aligned words. The odd bytes at both ends go to the halves of \<open>t\<close>:
  the first byte of an odd buffer to the upper, a last single byte to the lower one.
\<close>

definition chksum_head :: "nat \<Rightarrow> byte list \<Rightarrow> u16 \<times> nat \<times> byte list" where
  "chksum_head addr d =
     (if odd addr \<and> d \<noteq> [] then (push_bit 8 (ucast (hd d)), addr + 1, tl d) else (0, addr, d))"

fun chksum_words :: "u32 \<Rightarrow> byte list \<Rightarrow> u32 \<times> byte list" where
  "chksum_words sm (a # b # d) = chksum_words (sm + ucast (mem16 a b)) d"
| "chksum_words sm d = (sm, d)"

definition chksum_tail :: "u16 \<Rightarrow> byte list \<Rightarrow> u16" where
  "chksum_tail t d = (if d \<noteq> [] then (t AND 0xFF00) OR ucast (hd d) else t)"

definition chksum_finish :: "bool \<Rightarrow> u32 \<Rightarrow> u16" where
  "chksum_finish od sm =
     (let sm = FOLD_U32T sm;
          sm = FOLD_U32T sm;
          sm = (if od then SWAP_BYTES_IN_WORD sm else sm)
      in ucast sm)"

definition lwip_standard_chksum2 :: "nat \<Rightarrow> byte list \<Rightarrow> u16" where
  "lwip_standard_chksum2 addr d =
     (let (t, _, d) = chksum_head addr d;
          (sm, d) = chksum_words 0 d;
          t = chksum_tail t d
      in chksum_finish (odd addr) (sm + ucast t))"

text \<open>Version 3 adds eight bytes at a time, with the carry put back after each addition.\<close>

definition add_carry :: "u32 \<Rightarrow> u32 \<Rightarrow> u32" where
  "add_carry sm x = (let tmp = sm + x in if tmp < sm then tmp + 1 else tmp)"

fun chksum3_loop :: "u32 \<Rightarrow> byte list \<Rightarrow> u32 \<times> byte list" where
  "chksum3_loop sm (a # b # c # d # e # f # g # h # r) =
     chksum3_loop (add_carry (add_carry sm (mem32 a b c d)) (mem32 e f g h)) r"
| "chksum3_loop sm r = (sm, r)"

definition lwip_standard_chksum3 :: "nat \<Rightarrow> byte list \<Rightarrow> u16" where
  "lwip_standard_chksum3 addr d =
     (let (t, addr', d) = chksum_head addr d;
          (sm, d) = (if addr' mod 4 \<noteq> 0 \<and> length d > 1 then (ucast (mem16 (d ! 0) (d ! 1)), drop 2 d) else (0, d));
          (sm, d) = chksum3_loop sm d;
          (sm, d) = chksum_words (FOLD_U32T sm) d;
          t = chksum_tail t d
      in chksum_finish (odd addr) (sm + ucast t))"

abbreviation "LWIP_CHKSUM \<equiv> lwip_standard_chksum2"

subsection \<open>Checksums of buffers and of chains of pbufs\<close>

definition inet_chksum :: "nat \<Rightarrow> byte list \<Rightarrow> u16" where
  "inet_chksum dataptr d = NOT (LWIP_CHKSUM dataptr d)"

record pbuf =
  pbuf_payload :: nat
  pbuf_data :: "byte list"

definition chksum_step :: "u32 \<Rightarrow> bool \<Rightarrow> u16 \<Rightarrow> nat \<Rightarrow> u32 \<times> bool" where
  "chksum_step acc swapped sm len =
     (let acc = FOLD_U32T (acc + ucast sm)
      in if len mod 2 \<noteq> 0 then (SWAP_BYTES_IN_WORD acc, \<not> swapped) else (acc, swapped))"

fun chksum_chain :: "u32 \<Rightarrow> bool \<Rightarrow> pbuf list \<Rightarrow> u32" where
  "chksum_chain acc swapped [] = (if swapped then SWAP_BYTES_IN_WORD acc else acc)"
| "chksum_chain acc swapped (q # qs) =
     (let (acc, swapped) = chksum_step acc swapped (LWIP_CHKSUM (pbuf_payload q) (pbuf_data q)) (length (pbuf_data q))
      in chksum_chain acc swapped qs)"

definition inet_chksum_pbuf :: "pbuf list \<Rightarrow> u16" where
  "inet_chksum_pbuf p = ucast (NOT (chksum_chain 0 False p AND 0xFFFF))"

definition pseudo_finish :: "byte \<Rightarrow> u16 \<Rightarrow> u32 \<Rightarrow> u16" where
  "pseudo_finish proto proto_len acc =
     (let acc = acc + ucast (lwip_htons (ucast proto));
          acc = acc + ucast (lwip_htons proto_len);
          acc = FOLD_U32T acc;
          acc = FOLD_U32T acc
      in ucast (NOT (acc AND 0xFFFF)))"

definition inet_cksum_pseudo_base :: "pbuf list \<Rightarrow> byte \<Rightarrow> u16 \<Rightarrow> u32 \<Rightarrow> u16" where
  "inet_cksum_pseudo_base p proto proto_len acc = pseudo_finish proto proto_len (chksum_chain acc False p)"

text \<open>The loop stops after \<open>chksum_len\<close> bytes; whether to swap is still decided by the length of the pbuf.\<close>

fun chksum_chain_partial :: "u32 \<Rightarrow> bool \<Rightarrow> nat \<Rightarrow> pbuf list \<Rightarrow> u32" where
  "chksum_chain_partial acc swapped chksum_len [] = (if swapped then SWAP_BYTES_IN_WORD acc else acc)"
| "chksum_chain_partial acc swapped chksum_len (q # qs) =
     (if chksum_len > 0 then
        let chklen = min (length (pbuf_data q)) chksum_len;
            (acc, swapped) =
              chksum_step acc swapped (LWIP_CHKSUM (pbuf_payload q) (take chklen (pbuf_data q))) (length (pbuf_data q))
        in chksum_chain_partial acc swapped (chksum_len - chklen) qs
      else if swapped then SWAP_BYTES_IN_WORD acc else acc)"

definition inet_cksum_pseudo_partial_base :: "pbuf list \<Rightarrow> byte \<Rightarrow> u16 \<Rightarrow> nat \<Rightarrow> u32 \<Rightarrow> u16" where
  "inet_cksum_pseudo_partial_base p proto proto_len chksum_len acc =
     pseudo_finish proto proto_len (chksum_chain_partial acc False chksum_len p)"

definition add_addr :: "u32 \<Rightarrow> u32 \<Rightarrow> u32" where
  "add_addr acc addr = acc + (addr AND 0xFFFF) + (drop_bit 16 addr AND 0xFFFF)"

definition pseudo_acc4 :: "u32 \<Rightarrow> u32 \<Rightarrow> u32" where
  "pseudo_acc4 src dest = FOLD_U32T (FOLD_U32T (add_addr (add_addr 0 src) dest))"

definition inet_chksum_pseudo :: "pbuf list \<Rightarrow> byte \<Rightarrow> u16 \<Rightarrow> u32 \<Rightarrow> u32 \<Rightarrow> u16" where
  "inet_chksum_pseudo p proto proto_len src dest =
     inet_cksum_pseudo_base p proto proto_len (pseudo_acc4 src dest)"

definition inet_chksum_pseudo_partial :: "pbuf list \<Rightarrow> byte \<Rightarrow> u16 \<Rightarrow> nat \<Rightarrow> u32 \<Rightarrow> u32 \<Rightarrow> u16" where
  "inet_chksum_pseudo_partial p proto proto_len chksum_len src dest =
     inet_cksum_pseudo_partial_base p proto proto_len chksum_len (pseudo_acc4 src dest)"

text \<open>An IPv6 address is an array of four words; both addresses are added in one loop.\<close>

fun add_addr6 :: "u32 \<Rightarrow> u32 list \<Rightarrow> u32 list \<Rightarrow> u32" where
  "add_addr6 acc (s # src) (d # dest) = add_addr6 (add_addr (add_addr acc s) d) src dest"
| "add_addr6 acc _ _ = acc"

definition ip6_chksum_pseudo :: "pbuf list \<Rightarrow> byte \<Rightarrow> u16 \<Rightarrow> u32 list \<Rightarrow> u32 list \<Rightarrow> u16" where
  "ip6_chksum_pseudo p proto proto_len src dest =
     inet_cksum_pseudo_base p proto proto_len (FOLD_U32T (FOLD_U32T (add_addr6 0 src dest)))"

definition ip6_chksum_pseudo_partial :: "pbuf list \<Rightarrow> byte \<Rightarrow> u16 \<Rightarrow> nat \<Rightarrow> u32 list \<Rightarrow> u32 list \<Rightarrow> u16" where
  "ip6_chksum_pseudo_partial p proto proto_len chksum_len src dest =
     inet_cksum_pseudo_partial_base p proto proto_len chksum_len (FOLD_U32T (FOLD_U32T (add_addr6 0 src dest)))"

datatype lwip_addr = Addr4 u32 | Addr6 "u32 list"

text \<open>\<open>ip_chksum_pseudo\<close> looks at the type of the destination only; both addresses have the same type.\<close>

fun ip_chksum_pseudo :: "pbuf list \<Rightarrow> byte \<Rightarrow> u16 \<Rightarrow> lwip_addr \<Rightarrow> lwip_addr \<Rightarrow> u16 option" where
  "ip_chksum_pseudo p proto proto_len (Addr6 src) (Addr6 dest) = Some (ip6_chksum_pseudo p proto proto_len src dest)"
| "ip_chksum_pseudo p proto proto_len (Addr4 src) (Addr4 dest) = Some (inet_chksum_pseudo p proto proto_len src dest)"
| "ip_chksum_pseudo p proto proto_len _ _ = None"

fun ip_chksum_pseudo_partial :: "pbuf list \<Rightarrow> byte \<Rightarrow> u16 \<Rightarrow> nat \<Rightarrow> lwip_addr \<Rightarrow> lwip_addr \<Rightarrow> u16 option" where
  "ip_chksum_pseudo_partial p proto proto_len chksum_len (Addr6 src) (Addr6 dest) =
     Some (ip6_chksum_pseudo_partial p proto proto_len chksum_len src dest)"
| "ip_chksum_pseudo_partial p proto proto_len chksum_len (Addr4 src) (Addr4 dest) =
     Some (inet_chksum_pseudo_partial p proto proto_len chksum_len src dest)"
| "ip_chksum_pseudo_partial p proto proto_len chksum_len _ _ = None"

subsection \<open>One's complement arithmetic\<close>

text \<open>The value in \<open>0 \<dots> 0xFFFF\<close> that represents a sum; \<open>0\<close> only for the sum \<open>0\<close>.\<close>

definition ones :: "nat \<Rightarrow> nat" where
  "ones n = (if n = 0 then 0 else (n - 1) mod 65535 + 1)"

fun le_sum :: "byte list \<Rightarrow> nat" where
  "le_sum (a # b # d) = unat a + 256 * unat b + le_sum d"
| "le_sum [a] = unat a"
| "le_sum [] = 0"

lemma ones_less: "ones n < 65536"
  by (simp add: ones_def)

lemma ones_mod: "ones n mod 65535 = n mod 65535"
  by (cases n) (simp_all add: ones_def mod_simps)

lemma ones_eq_0 [simp]: "ones n = 0 \<longleftrightarrow> n = 0"
  by (simp add: ones_def)

lemma ones_unique:
  assumes "v < 65536" "v mod 65535 = n mod 65535" "v = 0 \<longleftrightarrow> n = 0"
  shows "v = ones n"
proof (cases "v = 0 \<or> v = 65535")
  case True
  then have "v = 0 \<or> n mod 65535 = 0 \<and> v = 65535"
    using assms(2) by auto
  moreover have "(n - 1) mod 65535 = 65534" if "n mod 65535 = 0" "n \<noteq> 0"
  proof -
    obtain k where "n = 65535 * Suc k"
      using \<open>n mod 65535 = 0\<close> \<open>n \<noteq> 0\<close> by (metis mod_0_imp_dvd dvdE mult_0_right not0_implies_Suc)
    then have "n - 1 = 65535 * k + 65534"
      by simp
    then show ?thesis
      by simp
  qed
  ultimately show ?thesis
    using assms(3) by (auto simp: ones_def)
next
  case False
  then have v: "0 < v" "v < 65535" "n mod 65535 = v" "n \<noteq> 0"
    using assms by auto
  then have "n - 1 = 65535 * (n div 65535) + (v - 1)"
    using div_mult_mod_eq [of n 65535] by linarith
  then have "(n - 1) mod 65535 = (v - 1) mod 65535"
    by (simp only: mod_mult_self4)
  then show ?thesis
    using v by (simp add: ones_def)
qed

text \<open>Equality of sums modulo \<open>0xFFFF\<close>.\<close>

definition eqm :: "nat \<Rightarrow> nat \<Rightarrow> bool" where
  "eqm m n \<longleftrightarrow> m mod 65535 = n mod 65535"

lemma eqm_refl [simp]: "eqm n n"
  by (simp add: eqm_def)

lemma eqm_sym: "eqm m n \<Longrightarrow> eqm n m"
  by (simp add: eqm_def)

lemma eqm_trans [trans]: "eqm k m \<Longrightarrow> eqm m n \<Longrightarrow> eqm k n"
  by (simp add: eqm_def)

lemma eqm_add: "eqm k l \<Longrightarrow> eqm m n \<Longrightarrow> eqm (k + m) (l + n)"
  unfolding eqm_def by (rule mod_add_cong)

lemma eqm_mult: "eqm m n \<Longrightarrow> eqm (k * m) (k * n)"
  unfolding eqm_def by (rule mod_mult_cong [OF refl])

lemma eqm_carry: "eqm (65536 * n + m) (n + m)"
  unfolding eqm_def using mod_mult_self4 [of 65535 n "n + m"] by (simp add: algebra_simps)

lemma eqm_swap: "eqm (256 * (256 * n + m)) (n + 256 * m)"
  using eqm_carry [of n "256 * m"] by (simp add: algebra_simps)

lemma eqm_ones: "eqm (ones n) n"
  by (simp add: eqm_def ones_mod)

lemma ones_cong: "eqm m n \<Longrightarrow> (m = 0 \<longleftrightarrow> n = 0) \<Longrightarrow> ones m = ones n"
  by (intro ones_unique) (simp_all add: ones_less ones_mod eqm_def)

lemma ones_eq: "v < 65536 \<Longrightarrow> eqm v n \<Longrightarrow> (v = 0 \<longleftrightarrow> n = 0) \<Longrightarrow> v = ones n"
  by (intro ones_unique) (simp_all add: eqm_def)

lemma le_sum_Cons: "eqm (le_sum (a # d)) (unat a + 256 * le_sum d)"
proof (induction d arbitrary: a)
  case (Cons b d)
  have "eqm (256 * le_sum (b # d)) (256 * (256 * le_sum d + unat b))"
    using Cons [of b] by (intro eqm_mult) (simp add: add.commute)
  also have "eqm \<dots> (le_sum d + 256 * unat b)"
    by (rule eqm_swap)
  finally have "eqm (unat a + 256 * le_sum (b # d)) (unat a + (le_sum d + 256 * unat b))"
    by (intro eqm_add eqm_refl)
  then show ?case
    by (intro eqm_sym [of _ "le_sum (a # b # d)"]) (simp add: add.commute add.left_commute)
qed simp

lemma le_sum_append:
  "even (length xs) \<Longrightarrow> le_sum (xs @ ys) = le_sum xs + le_sum ys"
  by (induction xs rule: le_sum.induct) auto

lemma le_sum_append_odd:
  assumes "odd (length xs)"
  shows "eqm (le_sum (xs @ ys)) (le_sum xs + 256 * le_sum ys)"
proof -
  obtain zs a where xs: "xs = zs @ [a]" "even (length zs)"
    using assms by (cases xs rule: rev_cases) auto
  then show ?thesis
    using eqm_add [OF eqm_refl [of "le_sum zs"] le_sum_Cons [of a ys]] by (simp add: le_sum_append add.assoc)
qed

lemma le_sum_eq_0: "le_sum d = 0 \<longleftrightarrow> set d \<subseteq> {0}"
  by (induction d rule: le_sum.induct) (auto simp: unsigned_eq_0_iff)

lemma le_sum_le: "le_sum d \<le> 65535 * ((length d + 1) div 2)"
proof (induction d rule: le_sum.induct)
  case (1 a b d)
  then show ?case
    using unat_byte_less [of a] unat_byte_less [of b] by simp
next
  case (2 a)
  then show ?case
    using unat_byte_less [of a] by simp
qed simp

lemma le_sum_bound: "length d \<le> 0x20000 \<Longrightarrow> le_sum d \<le> 0xFFFF0000"
proof -
  assume "length d \<le> 0x20000"
  then have "(length d + 1) div 2 \<le> 0x10000"
    by simp
  then show ?thesis
    using le_sum_le [of d] by simp
qed

subsection \<open>Folding and swapping on words\<close>

lemma unat_FOLD_U32T: "unat (FOLD_U32T u) = unat u mod 65536 + unat u div 65536"
  using fold_step_unat [of u] by (simp add: FOLD_U32T_def add.commute)

lemma FOLD_eqm: "eqm (unat (FOLD_U32T u)) (unat u)"
proof -
  have "eqm (unat u) (unat u div 65536 + unat u mod 65536)"
    using eqm_carry [of "unat u div 65536" "unat u mod 65536"] by simp
  then show ?thesis
    by (simp add: unat_FOLD_U32T eqm_sym add.commute)
qed

lemma FOLD_eq_0: "unat (FOLD_U32T u) = 0 \<longleftrightarrow> unat u = 0"
proof
  assume "unat (FOLD_U32T u) = 0"
  then have "unat u mod 65536 = 0" "unat u div 65536 = 0"
    by (simp_all add: unat_FOLD_U32T)
  then show "unat u = 0"
    using div_mult_mod_eq [of "unat u" 65536] by simp
qed (simp add: unat_FOLD_U32T)

lemma unat_u32_less: "unat (u :: u32) < 65536 * 65536"
  using unsigned_less [of u] by simp

lemma FOLD_small: "unat u \<le> 131070 \<Longrightarrow> unat (FOLD_U32T u) < 65536"
proof -
  assume u: "unat u \<le> 131070"
  then have "unat u div 65536 \<le> 1"
    by simp
  moreover have "unat u mod 65536 = unat u - 65536 * (unat u div 65536)"
    by (simp add: minus_mult_div_eq_mod)
  ultimately show ?thesis
    using u unfolding unat_FOLD_U32T by (cases "unat u div 65536 = 0") auto
qed

lemma unat_FOLD: "unat u \<le> 131070 \<Longrightarrow> unat (FOLD_U32T u) = ones (unat u)"
  by (intro ones_eq FOLD_small FOLD_eqm FOLD_eq_0)

lemma unat_FOLD_FOLD: "unat (FOLD_U32T (FOLD_U32T u)) = ones (unat u)"
proof -
  have "unat u div 65536 < 65536" "unat u mod 65536 < 65536"
    using unat_u32_less [of u] by (simp_all add: less_mult_imp_div_less)
  then have "unat (FOLD_U32T u) \<le> 131070"
    unfolding unat_FOLD_U32T by linarith
  then have "unat (FOLD_U32T (FOLD_U32T u)) = ones (unat (FOLD_U32T u))"
    by (rule unat_FOLD)
  also have "\<dots> = ones (unat u)"
    by (intro ones_cong FOLD_eqm FOLD_eq_0)
  finally show ?thesis .
qed

lemma unat_mem16: "unat (mem16 a b) = unat a + 256 * unat b"
proof -
  have d: "push_bit 8 (ucast b :: u16) OR ucast a = push_bit 8 (ucast b) + ucast a"
    by (rule disjunctive_add_eq_or [symmetric]) (rule bit_word_eqI; auto simp: bit_simps dest: bit_imp_le_length)
  have "unat (ucast a :: u16) = unat a" "unat (ucast b :: u16) = unat b"
    by (simp_all add: unsigned_ucast_eq take_bit_nat_eq_self_iff less_trans [OF unat_byte_less])
  then have "unat (push_bit 8 (ucast b :: u16) + ucast a) = 256 * unat b + unat a"
    using unat_byte_less [of a] unat_byte_less [of b] by (simp add: push_bit_eq_mult unat_word_ariths)
  then show ?thesis
    by (simp add: mem16_def d add.commute)
qed

lemma byte_masks: "0x00FF = (mask 8 :: 'a::len word)" "0xFF00 = push_bit 8 (mask 8 :: 'a::len word)"
  by (simp_all add: mask_eq_exp_minus_1 push_bit_eq_mult)

lemma lwip_htons_mem16 [simp]: "lwip_htons (mem16 a b) = mem16 b a"
  unfolding lwip_htons_def mem16_def byte_masks
  by (rule bit_word_eqI) (auto simp: bit_simps not_less dest: bit_imp_le_length)

lemma SWAP_ucast: "SWAP_BYTES_IN_WORD (ucast (mem16 a b)) = ucast (mem16 b a)"
  unfolding SWAP_BYTES_IN_WORD_def mem16_def byte_masks
  by (rule bit_word_eqI) (auto simp: bit_simps not_less dest: bit_imp_le_length)

lemma small_u32:
  fixes w :: u32
  assumes "unat w < 65536"
  obtains a b where "w = ucast (mem16 a b)"
proof -
  have "w = ucast (ucast w :: u16)"
    using assms by (simp add: word_unat_eq_iff unsigned_ucast_eq unsigned_take_bit_eq take_bit_nat_eq_self)
  then show thesis
    using that by (metis mem16_cases)
qed

lemma unat_ucast_mem16: "unat (ucast (mem16 a b) :: u32) = unat a + 256 * unat b"
  by (simp add: unat_mem16)

lemma unat_SWAP: "unat w < 65536 \<Longrightarrow> unat (SWAP_BYTES_IN_WORD w) = ones (256 * unat w)"
proof -
  assume "unat w < 65536"
  then obtain a b where w: "w = ucast (mem16 a b)"
    by (rule small_u32)
  have "unat b + 256 * unat a < 65536"
    using unat_byte_less [of a] unat_byte_less [of b] by simp
  then have "unat b + 256 * unat a = ones (256 * (256 * unat b + unat a))"
    by (intro ones_eq eqm_sym [OF eqm_swap]) auto
  then show ?thesis
    by (simp add: w SWAP_ucast unat_mem16 add.commute)
qed

lemma unat_htons: "unat (lwip_htons x) = ones (256 * unat x)"
proof -
  obtain a b where x: "x = mem16 a b"
    by (rule mem16_cases)
  have "unat b + 256 * unat a < 65536"
    using unat_byte_less [of a] unat_byte_less [of b] by simp
  then have "unat b + 256 * unat a = ones (256 * (256 * unat b + unat a))"
    by (intro ones_eq eqm_sym [OF eqm_swap]) auto
  then show ?thesis
    by (simp add: x unat_mem16 add.commute)
qed

lemma unat_ucast_small: "unat w < 65536 \<Longrightarrow> unat (ucast (w :: u32) :: u16) = unat w"
  by (simp add: unsigned_ucast_eq take_bit_nat_eq_self)

lemma chksum_finish_ones: "unat (chksum_finish od sm) = ones ((if od then 256 else 1) * unat sm)"
proof -
  have "ones (256 * ones (unat sm)) = ones (256 * unat sm)"
    by (intro ones_cong eqm_mult eqm_ones) simp
  then show ?thesis
    by (simp add: chksum_finish_def Let_def unat_ucast_small unat_SWAP unat_FOLD_FOLD ones_less)
qed

lemma chksum_words_sum:
  assumes "chksum_words sm d = (sm', r)" "unat sm + le_sum d < 2 ^ 32"
  shows "unat sm' + le_sum r = unat sm + le_sum d \<and> (r = [] \<or> (\<exists>a. r = [a]))"
  using assms
proof (induction sm d rule: chksum_words.induct)
  case (1 sm a b d)
  have "unat (sm + ucast (mem16 a b)) = unat sm + unat (mem16 a b)"
    using 1(3) by (simp add: unat_word_ariths unat_mem16)
  then show ?case
    using 1 by (simp add: unat_mem16)
qed auto

lemma chksum_tail_sum:
  fixes x :: byte
  assumes "r = [] \<or> (\<exists>a. r = [a])"
  shows "unat (chksum_tail (push_bit 8 (ucast x)) r) = 256 * unat x + le_sum r"
    and "unat (chksum_tail 0 r) = le_sum r"
proof -
  have "push_bit 8 (ucast x) = mem16 0 x"
    by (simp add: mem16_def)
  moreover have "(mem16 0 x AND 0xFF00) OR ucast a = mem16 a x" for a
    unfolding mem16_def byte_masks by (rule bit_word_eqI) (auto simp: bit_simps not_less dest: bit_imp_le_length)
  ultimately show "unat (chksum_tail (push_bit 8 (ucast x)) r) = 256 * unat x + le_sum r"
    using assms by (auto simp: chksum_tail_def unat_mem16)
  have "unat (ucast a :: u16) = unat a" for a :: byte
    by (simp add: unsigned_ucast_eq take_bit_nat_eq_self_iff less_trans [OF unat_byte_less])
  then show "unat (chksum_tail 0 r) = le_sum r"
    using assms by (auto simp: chksum_tail_def)
qed

text \<open>The bytes at the two ends and the words between them, for either alignment.\<close>

lemma chksum_head_sum:
  assumes "chksum_head addr d = (t, addr', e)" "r = [] \<or> (\<exists>a. r = [a])"
    and n: "n = unat sm + le_sum r" "eqm n (le_sum e)" "n = 0 \<longleftrightarrow> le_sum e = 0" "n \<le> 0xFFFF0000"
  shows "unat (chksum_finish (odd addr) (sm + ucast (chksum_tail t r))) = ones (le_sum d)"
proof (cases "odd addr \<and> d \<noteq> []")
  case True
  then obtain a where d: "d = a # e" "t = push_bit 8 (ucast a)"
    using assms(1) by (cases d) (auto simp: chksum_head_def)
  have "unat (sm + ucast (chksum_tail t r)) = 256 * unat a + n"
    using chksum_tail_sum(1) [OF assms(2), of a] n(1,4) unat_byte_less [of a] by (simp add: d(2) unat_word_ariths)
  moreover have "ones (256 * (256 * unat a + n)) = ones (le_sum d)"
  proof (rule ones_cong)
    have "eqm (unat a + 256 * n) (unat a + 256 * le_sum e)"
      by (intro eqm_add eqm_refl eqm_mult n(2))
    also have "eqm \<dots> (le_sum d)"
      using eqm_sym [OF le_sum_Cons] by (simp add: d(1))
    finally show "eqm (256 * (256 * unat a + n)) (le_sum d)"
      using eqm_swap eqm_trans by blast
    show "256 * (256 * unat a + n) = 0 \<longleftrightarrow> le_sum d = 0"
      using n(3) by (auto simp: d(1) le_sum_eq_0 unsigned_eq_0_iff)
  qed
  ultimately show ?thesis
    using True by (simp add: chksum_finish_ones)
next
  case False
  then have e: "t = 0" "e = d" "odd addr \<Longrightarrow> d = []"
    using assms(1) by (auto simp: chksum_head_def split: if_splits)
  have "unat (sm + ucast (chksum_tail t r)) = n"
    using chksum_tail_sum(2) [OF assms(2)] n(1,4) by (simp add: e unat_word_ariths)
  moreover have "ones n = ones (le_sum d)"
    using n(2,3) by (intro ones_cong) (simp_all add: e)
  ultimately show ?thesis
    using e(3) n(3) by (cases "odd addr") (simp_all add: chksum_finish_ones e(2))
qed

lemma chksum_head_length: "chksum_head addr d = (t, addr', e) \<Longrightarrow> length e \<le> length d"
  by (auto simp: chksum_head_def split: if_splits)

lemma chksum2_ones:
  assumes "length d \<le> 0x20000"
  shows "unat (lwip_standard_chksum2 addr d) = ones (le_sum d)"
proof -
  obtain t addr' e where h: "chksum_head addr d = (t, addr', e)"
    by (cases "chksum_head addr d")
  obtain sm r where w: "chksum_words 0 e = (sm, r)"
    by fastforce
  have b: "le_sum e \<le> 0xFFFF0000"
    using chksum_head_length [OF h] assms by (intro le_sum_bound) simp
  then have "unat sm + le_sum r = le_sum e \<and> (r = [] \<or> (\<exists>a. r = [a]))"
    using chksum_words_sum [OF w] by simp
  then show ?thesis
    using chksum_head_sum [OF h, of r "le_sum e" sm] b by (simp add: lwip_standard_chksum2_def h w)
qed

text \<open>Version 1 sums in network order; the bytes are swapped once at the end.\<close>

fun be_words :: "byte list \<Rightarrow> nat" where
  "be_words (a # b # d) = 256 * unat a + unat b + be_words d"
| "be_words [a] = 256 * unat a"
| "be_words [] = 0"

lemma be_words_le_sum: "eqm (256 * be_words d) (le_sum d)"
proof (induction d rule: be_words.induct)
  case (1 a b d)
  have "eqm (256 * (256 * unat a + unat b) + 256 * be_words d) (unat a + 256 * unat b + le_sum d)"
    by (intro eqm_add eqm_swap 1)
  then show ?case
    by (simp add: algebra_simps)
next
  case (2 a)
  then show ?case
    using eqm_swap [of "unat a" 0] by simp
qed simp

lemma be_words_eq_0: "be_words d = 0 \<longleftrightarrow> le_sum d = 0"
  by (induction d rule: be_words.induct) auto

lemma be_words_le: "2 * be_words d \<le> 65535 * (length d + 1)"
proof (induction d rule: be_words.induct)
  case (1 a b d)
  then show ?case
    using unat_byte_less [of a] unat_byte_less [of b] by simp
next
  case (2 a)
  then show ?case
    using unat_byte_less [of a] by simp
qed simp

lemma be_word: "(push_bit 8 (ucast a) OR ucast b :: u16) = mem16 b a" "(push_bit 8 (ucast a) :: u16) = mem16 0 a"
  for a b :: byte
  by (simp_all add: mem16_def)

lemma chksum1_loop_sum:
  assumes "unat acc + be_words d < 2 ^ 32"
  shows "unat (chksum1_loop acc d) = unat acc + be_words d"
  using assms
proof (induction acc d rule: chksum1_loop.induct)
  case (1 acc a b d)
  have "unat (acc + ucast (mem16 b a)) = unat acc + unat (mem16 b a)"
    using 1(2) by (simp add: unat_word_ariths unat_mem16)
  then show ?case
    using 1 by (simp add: unat_mem16 be_word(1))
next
  case (2 acc a)
  then show ?case
    by (simp add: be_word unat_word_ariths unat_mem16)
qed simp

lemma high_half_0: "u AND 0xFFFF0000 = 0 \<longleftrightarrow> unat u < 65536" for u :: u32
proof -
  have m: "(0xFFFF0000 :: u32) = push_bit 16 (mask 16)"
    by (simp add: mask_eq_exp_minus_1 push_bit_eq_mult)
  have "u AND 0xFFFF0000 = push_bit 16 (drop_bit 16 u)"
    unfolding m by (rule bit_word_eqI) (auto simp: bit_simps)
  moreover have "drop_bit 16 (push_bit 16 (drop_bit 16 u)) = drop_bit 16 u"
    by (rule bit_word_eqI) (auto simp: bit_simps dest: bit_imp_le_length)
  ultimately have "u AND 0xFFFF0000 = 0 \<longleftrightarrow> drop_bit 16 u = 0"
    by (metis drop_bit_of_0 push_bit_of_0)
  then show ?thesis
    by (simp add: drop_bit_16_eq_0_iff)
qed

lemma chksum1_ones:
  assumes "length d \<le> 0x20000"
  shows "unat (lwip_standard_chksum1 d) = ones (le_sum d)"
proof -
  define acc where "acc = chksum1_loop 0 d"
  define acc2 where "acc2 = (if FOLD_U32T acc AND 0xFFFF0000 \<noteq> 0 then FOLD_U32T (FOLD_U32T acc) else FOLD_U32T acc)"
  have "be_words d < 2 ^ 32"
    using be_words_le [of d] assms by simp
  then have s: "unat acc = be_words d"
    using chksum1_loop_sum [of 0 d] by (simp add: acc_def)
  have "acc2 = FOLD_U32T (FOLD_U32T acc)"
  proof (cases "unat (FOLD_U32T acc) < 65536")
    case True
    then have "unat (FOLD_U32T (FOLD_U32T acc)) = unat (FOLD_U32T acc)"
      by (simp add: unat_FOLD_U32T [of "FOLD_U32T acc"])
    then show ?thesis
      using True by (simp add: acc2_def high_half_0 word_unat_eq_iff)
  qed (simp add: acc2_def high_half_0)
  then have "unat acc2 = ones (be_words d)"
    by (simp add: unat_FOLD_FOLD s)
  moreover have "lwip_standard_chksum1 d = lwip_htons (ucast acc2)"
    by (simp add: lwip_standard_chksum1_def acc_def acc2_def FOLD_U32T_def Let_def)
  ultimately have "unat (lwip_standard_chksum1 d) = ones (256 * ones (be_words d))"
    by (simp add: unat_htons unat_ucast_small ones_less)
  also have "\<dots> = ones (le_sum d)"
    by (intro ones_cong eqm_trans [OF eqm_mult [OF eqm_ones] be_words_le_sum]) (simp add: be_words_eq_0)
  finally show ?thesis .
qed

lemma add_carry_sum:
  "eqm (unat (add_carry s x)) (unat s + unat x)" "unat (add_carry s x) = 0 \<longleftrightarrow> unat s + unat x = 0"
proof -
  have less: "unat s < 2 ^ 32" "unat x < 2 ^ 32"
    using unsigned_less [of s] unsigned_less [of x] by simp_all
  have sum: "unat (s + x) = (if unat s + unat x < 2 ^ 32 then unat s + unat x else unat s + unat x - 2 ^ 32)"
    using less by (simp add: unat_word_ariths le_mod_geq)
  have "s + x < s \<longleftrightarrow> \<not> unat s + unat x < 2 ^ 32"
    using less by (auto simp: word_less_nat_alt sum)
  moreover have "unat (s + x + 1) = unat s + unat x - 2 ^ 32 + 1" if "\<not> unat s + unat x < 2 ^ 32"
    using less that by (simp add: unat_word_ariths(1) [of "s + x"] sum)
  ultimately have r: "unat (add_carry s x) =
      (if unat s + unat x < 2 ^ 32 then unat s + unat x else unat s + unat x - 2 ^ 32 + 1)"
    by (simp add: add_carry_def Let_def sum)
  have "eqm (unat s + unat x - 2 ^ 32 + 1) (unat s + unat x)" if "\<not> unat s + unat x < 2 ^ 32"
  proof -
    define k where "k = unat s + unat x - 2 ^ 32"
    have "unat s + unat x = 65536 * 65536 + k"
      using that by (simp add: k_def)
    moreover have "eqm (65536 * 65536 + k) (1 + k)"
      using eqm_trans [OF eqm_carry [of 65536 k]] eqm_carry [of 1 k] by simp
    ultimately show ?thesis
      by (simp add: k_def [symmetric] eqm_sym)
  qed
  with r show "eqm (unat (add_carry s x)) (unat s + unat x)"
    by simp
  show "unat (add_carry s x) = 0 \<longleftrightarrow> unat s + unat x = 0"
    using r by (cases "unat s + unat x < 2 ^ 32") auto
qed

lemma unat_mem32: "unat (mem32 a b c d) = unat (mem16 a b) + 65536 * unat (mem16 c d)"
proof -
  have "mem32 a b c d = push_bit 16 (ucast (mem16 c d)) OR ucast (mem16 a b)"
    unfolding mem32_def mem16_def by (rule bit_word_eqI) (auto simp: bit_simps not_less dest: bit_imp_le_length)
  also have "\<dots> = push_bit 16 (ucast (mem16 c d)) + ucast (mem16 a b)"
    by (rule disjunctive_add_eq_or [symmetric]) (rule bit_word_eqI; auto simp: bit_simps dest: bit_imp_le_length)
  finally have m: "mem32 a b c d = push_bit 16 (ucast (mem16 c d)) + ucast (mem16 a b)" .
  show ?thesis
    unfolding m using unat_u16_less [of "mem16 a b"] unat_u16_less [of "mem16 c d"]
    by (simp add: push_bit_eq_mult unat_word_ariths)
qed

lemma chksum3_loop_sum:
  assumes "chksum3_loop sm d = (sm', r)"
  shows "eqm (unat sm' + le_sum r) (unat sm + le_sum d) \<and> (unat sm' + le_sum r = 0 \<longleftrightarrow> unat sm + le_sum d = 0) \<and> length r \<le> 7"
  using assms
proof (induction sm d rule: chksum3_loop.induct)
  case (1 sm a b c d e f g h r0)
  let ?s1 = "add_carry sm (mem32 a b c d)" and ?x = "le_sum [a, b, c, d]" and ?y = "le_sum [e, f, g, h]"
  let ?s2 = "add_carry ?s1 (mem32 e f g h)"
  have w: "eqm (unat (mem32 a b c d)) ?x" "eqm (unat (mem32 e f g h)) ?y"
    using eqm_carry [of "unat (mem16 c d)" "unat (mem16 a b)"] eqm_carry [of "unat (mem16 g h)" "unat (mem16 e f)"]
    by (simp_all add: unat_mem32 unat_mem16 algebra_simps)
  have z: "unat (mem32 a b c d) = 0 \<longleftrightarrow> ?x = 0" "unat (mem32 e f g h) = 0 \<longleftrightarrow> ?y = 0"
    by (auto simp: unat_mem32 unat_mem16)
  have "eqm (unat ?s1) (unat sm + ?x)"
    by (rule eqm_trans [OF add_carry_sum(1) eqm_add [OF eqm_refl w(1)]])
  then have "eqm (unat ?s2) (unat sm + ?x + ?y)"
    by (intro eqm_trans [OF add_carry_sum(1) eqm_add [OF _ w(2)]])
  then have "eqm (unat ?s2 + le_sum r0) (unat sm + ?x + ?y + le_sum r0)"
    by (intro eqm_add eqm_refl)
  moreover have "unat sm + le_sum (a # b # c # d # e # f # g # h # r0) = unat sm + ?x + ?y + le_sum r0"
    by simp
  ultimately have E: "eqm (unat ?s2 + le_sum r0) (unat sm + le_sum (a # b # c # d # e # f # g # h # r0))"
    by (simp only:)
  have "unat ?s2 = 0 \<longleftrightarrow> unat sm = 0 \<and> ?x = 0 \<and> ?y = 0"
    using add_carry_sum(2) [of sm "mem32 a b c d"] add_carry_sum(2) [of ?s1 "mem32 e f g h"] z by auto
  then have Z: "unat ?s2 + le_sum r0 = 0 \<longleftrightarrow> unat sm + le_sum (a # b # c # d # e # f # g # h # r0) = 0"
    by auto
  show ?case
    using 1 eqm_trans [OF _ E] Z by simp
qed auto

lemma chksum3_words:
  assumes "chksum3_loop sm0 d = (sm1, d1)" "chksum_words (FOLD_U32T sm1) d1 = (sm, r)"
  shows "eqm (unat sm + le_sum r) (unat sm0 + le_sum d)" "unat sm + le_sum r = 0 \<longleftrightarrow> unat sm0 + le_sum d = 0"
    "unat sm + le_sum r \<le> 0xFFFF0000" "r = [] \<or> (\<exists>a. r = [a])"
proof -
  note l = chksum3_loop_sum [OF assms(1)]
  have "length d1 \<le> 7"
    using l by blast
  then have "(length d1 + 1) div 2 \<le> 4"
    by simp
  then have "le_sum d1 \<le> 65535 * 4"
    using le_sum_le [of d1] by simp
  moreover have "unat (FOLD_U32T sm1) \<le> 131070"
  proof -
    have "unat sm1 div 65536 < 65536" "unat sm1 mod 65536 < 65536"
      using unat_u32_less [of sm1] by (simp_all add: less_mult_imp_div_less)
    then show ?thesis
      unfolding unat_FOLD_U32T by linarith
  qed
  ultimately have b: "unat (FOLD_U32T sm1) + le_sum d1 \<le> 0xFFFF0000"
    by simp
  then have w: "unat sm + le_sum r = unat (FOLD_U32T sm1) + le_sum d1" "r = [] \<or> (\<exists>a. r = [a])"
    using chksum_words_sum [OF assms(2)] by auto
  show "eqm (unat sm + le_sum r) (unat sm0 + le_sum d)"
    using eqm_trans [OF eqm_add [OF FOLD_eqm eqm_refl]] l by (simp add: w(1))
  show "unat sm + le_sum r = 0 \<longleftrightarrow> unat sm0 + le_sum d = 0"
    using l FOLD_eq_0 [of sm1] by (simp add: w(1))
  show "unat sm + le_sum r \<le> 0xFFFF0000" "r = [] \<or> (\<exists>a. r = [a])"
    using w b by simp_all
qed

lemma chksum3_ones: "unat (lwip_standard_chksum3 addr d) = ones (le_sum d)"
proof -
  obtain t addr' e where h: "chksum_head addr d = (t, addr', e)"
    by (cases "chksum_head addr d")
  obtain sm0 :: u32 and e0 where s: "(if addr' mod 4 \<noteq> 0 \<and> length e > 1 then (ucast (mem16 (e ! 0) (e ! 1)), drop 2 e) else (0, e)) = (sm0, e0)"
    by fastforce
  have s0: "unat sm0 + le_sum e0 = le_sum e"
    using s by (cases e rule: le_sum.cases) (auto simp: unat_mem16 split: if_splits)
  obtain sm1 e1 where l: "chksum3_loop sm0 e0 = (sm1, e1)"
    by fastforce
  obtain sm r where w: "chksum_words (FOLD_U32T sm1) e1 = (sm, r)"
    by fastforce
  have "lwip_standard_chksum3 addr d = chksum_finish (odd addr) (sm + ucast (chksum_tail t r))"
    using s l w by (simp add: lwip_standard_chksum3_def h)
  then show ?thesis
    using chksum_head_sum [OF h, of r "unat sm + le_sum r" sm] chksum3_words [OF l w] s0 by simp
qed

subsection \<open>Chains of pbufs\<close>

text \<open>
  The accumulator after the bytes \<open>d\<close>: it represents the sum \<open>n\<close> of what was there before and
  of \<open>d\<close>, with the bytes swapped when an odd number of bytes has been read.
\<close>

definition chain_acc :: "nat \<Rightarrow> byte list \<Rightarrow> u32 \<Rightarrow> bool \<Rightarrow> bool" where
  "chain_acc n d acc swapped \<longleftrightarrow> unat acc = ones ((if swapped then 256 else 1) * (n + le_sum d)) \<and> (swapped \<longleftrightarrow> odd (length d))"

lemma ones_double_swap: "ones (256 * (256 * n)) = ones n"
  using eqm_swap [of n 0] by (intro ones_cong) simp_all

lemma ones_ones_mult: "ones (k * ones n) = ones (k * n)" if "k \<noteq> 0"
  using that by (intro ones_cong eqm_mult eqm_ones) simp

lemma ones_ones_add: "ones (ones m + ones n) = ones (m + n)"
  by (intro ones_cong eqm_add eqm_ones) simp

lemma ones_id: "n < 65536 \<Longrightarrow> ones n = n"
  by (rule ones_eq [symmetric]) simp_all

lemma le_sum_append_eqm:
  "eqm ((if odd (length xs) then 256 else 1) * le_sum (xs @ ys)) ((if odd (length xs) then 256 else 1) * le_sum xs + le_sum ys)"
proof (cases "odd (length xs)")
  case True
  have "eqm (256 * le_sum (xs @ ys)) (256 * (le_sum xs + 256 * le_sum ys))"
    by (intro eqm_mult le_sum_append_odd True)
  also have "eqm \<dots> (256 * le_sum xs + le_sum ys)"
    using eqm_add [OF eqm_refl [of "256 * le_sum xs"] eqm_swap [of "le_sum ys" 0]] by (simp add: algebra_simps)
  finally show ?thesis
    using True by simp
qed (simp add: le_sum_append)

lemma le_sum_append_0: "le_sum (xs @ ys) = 0 \<longleftrightarrow> le_sum xs = 0 \<and> le_sum ys = 0"
  by (simp add: le_sum_eq_0)

lemma chksum_step_acc:
  assumes "chain_acc n d acc swapped" "unat sm = ones (le_sum e)" "odd (length e) = odd len"
    "chksum_step acc swapped sm len = (acc', swapped')"
  shows "chain_acc n (d @ e) acc' swapped'"
proof -
  define k where "k = (if swapped then 256 else 1 :: nat)"
  have k: "k \<noteq> 0" "unat acc = ones (k * (n + le_sum d))" "swapped \<longleftrightarrow> odd (length d)"
    using assms(1) by (auto simp: k_def chain_acc_def)
  have "unat (acc + ucast sm) = unat acc + unat sm"
    using ones_less [of "k * (n + le_sum d)"] ones_less [of "le_sum e"] by (simp add: unat_word_ariths k(2) assms(2))
  then have "unat (FOLD_U32T (acc + ucast sm)) = ones (unat acc + unat sm)"
    using ones_less [of "k * (n + le_sum d)"] ones_less [of "le_sum e"]
    by (subst unat_FOLD) (simp_all add: k(2) assms(2))
  also have "\<dots> = ones (k * (n + le_sum d) + le_sum e)"
    by (simp add: k(2) assms(2) ones_ones_add)
  also have "\<dots> = ones (k * (n + le_sum (d @ e)))"
  proof (rule ones_cong)
    have "eqm (k * n + (k * le_sum d + le_sum e)) (k * n + k * le_sum (d @ e))"
      using eqm_sym [OF le_sum_append_eqm [of d e]] k(3) by (intro eqm_add eqm_refl) (simp add: k_def)
    then show "eqm (k * (n + le_sum d) + le_sum e) (k * (n + le_sum (d @ e)))"
      by (simp add: algebra_simps)
  qed (auto simp: le_sum_append_0 \<open>k \<noteq> 0\<close>)
  finally have f: "unat (FOLD_U32T (acc + ucast sm)) = ones (k * (n + le_sum (d @ e)))" .
  show ?thesis
  proof (cases "odd len")
    case True
    then have s: "acc' = SWAP_BYTES_IN_WORD (FOLD_U32T (acc + ucast sm))" "swapped' = (\<not> swapped)"
      using assms(4) by (auto simp: chksum_step_def Let_def odd_iff_mod_2_eq_one)
    have "unat acc' = ones (256 * (k * (n + le_sum (d @ e))))"
      by (simp add: s(1) unat_SWAP f ones_less ones_ones_mult)
    then show ?thesis
      using True assms(3) k(3) ones_double_swap [of "n + le_sum (d @ e)"] by (auto simp: chain_acc_def s(2) k_def)
  next
    case False
    then have "acc' = FOLD_U32T (acc + ucast sm)" "swapped' = swapped"
      using assms(4) by (auto simp: chksum_step_def Let_def even_iff_mod_2_eq_zero)
    then show ?thesis
      using False assms(3) k(3) f by (auto simp: chain_acc_def k_def)
  qed
qed

lemma chain_acc_final:
  assumes "chain_acc n d acc swapped"
  shows "unat (if swapped then SWAP_BYTES_IN_WORD acc else acc) = ones (n + le_sum d)"
  using assms ones_less [of "256 * (n + le_sum d)"] ones_double_swap [of "n + le_sum d"]
  by (auto simp: chain_acc_def unat_SWAP ones_ones_mult)

abbreviation chain_bytes :: "pbuf list \<Rightarrow> byte list" where
  "chain_bytes p \<equiv> concat (map pbuf_data p)"

text \<open>The length of a pbuf is 16 bits wide.\<close>

definition pbufs_ok :: "pbuf list \<Rightarrow> bool" where
  "pbufs_ok p \<longleftrightarrow> (\<forall>q\<in>set p. length (pbuf_data q) \<le> 65535)"

lemma chksum_chain_ones:
  assumes "chain_acc n d acc swapped" "pbufs_ok p"
  shows "unat (chksum_chain acc swapped p) = ones (n + le_sum (d @ chain_bytes p))"
  using assms
proof (induction p arbitrary: d acc swapped)
  case Nil
  then show ?case
    using chain_acc_final by simp
next
  case (Cons q p)
  obtain acc' swapped' where s:
    "chksum_step acc swapped (LWIP_CHKSUM (pbuf_payload q) (pbuf_data q)) (length (pbuf_data q)) = (acc', swapped')"
    by fastforce
  have "chain_acc n (d @ pbuf_data q) acc' swapped'"
    using Cons.prems by (intro chksum_step_acc [OF _ _ refl s] chksum2_ones) (auto simp: pbufs_ok_def)
  then show ?case
    using Cons s by (simp add: pbufs_ok_def)
qed

lemma SWAP_SWAP: "unat w < 65536 \<Longrightarrow> SWAP_BYTES_IN_WORD (SWAP_BYTES_IN_WORD w) = w"
  by (metis small_u32 SWAP_ucast)

text \<open>Nothing follows the pbuf that is cut off, so swapping it or not makes no difference.\<close>

lemma chksum_step_final:
  assumes "chksum_step acc swapped sm len = (acc1, swapped1)" "chksum_step acc swapped sm len' = (acc2, swapped2)"
    "unat acc < 65536"
  shows "(if swapped1 then SWAP_BYTES_IN_WORD acc1 else acc1) = (if swapped2 then SWAP_BYTES_IN_WORD acc2 else acc2)"
proof -
  have "unat (acc + ucast sm) \<le> 131070"
    using assms(3) unat_u16_less [of sm] by (simp add: unat_word_ariths)
  then have "unat (FOLD_U32T (acc + ucast sm)) < 65536"
    by (rule FOLD_small)
  then show ?thesis
    using assms(1,2) by (auto simp: chksum_step_def Let_def SWAP_SWAP split: if_splits)
qed

lemma chain_partial_0: "chksum_chain_partial acc swapped 0 p = (if swapped then SWAP_BYTES_IN_WORD acc else acc)"
  by (cases p) simp_all

lemma chain_acc_less: "chain_acc n d acc swapped \<Longrightarrow> unat acc < 65536"
  by (auto simp: chain_acc_def ones_less)

lemma chksum_chain_partial_ones:
  assumes "chain_acc n d acc swapped" "pbufs_ok p"
  shows "unat (chksum_chain_partial acc swapped len p) = ones (n + le_sum (d @ take len (chain_bytes p)))"
  using assms
proof (induction p arbitrary: d acc swapped len)
  case Nil
  then show ?case
    using chain_acc_final by simp
next
  case (Cons q p)
  define e where "e = take (min (length (pbuf_data q)) len) (pbuf_data q)"
  obtain acc' swapped' where s: "chksum_step acc swapped (LWIP_CHKSUM (pbuf_payload q) e) (length (pbuf_data q)) = (acc', swapped')"
    by fastforce
  obtain acc2 swapped2 where s2: "chksum_step acc swapped (LWIP_CHKSUM (pbuf_payload q) e) (length e) = (acc2, swapped2)"
    by fastforce
  have acc2: "chain_acc n (d @ e) acc2 swapped2"
    using Cons.prems by (intro chksum_step_acc [OF _ _ refl s2] chksum2_ones) (auto simp: pbufs_ok_def e_def)
  show ?case
  proof (cases "length (pbuf_data q) \<le> len")
    case True
    then have "e = pbuf_data q" "acc' = acc2" "swapped' = swapped2"
      using s s2 by (simp_all add: e_def)
    then show ?thesis
      using Cons.IH [of "d @ e" acc2 swapped2 "len - length e"] Cons.prems acc2 s True
      by (cases "len = 0") (auto simp: pbufs_ok_def chain_partial_0 chain_acc_final e_def)
  next
    case False
    then have "chksum_chain_partial acc swapped len (q # p) = (if swapped' then SWAP_BYTES_IN_WORD acc' else acc')" if "len > 0"
      using s that by (simp add: e_def chain_partial_0)
    also have "\<dots> = (if swapped2 then SWAP_BYTES_IN_WORD acc2 else acc2)"
      using chksum_step_final [OF s s2 chain_acc_less [OF Cons.prems(1)]] .
    finally show ?thesis
      using chain_acc_final [OF acc2] chain_acc_final [OF Cons.prems(1)] False by (cases "len = 0") (simp_all add: e_def)
  qed
qed

subsection \<open>Pseudo headers\<close>

lemma lwip_htons_hton16: "lwip_htons x = hton16 x"
  by (rule mem16_cases [of x]) (simp add: hton16_def)

lemma complement_u32: "unat (ucast (NOT (acc AND 0xFFFF)) :: u16) = 65535 - unat (acc :: u32) mod 65536"
proof -
  have m: "(0xFFFF :: u32) = mask 16"
    by (simp add: mask_eq_exp_minus_1)
  have "(ucast (NOT (acc AND 0xFFFF)) :: u16) = NOT (ucast acc)"
    unfolding m by (rule bit_word_eqI) (auto simp: bit_simps)
  moreover have "unat (ucast acc :: u16) = unat acc mod 65536"
    by (simp add: unsigned_ucast_eq take_bit_eq_mod)
  ultimately show ?thesis
    by (simp add: unat_not_u16)
qed

lemma le_sum_bytes16: "le_sum (bytes16 x) = unat x"
  by (rule mem16_cases [of x]) (simp add: unat_mem16)

lemma pseudo_finish_ones:
  assumes "unat acc = ones n"
  shows "unat (pseudo_finish proto proto_len acc) = 65535 - ones (n + le_sum ([0, proto] @ bytes16 (hton16 proto_len)))"
proof -
  define s where "s = acc + ucast (lwip_htons (ucast proto)) + ucast (lwip_htons proto_len)"
  have "lwip_htons (ucast proto) = mem16 0 proto"
    using lwip_htons_mem16 [of proto 0] by (simp add: mem16_def)
  then have "unat s = ones n + (256 * unat proto + unat (hton16 proto_len))"
    using ones_less [of n] unat_byte_less [of proto] unat_u16_less [of "hton16 proto_len"] assms
    by (simp add: s_def unat_word_ariths unat_mem16 lwip_htons_hton16)
  then have "ones (unat s) = ones (n + le_sum ([0, proto] @ bytes16 (hton16 proto_len)))"
    using eqm_add [OF eqm_ones [of n] eqm_refl] by (intro ones_cong) (simp_all add: le_sum_bytes16)
  moreover have "unat (pseudo_finish proto proto_len acc) = 65535 - unat (FOLD_U32T (FOLD_U32T s)) mod 65536"
    unfolding pseudo_finish_def Let_def s_def by (rule complement_u32)
  ultimately show ?thesis
    using ones_less [of "unat s"] by (simp add: unat_FOLD_FOLD)
qed

lemma le_sum_bytes32: "le_sum (bytes32 (mem32 a b c d)) = unat (mem16 a b) + unat (mem16 c d)"
  by (simp add: unat_mem16)

lemma addr_halves:
  "mem32 a b c d AND 0xFFFF = ucast (mem16 a b)" "drop_bit 16 (mem32 a b c d) AND 0xFFFF = ucast (mem16 c d)"
proof -
  have m: "(0xFFFF :: u32) = mask 16"
    by (simp add: mask_eq_exp_minus_1)
  show "mem32 a b c d AND 0xFFFF = ucast (mem16 a b)"
    unfolding mem32_def mem16_def m by (rule bit_word_eqI) (auto simp: bit_simps not_less dest: bit_imp_le_length)
  show "drop_bit 16 (mem32 a b c d) AND 0xFFFF = ucast (mem16 c d)"
    unfolding mem32_def mem16_def m by (rule bit_word_eqI) (auto simp: bit_simps not_less dest: bit_imp_le_length)
qed

lemma le_sum_bytes32_le: "le_sum (bytes32 addr) \<le> 131070"
proof (rule mem32_cases)
  fix a b c d
  assume "addr = mem32 a b c d"
  then show ?thesis
    using unat_u16_less [of "mem16 a b"] unat_u16_less [of "mem16 c d"] by (simp add: le_sum_bytes32 del: bytes32_mem)
qed

lemma add_addr_sum:
  assumes "unat acc + 131070 < 2 ^ 32"
  shows "unat (add_addr acc addr) = unat acc + le_sum (bytes32 addr)"
proof (rule mem32_cases)
  fix a b c d
  assume "addr = mem32 a b c d"
  then show ?thesis
    using assms unat_u16_less [of "mem16 a b"] unat_u16_less [of "mem16 c d"]
    by (simp add: add_addr_def addr_halves le_sum_bytes32 unat_word_ariths del: bytes32_mem)
qed

lemma add_addr6_sum:
  assumes "unat acc + 262140 * length src < 2 ^ 32" "length src = length dest"
  shows "unat (add_addr6 acc src dest) = unat acc + le_sum (concat (map bytes32 src)) + le_sum (concat (map bytes32 dest))"
  using assms
proof (induction acc src dest rule: add_addr6.induct)
  case (1 acc s src d dest)
  have s: "unat (add_addr acc s) = unat acc + le_sum (bytes32 s)"
    using 1(2) by (intro add_addr_sum) simp
  then have "unat (add_addr (add_addr acc s) d) = unat acc + le_sum (bytes32 s) + le_sum (bytes32 d)"
    using 1(2) le_sum_bytes32_le [of s] add_addr_sum [of "add_addr acc s" d] by simp
  then show ?case
    using 1 le_sum_bytes32_le [of s] le_sum_bytes32_le [of d] by (simp add: le_sum_append)
qed auto

fun pseudo_addrs :: "lwip_addr \<Rightarrow> lwip_addr \<Rightarrow> byte list" where
  "pseudo_addrs (Addr4 src) (Addr4 dest) = bytes32 src @ bytes32 dest"
| "pseudo_addrs (Addr6 src) (Addr6 dest) = concat (map bytes32 src) @ concat (map bytes32 dest)"
| "pseudo_addrs _ _ = []"

fun same_family :: "lwip_addr \<Rightarrow> lwip_addr \<Rightarrow> bool" where
  "same_family (Addr4 _) (Addr4 _) \<longleftrightarrow> True"
| "same_family (Addr6 src) (Addr6 dest) \<longleftrightarrow> length src = 4 \<and> length dest = 4"
| "same_family _ _ \<longleftrightarrow> False"

text \<open>The pseudo header of RFC 768, RFC 793 and RFC 2460, up to zero words that do not count.\<close>

definition pseudo_header :: "lwip_addr \<Rightarrow> lwip_addr \<Rightarrow> byte \<Rightarrow> u16 \<Rightarrow> byte list" where
  "pseudo_header src dest proto proto_len = pseudo_addrs src dest @ [0, proto] @ bytes16 (hton16 proto_len)"

lemma even_concat_bytes32 [simp]: "length (concat (map bytes32 xs)) = 4 * length xs"
  by (induction xs) auto

lemma length_pseudo_addrs: "same_family src dest \<Longrightarrow> even (length (pseudo_addrs src dest)) \<and> length (pseudo_addrs src dest) \<le> 32"
  by (cases "(src, dest)" rule: same_family.cases) auto

lemma pseudo_acc_sum:
  "unat (pseudo_acc4 src dest) = ones (le_sum (pseudo_addrs (Addr4 src) (Addr4 dest)))"
  "length src6 = 4 \<Longrightarrow> length dest6 = 4 \<Longrightarrow>
   unat (FOLD_U32T (FOLD_U32T (add_addr6 0 src6 dest6))) = ones (le_sum (pseudo_addrs (Addr6 src6) (Addr6 dest6)))"
proof -
  have "unat (add_addr 0 src) = le_sum (bytes32 src)"
    using add_addr_sum [of 0 src] by simp
  then have "unat (add_addr (add_addr 0 src) dest) = le_sum (bytes32 src) + le_sum (bytes32 dest)"
    using add_addr_sum [of "add_addr 0 src" dest] le_sum_bytes32_le [of src] by simp
  then show "unat (pseudo_acc4 src dest) = ones (le_sum (pseudo_addrs (Addr4 src) (Addr4 dest)))"
    by (simp add: pseudo_acc4_def unat_FOLD_FOLD le_sum_append)
  show "unat (FOLD_U32T (FOLD_U32T (add_addr6 0 src6 dest6))) = ones (le_sum (pseudo_addrs (Addr6 src6) (Addr6 dest6)))"
    if "length src6 = 4" "length dest6 = 4"
    using that add_addr6_sum [of 0 src6 dest6] by (simp add: unat_FOLD_FOLD le_sum_append)
qed

lemma chain_acc_start: "unat acc = ones n \<Longrightarrow> chain_acc n [] acc False"
  by (simp add: chain_acc_def)

lemma ip_chksum_pseudo_ones:
  assumes "same_family src dest" "pbufs_ok p"
  shows "\<exists>c. ip_chksum_pseudo p proto proto_len src dest = Some c \<and>
      unat c = 65535 - ones (le_sum (pseudo_addrs src dest) + le_sum (chain_bytes p) + le_sum ([0, proto] @ bytes16 (hton16 proto_len)))"
    and "\<exists>c. ip_chksum_pseudo_partial p proto proto_len len src dest = Some c \<and>
      unat c = 65535 - ones (le_sum (pseudo_addrs src dest) + le_sum (take len (chain_bytes p)) +
        le_sum ([0, proto] @ bytes16 (hton16 proto_len)))"
proof -
  define acc where "acc = (case (src, dest) of (Addr6 s, Addr6 d) \<Rightarrow> FOLD_U32T (FOLD_U32T (add_addr6 0 s d))
    | (Addr4 s, Addr4 d) \<Rightarrow> pseudo_acc4 s d)"
  have acc: "unat acc = ones (le_sum (pseudo_addrs src dest))"
    using assms(1) pseudo_acc_sum by (cases "(src, dest)" rule: same_family.cases) (simp_all add: acc_def)
  note c = chksum_chain_ones [OF chain_acc_start [OF acc] assms(2)]
    chksum_chain_partial_ones [OF chain_acc_start [OF acc] assms(2), of len]
  have "ip_chksum_pseudo p proto proto_len src dest = Some (pseudo_finish proto proto_len (chksum_chain acc False p))"
    "ip_chksum_pseudo_partial p proto proto_len len src dest =
      Some (pseudo_finish proto proto_len (chksum_chain_partial acc False len p))"
    using assms(1) by (cases "(src, dest)" rule: same_family.cases; simp add: acc_def ip6_chksum_pseudo_def
        inet_chksum_pseudo_def inet_cksum_pseudo_base_def ip6_chksum_pseudo_partial_def inet_chksum_pseudo_partial_def
        inet_cksum_pseudo_partial_base_def)+
  then show "\<exists>c. ip_chksum_pseudo p proto proto_len src dest = Some c \<and>
      unat c = 65535 - ones (le_sum (pseudo_addrs src dest) + le_sum (chain_bytes p) + le_sum ([0, proto] @ bytes16 (hton16 proto_len)))"
    "\<exists>c. ip_chksum_pseudo_partial p proto proto_len len src dest = Some c \<and>
      unat c = 65535 - ones (le_sum (pseudo_addrs src dest) + le_sum (take len (chain_bytes p)) +
        le_sum ([0, proto] @ bytes16 (hton16 proto_len)))"
    using pseudo_finish_ones [OF c(1)] pseudo_finish_ones [OF c(2)] by simp_all
qed

lemma unat_inet_chksum: "length d \<le> 0x20000 \<Longrightarrow> unat (inet_chksum a d) = 65535 - ones (le_sum d)"
  by (simp add: inet_chksum_def unat_not_u16 chksum2_ones)

subsection \<open>The other checksum functions of the program\<close>

lemma be_sum_pad16_words: "be_sum (pad16 d) = be_words d"
proof (induction d rule: be_words.induct)
  case (1 a b d)
  then show ?case
    by (simp add: pad16_def read_be16_mem unat_mem16 add.commute split: if_splits)
next
  case (2 a)
  then show ?case
    by (simp add: pad16_def read_be16_mem unat_mem16)
qed (simp add: pad16_def)

lemma be_words_eqm: "eqm (256 * le_sum d) (be_words d)"
proof -
  have "eqm (256 * le_sum d) (256 * (256 * be_words d))"
    by (intro eqm_mult eqm_sym [OF be_words_le_sum])
  also have "eqm \<dots> (be_words d)"
    using eqm_swap [of "be_words d" 0] by simp
  finally show ?thesis .
qed

lemma NOT_mem16: "NOT (mem16 a b) = mem16 (NOT a) (NOT b)"
  unfolding mem16_def by (rule bit_word_eqI) (auto simp: bit_simps not_less dest: bit_imp_le_length)

lemma hton16_NOT: "hton16 (NOT x) = NOT (hton16 x)"
  by (rule mem16_cases [of x]) (simp add: hton16_def NOT_mem16)

lemma unat_checksum_fold: "unat (checksum_fold t) = ones (unat t)"
  using checksum_fold_props [of t] by (intro ones_unique) (auto simp: unsigned_eq_0_iff)

subsection \<open>Properties\<close>

text \<open>
  \<^bold>\<open>C25\<close>: the three versions of \<open>lwip_standard_chksum\<close> compute the same value, the one's
  complement sum of the words, whatever the alignment of the buffer, for up to \<open>0x20000\<close>
  bytes: neither the unrolled loop with its carries nor the odd bytes at the ends change it.
\<close>

theorem lwip_chksum_versions:
  assumes "length d \<le> 0x20000"
  shows "lwip_standard_chksum2 addr d = lwip_standard_chksum1 d \<and> lwip_standard_chksum3 addr d = lwip_standard_chksum1 d \<and>
    unat (lwip_standard_chksum1 d) = ones (le_sum d)"
  using chksum1_ones [OF assms] chksum2_ones [OF assms] chksum3_ones by (simp add: word_unat_eq_iff)

theorem lwip_chksum_versions_witness:
  "lwip_standard_chksum2 3 [1, 2, 3, 4, 5, 6, 7, 8, 9, 10, 11] = lwip_standard_chksum1 [1, 2, 3, 4, 5, 6, 7, 8, 9, 10, 11] \<and>
   unat (lwip_standard_chksum1 [1, 2, 3, 4, 5, 6, 7, 8, 9, 10, 11]) = 7716"
  using lwip_chksum_versions [of "[1, 2, 3, 4, 5, 6, 7, 8, 9, 10, 11]" 3] by (simp add: ones_def)



text \<open>
  \<^bold>\<open>C27\<close>: lwIP and the code around it agree on checksums: \<open>inet_chksum\<close> over an IPv4 header
  is what \<open>ipv4_checksum\<close> computes for it, and it is 0, which lwIP takes as correct, exactly
  for the buffers that pass the receiver's check of RFC 1071.
\<close>

theorem lwip_badvpn_checksum:
  assumes "even (length opts)" "length opts \<le> 40" "length d \<le> 0x20000"
  shows "inet_chksum a (ipv4_header_bytes h @ opts) = ipv4_checksum h opts \<and>
    (inet_chksum a d = 0 \<longleftrightarrow> rfc1071_ok (pad16 d))"
proof -
  let ?b = "ipv4_header_bytes h @ opts" and ?t = "sum_be16 (sum_be16 0 (ipv4_header_bytes h)) opts"
  have "unat ?t = be_words ?b"
    using unat_ipv4_sum [OF assms(1,2)] be_sum_pad16_words [of ?b] assms(1) by (simp add: pad16_def)
  then have "unat (hton16 (ucast (checksum_fold ?t))) = ones (256 * ones (be_words ?b))"
    by (simp add: unat_htons unat_ucast_small unat_checksum_fold ones_less lwip_htons_hton16 [symmetric])
  also have "\<dots> = ones (le_sum ?b)"
    by (intro ones_cong eqm_trans [OF eqm_mult [OF eqm_ones] be_words_le_sum]) (simp add: be_words_eq_0)
  finally have "inet_chksum a ?b = ipv4_checksum h opts"
    using assms(2) by (simp add: word_unat_eq_iff unat_inet_chksum ipv4_checksum_def ucast_not_u32 hton16_NOT unat_not_u16)
  moreover have "inet_chksum a d = 0 \<longleftrightarrow> ones (le_sum d) = 65535"
    using unat_inet_chksum [OF assms(3), of a] ones_less [of "le_sum d"] by (auto simp: word_unat_eq_iff)
  moreover have "ones (le_sum d) = 65535 \<longleftrightarrow> le_sum d \<noteq> 0 \<and> eqm (le_sum d) 0"
    using ones_eq [of 65535 "le_sum d"] eqm_ones [of "le_sum d"] by (cases "le_sum d = 0") (auto simp: eqm_def ones_def)
  moreover have "eqm (le_sum d) 0 \<longleftrightarrow> eqm (be_words d) 0"
    using eqm_trans [OF eqm_sym [OF be_words_eqm] eqm_mult [of "le_sum d" 0 256]]
      eqm_trans [OF eqm_sym [OF be_words_le_sum] eqm_mult [of "be_words d" 0 256]] by auto
  ultimately show ?thesis
    by (auto simp: rfc1071_ok_def be_sum_pad16_words be_words_eq_0 eqm_def)
qed

theorem lwip_badvpn_checksum_witness:
  "inet_chksum 0 (ipv4_header_bytes (ipv4_header_of (replicate 20 7)) @ []) = ipv4_checksum (ipv4_header_of (replicate 20 7)) [] \<and>
   (inet_chksum 1 [0xFF, 0xFE, 0, 1] = 0 \<longleftrightarrow> rfc1071_ok (pad16 [0xFF, 0xFE, 0, 1]))"
  using lwip_badvpn_checksum [of "[]" "[]" 0 "ipv4_header_of (replicate 20 7)"]
    lwip_badvpn_checksum [of "[]" "[0xFF, 0xFE, 0, 1]" 1] by simp

end
