(* ===== verification/UdpGwProto.thy ===== *)
theory UdpGwProto
  imports SockAddr
begin

text \<open>
  The messages between the UDP clients and their gateway: \<^verbatim>\<open>protocol/udpgw_proto.h\<close>, as
  compiled for Android. The header structs are their memory images; an address is read
  back from the bytes in front of the payload.
\<close>

abbreviation (input) "UDPGW_CLIENT_FLAG_KEEPALIVE \<equiv> (1 :: byte)"
abbreviation (input) "UDPGW_CLIENT_FLAG_REBIND \<equiv> (2 :: byte)"
abbreviation (input) "UDPGW_CLIENT_FLAG_DNS \<equiv> (4 :: byte)"
abbreviation (input) "UDPGW_CLIENT_FLAG_IPV6 \<equiv> (8 :: byte)"

definition udpgw_header_bytes :: "byte \<Rightarrow> u16 \<Rightarrow> byte list" where
  "udpgw_header_bytes flags conid = flags # bytes16 conid"

definition socks_udp_header_bytes :: "u16 \<Rightarrow> byte \<Rightarrow> byte \<Rightarrow> byte list" where
  "socks_udp_header_bytes rsv frag atyp = bytes16 rsv @ [frag, atyp]"

definition udpgw_addr_ipv4_bytes :: "u32 \<Rightarrow> u16 \<Rightarrow> byte list" where
  "udpgw_addr_ipv4_bytes ip port = bytes32 ip @ bytes16 port"

definition udpgw_addr_ipv6_bytes :: "byte list \<Rightarrow> u16 \<Rightarrow> byte list" where
  "udpgw_addr_ipv6_bytes ip port = ip @ bytes16 port"

text \<open>The \<^verbatim>\<open>switch\<close> over the address type of both senders, which writes nothing for other types.\<close>

fun udpgw_addr_bytes :: "BAddr \<Rightarrow> byte list" where
  "udpgw_addr_bytes (BAddr_IPv4 ip port) = udpgw_addr_ipv4_bytes ip port"
| "udpgw_addr_bytes (BAddr_IPv6 ip port) = udpgw_addr_ipv6_bytes ip port"
| "udpgw_addr_bytes _ = []"

text \<open>The address in front of the data, and the data behind it.\<close>

definition udpgw_read_addr :: "bool \<Rightarrow> byte list \<Rightarrow> (BAddr \<times> byte list) option" where
  "udpgw_read_addr ipv6 data =
     (if ipv6 then
        if length data < 18 then None
        else Some (BAddr_MakeIPv6 (take 16 data) (mem16 (data ! 16) (data ! 17)), drop 18 data)
      else if length data < 6 then None
      else Some (BAddr_MakeIPv4 (mem32_of data) (mem16 (data ! 4) (data ! 5)), drop 6 data))"

definition udpgw_compute_mtu :: "int \<Rightarrow> int" where
  "udpgw_compute_mtu dgram_mtu =
     (case bsize_toint (bsize_add (bsize_fromsize 4)
             (bsize_add (bsize_max (bsize_fromsize 6) (bsize_fromsize 18)) (bsize_fromint dgram_mtu))) of
        None \<Rightarrow> -1
      | Some s \<Rightarrow> s)"

lemma udpgw_compute_mtu_eq:
  assumes "0 \<le> dgram_mtu" "dgram_mtu \<le> INT_MAX"
  shows "udpgw_compute_mtu dgram_mtu = (if dgram_mtu + 22 \<le> INT_MAX then dgram_mtu + 22 else -1)"
  using assms
  by (auto simp: udpgw_compute_mtu_def bsize_toint_abs bsize_abs_add bsize_abs_max bsize_abs_fromint bsize_fit_def)

lemma length_udpgw_headers [simp]:
  "length (udpgw_header_bytes flags conid) = 3" "length (socks_udp_header_bytes rsv frag atyp) = 4"
  by (simp_all add: udpgw_header_bytes_def socks_udp_header_bytes_def)

lemma length_udpgw_addr_bytes:
  "BAddr_is_ip a \<Longrightarrow> length (udpgw_addr_bytes a) = (if BAddr_type a = 2 then 18 else 6)"
  by (cases a) (simp_all add: udpgw_addr_ipv4_bytes_def udpgw_addr_ipv6_bytes_def)

text \<open>The address is read back as it was written.\<close>

lemma udpgw_read_addr_bytes:
  assumes "BAddr_is_ip a"
  shows "udpgw_read_addr (BAddr_type a = 2) (udpgw_addr_bytes a @ data) = Some (a, data)"
proof (cases a)
  case (BAddr_IPv4 ip port)
  then show ?thesis
    by (simp add: udpgw_read_addr_def udpgw_addr_ipv4_bytes_def BAddr_MakeIPv4_def mem32_of_def bytes32_def bytes16_def)
next
  case (BAddr_IPv6 ip port)
  then have "length ip = 16"
    using assms by simp
  then show ?thesis
    using BAddr_IPv6 by (simp add: udpgw_read_addr_def udpgw_addr_ipv6_bytes_def BAddr_MakeIPv6_def bytes16_def nth_append)
qed (use assms in simp_all)

lemma udpgw_read_addr_ip: "udpgw_read_addr ipv6 data = Some (a, rest) \<Longrightarrow> BAddr_is_ip a"
  by (auto simp: udpgw_read_addr_def BAddr_MakeIPv4_def BAddr_MakeIPv6_def split: if_splits)

end
