(* ===== verification/LinkedList.thy ===== *)
theory LinkedList
  imports Prelude
begin

text \<open>
  The intrusive doubly linked list of \<^verbatim>\<open>structure/LinkedList1.h\<close>. Nodes live in memory and
  are named by their address; the memory is split by field. The operations are the pointer
  updates of the source, in their order. The lemmas relate a memory to the sequence of the
  nodes it represents and show what each operation does to that sequence; the interface
  \<open>node_list\<close> is what the users of the list rely on.
\<close>

subsection \<open>Operations\<close>

record LinkedList1 =
  ll_p :: "addr \<Rightarrow> addr"
  ll_n :: "addr \<Rightarrow> addr"
  ll_first :: addr
  ll_last :: addr

definition node_set_p :: "LinkedList1 \<Rightarrow> addr \<Rightarrow> addr \<Rightarrow> LinkedList1" where
  "node_set_p s x v = s\<lparr>ll_p := (ll_p s)(x := v)\<rparr>"

definition node_set_n :: "LinkedList1 \<Rightarrow> addr \<Rightarrow> addr \<Rightarrow> LinkedList1" where
  "node_set_n s x v = s\<lparr>ll_n := (ll_n s)(x := v)\<rparr>"

lemmas node_set_defs = node_set_p_def node_set_n_def

definition LinkedList1_Init :: "LinkedList1 \<Rightarrow> LinkedList1" where
  "LinkedList1_Init s = s\<lparr>ll_first := NULL, ll_last := NULL\<rparr>"

definition LinkedList1_IsEmpty :: "LinkedList1 \<Rightarrow> bool" where
  "LinkedList1_IsEmpty s \<longleftrightarrow> ll_first s = NULL"

definition LinkedList1_GetFirst :: "LinkedList1 \<Rightarrow> addr" where
  "LinkedList1_GetFirst s = ll_first s"

definition LinkedList1_GetLast :: "LinkedList1 \<Rightarrow> addr" where
  "LinkedList1_GetLast s = ll_last s"

definition LinkedList1_Prepend :: "LinkedList1 \<Rightarrow> addr \<Rightarrow> LinkedList1" where
  "LinkedList1_Prepend s node =
     (let s = node_set_p s node NULL;
          s = node_set_n s node (ll_first s);
          s = (if ll_first s \<noteq> NULL then node_set_p s (ll_first s) node else s\<lparr>ll_last := node\<rparr>)
      in s\<lparr>ll_first := node\<rparr>)"

definition LinkedList1_Append :: "LinkedList1 \<Rightarrow> addr \<Rightarrow> LinkedList1" where
  "LinkedList1_Append s node =
     (let s = node_set_p s node (ll_last s);
          s = node_set_n s node NULL;
          s = (if ll_last s \<noteq> NULL then node_set_n s (ll_last s) node else s\<lparr>ll_first := node\<rparr>)
      in s\<lparr>ll_last := node\<rparr>)"

definition LinkedList1_InsertBefore :: "LinkedList1 \<Rightarrow> addr \<Rightarrow> addr \<Rightarrow> LinkedList1" where
  "LinkedList1_InsertBefore s node target =
     (let s = node_set_p s node (ll_p s target);
          s = node_set_n s node target;
          s = (if ll_p s target \<noteq> NULL then node_set_n s (ll_p s target) node else s\<lparr>ll_first := node\<rparr>)
      in node_set_p s target node)"

definition LinkedList1_InsertAfter :: "LinkedList1 \<Rightarrow> addr \<Rightarrow> addr \<Rightarrow> LinkedList1" where
  "LinkedList1_InsertAfter s node target =
     (let s = node_set_p s node target;
          s = node_set_n s node (ll_n s target);
          s = (if ll_n s target \<noteq> NULL then node_set_p s (ll_n s target) node else s\<lparr>ll_last := node\<rparr>)
      in node_set_n s target node)"

definition LinkedList1_Remove :: "LinkedList1 \<Rightarrow> addr \<Rightarrow> LinkedList1" where
  "LinkedList1_Remove s node =
     (let s = (if ll_p s node \<noteq> NULL then node_set_n s (ll_p s node) (ll_n s node) else s\<lparr>ll_first := ll_n s node\<rparr>)
      in if ll_n s node \<noteq> NULL then node_set_p s (ll_n s node) (ll_p s node) else s\<lparr>ll_last := ll_p s node\<rparr>)"

text \<open>\<open>ins_first\<close> and \<open>ins_last\<close> are the fields of the list that is inserted, which is passed by value.\<close>

definition LinkedList1_InsertListAfter :: "LinkedList1 \<Rightarrow> addr \<Rightarrow> addr \<Rightarrow> addr \<Rightarrow> LinkedList1" where
  "LinkedList1_InsertListAfter s ins_first ins_last target =
     (if ins_first = NULL then s
      else let t_next = (if target \<noteq> NULL then ll_n s target else ll_first s);
               s = node_set_p s ins_first target;
               s = node_set_n s ins_last t_next;
               s = (if target \<noteq> NULL then node_set_n s target ins_first else s\<lparr>ll_first := ins_first\<rparr>)
           in if t_next \<noteq> NULL then node_set_p s t_next ins_last else s\<lparr>ll_last := ins_last\<rparr>)"

definition LinkedList1Node_Next :: "LinkedList1 \<Rightarrow> addr \<Rightarrow> addr" where
  "LinkedList1Node_Next s node = ll_n s node"

definition LinkedList1Node_Prev :: "LinkedList1 \<Rightarrow> addr \<Rightarrow> addr" where
  "LinkedList1Node_Prev s node = ll_p s node"

subsection \<open>The sequence a memory represents\<close>

definition first_or :: "addr list \<Rightarrow> addr \<Rightarrow> addr" where
  "first_or xs n = (if xs = [] then n else hd xs)"

definition last_or :: "addr list \<Rightarrow> addr \<Rightarrow> addr" where
  "last_or xs p = (if xs = [] then p else last xs)"

lemma first_or_simps [simp]: "first_or [] n = n" "first_or (x # xs) n = x" "first_or (xs @ ys) n = first_or xs (first_or ys n)"
  by (simp_all add: first_or_def)

lemma last_or_simps [simp]: "last_or [] p = p" "last_or (x # xs) p = last_or xs x" "last_or (xs @ ys) p = last_or ys (last_or xs p)"
  by (simp_all add: last_or_def)

text \<open>The nodes \<open>xs\<close> are linked to each other, and at the ends to \<open>p\<close> and \<open>n\<close>.\<close>

fun dseg :: "LinkedList1 \<Rightarrow> addr \<Rightarrow> addr list \<Rightarrow> addr \<Rightarrow> bool" where
  "dseg s p [] n \<longleftrightarrow> True"
| "dseg s p (x # xs) n \<longleftrightarrow> x \<noteq> NULL \<and> ll_p s x = p \<and> ll_n s x = first_or xs n \<and> dseg s x xs n"

definition ll_rep :: "LinkedList1 \<Rightarrow> addr list \<Rightarrow> bool" where
  "ll_rep s xs \<longleftrightarrow> distinct xs \<and> dseg s NULL xs NULL \<and> ll_first s = first_or xs NULL \<and> ll_last s = last_or xs NULL"

lemma dseg_append [simp]: "dseg s p (xs @ ys) n \<longleftrightarrow> dseg s p xs (first_or ys n) \<and> dseg s (last_or xs p) ys n"
  by (induction xs arbitrary: p) auto

lemma dseg_cong: "(\<And>x. x \<in> set xs \<Longrightarrow> ll_p s' x = ll_p s x \<and> ll_n s' x = ll_n s x) \<Longrightarrow> dseg s' p xs n = dseg s p xs n"
  by (induction xs arbitrary: p) auto

lemma dseg_not_null: "dseg s p xs n \<Longrightarrow> x \<in> set xs \<Longrightarrow> x \<noteq> NULL"
  by (induction xs arbitrary: p) auto

text \<open>A segment with its last next and first previous pointer redirected.\<close>

lemma dseg_retarget:
  assumes "dseg s p xs n" "distinct xs"
    and "\<And>x. x \<in> set xs \<Longrightarrow> ll_p s' x = (if x = first_or xs NULL then p' else ll_p s x)"
    and "\<And>x. x \<in> set xs \<Longrightarrow> ll_n s' x = (if x = last_or xs NULL then n' else ll_n s x)"
  shows "dseg s' p' xs n'"
  using assms
proof (induction xs arbitrary: p p' n)
  case (Cons x xs)
  show ?case
  proof (cases xs)
    case Nil
    then show ?thesis
      using Cons.prems by simp
  next
    case (Cons y ys)
    have "last_or (x # xs) NULL \<noteq> x"
      using Cons.prems(2) local.Cons by (auto simp: last_or_def)
    moreover have "dseg s' x xs n'"
      by (rule Cons.IH [OF _ _ _]) (use Cons.prems local.Cons in \<open>auto simp: last_or_def\<close>)
    ultimately show ?thesis
      using Cons.prems local.Cons by simp
  qed
qed auto

lemma dseg_ends:
  assumes "dseg s p xs n" "xs \<noteq> []"
  shows "ll_p s (first_or xs NULL) = p" "ll_n s (last_or xs NULL) = n"
  using assms by (induction xs arbitrary: p) (auto simp: first_or_def last_or_def split: if_splits)

lemma ends_in_set: "xs \<noteq> [] \<Longrightarrow> first_or xs n \<in> set xs \<and> last_or xs n \<in> set xs"
  by (simp add: first_or_def last_or_def)

text \<open>How two segments are joined by pointer updates at their common end.\<close>

lemma dseg_set_n:
  assumes "dseg s p xs n" "distinct xs" "xs \<noteq> []"
  shows "dseg (node_set_n s (last_or xs NULL) n') p xs n'"
  using assms dseg_ends(1) [OF assms(1,3)] by (intro dseg_retarget [OF assms(1,2)]) (auto simp: node_set_n_def)

lemma dseg_set_p:
  assumes "dseg s p xs n" "distinct xs" "xs \<noteq> []"
  shows "dseg (node_set_p s (first_or xs NULL) p') p' xs n"
  using assms dseg_ends(2) [OF assms(1,3)] by (intro dseg_retarget [OF assms(1,2)]) (auto simp: node_set_p_def)

lemma dseg_frame [simp]:
  "x \<notin> set xs \<Longrightarrow> dseg (node_set_n s x v) p xs n = dseg s p xs n"
  "x \<notin> set xs \<Longrightarrow> dseg (node_set_p s x v) p xs n = dseg s p xs n"
  "dseg (s\<lparr>ll_first := v\<rparr>) p xs n = dseg s p xs n"
  "dseg (s\<lparr>ll_last := v\<rparr>) p xs n = dseg s p xs n"
  by (rule dseg_cong; auto simp: node_set_defs)+

lemma node_set_fields [simp]:
  "ll_first (node_set_p s x v) = ll_first s" "ll_last (node_set_p s x v) = ll_last s"
  "ll_first (node_set_n s x v) = ll_first s" "ll_last (node_set_n s x v) = ll_last s"
  "ll_n (node_set_p s x v) = ll_n s" "ll_p (node_set_n s x v) = ll_p s"
  "ll_p (node_set_p s x v) = (ll_p s)(x := v)" "ll_n (node_set_n s x v) = (ll_n s)(x := v)"
  by (simp_all add: node_set_defs)

lemma first_or_null: "dseg s p xs n \<Longrightarrow> first_or xs NULL = NULL \<longleftrightarrow> xs = []"
  by (cases xs) auto

lemma last_or_null: "dseg s p xs n \<Longrightarrow> last_or xs NULL = NULL \<longleftrightarrow> xs = []"
  using dseg_not_null [of s p xs n "last xs"] by (auto simp: last_or_def)

subsection \<open>What the operations do\<close>

lemma LinkedList1_Init_ok: "ll_rep (LinkedList1_Init s) []"
  by (simp add: ll_rep_def LinkedList1_Init_def)

lemma LinkedList1_ends_ok:
  assumes "ll_rep s xs"
  shows "LinkedList1_IsEmpty s \<longleftrightarrow> xs = []" "LinkedList1_GetFirst s = first_or xs NULL" "LinkedList1_GetLast s = last_or xs NULL"
  using assms first_or_null by (auto simp: ll_rep_def LinkedList1_IsEmpty_def LinkedList1_GetFirst_def LinkedList1_GetLast_def)

lemma LinkedList1Node_ok:
  assumes "ll_rep s (xs @ x # ys)"
  shows "LinkedList1Node_Next s x = first_or ys NULL" "LinkedList1Node_Prev s x = last_or xs NULL"
  using assms by (auto simp: ll_rep_def LinkedList1Node_Next_def LinkedList1Node_Prev_def)

text \<open>
  All updates of the list join the end \<open>l\<close> of a left part and the start \<open>r\<close> of a right part,
  where \<open>NULL\<close> stands for an empty part.
\<close>

definition join_parts :: "LinkedList1 \<Rightarrow> addr \<Rightarrow> addr \<Rightarrow> LinkedList1" where
  "join_parts s l r =
     (let s = (if l \<noteq> NULL then node_set_n s l r else s\<lparr>ll_first := r\<rparr>)
      in if r \<noteq> NULL then node_set_p s r l else s\<lparr>ll_last := l\<rparr>)"

lemma join_parts_first: "ll_first (join_parts s l r) = (if l = NULL then r else ll_first s)"
  and join_parts_last: "ll_last (join_parts s l r) = (if r = NULL then l else ll_last s)"
  by (simp_all add: join_parts_def Let_def)

lemma dseg_join_frame:
  assumes "l \<notin> set xs" "r \<notin> set xs"
  shows "dseg (join_parts s l r) p xs n = dseg s p xs n"
  using assms by (simp add: join_parts_def Let_def)

lemma dseg_join:
  assumes "dseg s p xs n" "dseg s q ys m" "distinct (xs @ ys)" "xs = [] \<Longrightarrow> p = NULL" "ys = [] \<Longrightarrow> m = NULL"
  shows "dseg (join_parts s (last_or xs NULL) (first_or ys NULL)) p (xs @ ys) m"
proof -
  let ?l = "last_or xs NULL" and ?r = "first_or ys NULL"
  define s1 where "s1 = (if xs \<noteq> [] then node_set_n s ?l ?r else s\<lparr>ll_first := ?r\<rparr>)"
  define s2 where "s2 = (if ys \<noteq> [] then node_set_p s1 ?r ?l else s1\<lparr>ll_last := ?l\<rparr>)"
  have s2: "join_parts s ?l ?r = s2"
    using first_or_null [OF assms(2)] last_or_null [OF assms(1)] by (simp add: join_parts_def s1_def s2_def Let_def)
  have d: "distinct xs" "distinct ys" "xs \<noteq> [] \<Longrightarrow> ?l \<notin> set ys" "ys \<noteq> [] \<Longrightarrow> ?r \<notin> set xs"
    using assms(3) ends_in_set [of xs NULL] ends_in_set [of ys NULL] by auto
  have "dseg s1 p xs ?r" "dseg s1 q ys m"
    using dseg_set_n [OF assms(1) d(1)] assms(2) d(3) by (auto simp: s1_def)
  then have "dseg s2 p xs ?r" "dseg s2 ?l ys m"
    using dseg_set_p [OF _ d(2), of s1 q m ?l] d(4) by (auto simp: s2_def)
  moreover have "last_or xs p = ?l" "first_or ys m = ?r"
    using assms(4,5) by (auto simp: first_or_def last_or_def)
  ultimately show ?thesis
    by (simp add: s2)
qed

lemma LinkedList1_Remove_ok:
  assumes "ll_rep s (xs @ x # ys)"
  shows "ll_rep (LinkedList1_Remove s x) (xs @ ys)"
proof -
  have r: "distinct (xs @ x # ys)" "dseg s NULL xs x" "ll_p s x = last_or xs NULL" "ll_n s x = first_or ys NULL"
    "dseg s x ys NULL" "ll_first s = first_or xs x" "ll_last s = last_or ys x"
    using assms by (auto simp: ll_rep_def)
  have "last_or xs NULL \<noteq> x" "x \<noteq> first_or ys NULL"
    using r(1) ends_in_set [of xs NULL] ends_in_set [of ys NULL] assms by (cases "xs = []"; cases "ys = []"; auto simp: ll_rep_def)+
  then have "LinkedList1_Remove s x = join_parts s (last_or xs NULL) (first_or ys NULL)"
    using r by (simp add: LinkedList1_Remove_def join_parts_def Let_def)
  then show ?thesis
    using r dseg_join [OF r(2,5)] first_or_null [OF r(5)] last_or_null [OF r(2)]
    by (auto simp: ll_rep_def join_parts_first join_parts_last first_or_def last_or_def)
qed

text \<open>A node that is not in the list enters between two parts of it.\<close>

lemma join_node:
  assumes "ll_rep s (xs @ ys)" "x \<notin> set (xs @ ys)" "x \<noteq> NULL"
  shows "ll_rep (join_parts (join_parts s (last_or xs NULL) x) x (first_or ys NULL)) (xs @ x # ys)"
proof -
  let ?l = "last_or xs NULL" and ?r = "first_or ys NULL"
  have r: "distinct (xs @ ys)" "dseg s NULL xs ?r" "dseg s ?l ys NULL" "ll_first s = first_or (xs @ ys) NULL" "ll_last s = last_or (xs @ ys) NULL"
    using assms(1) by (auto simp: ll_rep_def)
  define s1 where "s1 = join_parts s ?l x"
  have 1: "dseg s1 NULL (xs @ [x]) (ll_n s x)"
    using dseg_join [OF r(2), of "ll_p s x" "[x]" "ll_n s x"] r(1) assms(2,3) by (simp add: s1_def)
  have "?l \<notin> set ys"
    using r(1) dseg_not_null [OF r(3)] ends_in_set [of xs NULL] by (cases "xs = []") auto
  then have "dseg s1 ?l ys NULL"
    using r(3) assms(2) by (simp add: s1_def dseg_join_frame)
  from dseg_join [OF 1 this] have "dseg (join_parts s1 x ?r) NULL (xs @ x # ys) NULL"
    using r(1) assms(2) by simp
  then show ?thesis
    using r assms(2,3) first_or_null [OF r(3)] last_or_null [OF r(2)]
    by (auto simp: ll_rep_def s1_def join_parts_first join_parts_last first_or_def last_or_def)
qed

lemma LinkedList1_Prepend_ok:
  assumes "ll_rep s xs" "x \<notin> set xs" "x \<noteq> NULL"
  shows "ll_rep (LinkedList1_Prepend s x) (x # xs)"
proof -
  have "ll_first s = first_or xs NULL" "first_or xs NULL \<noteq> x"
    using assms ends_in_set [of xs NULL] by (cases "xs = []"; auto simp: ll_rep_def)+
  then have "LinkedList1_Prepend s x = join_parts (join_parts s NULL x) x (first_or xs NULL)"
    using assms(3) by (simp add: LinkedList1_Prepend_def join_parts_def node_set_defs Let_def fun_upd_twist)
  then show ?thesis
    using join_node [of s "[]" xs x] assms by simp
qed

lemma LinkedList1_Append_ok:
  assumes "ll_rep s xs" "x \<notin> set xs" "x \<noteq> NULL"
  shows "ll_rep (LinkedList1_Append s x) (xs @ [x])"
proof -
  have "ll_last s = last_or xs NULL" "last_or xs NULL \<noteq> x"
    using assms ends_in_set [of xs NULL] by (cases "xs = []"; auto simp: ll_rep_def)+
  then have "LinkedList1_Append s x = join_parts (join_parts s (last_or xs NULL) x) x NULL"
    using assms(3) by (simp add: LinkedList1_Append_def join_parts_def node_set_defs Let_def fun_upd_twist)
  then show ?thesis
    using join_node [of s xs "[]" x] assms by simp
qed

lemma LinkedList1_InsertBefore_ok:
  assumes "ll_rep s (xs @ t # ys)" "x \<notin> set (xs @ t # ys)" "x \<noteq> NULL"
  shows "ll_rep (LinkedList1_InsertBefore s x t) (xs @ x # t # ys)"
proof -
  have "ll_p s t = last_or xs NULL" "last_or xs NULL \<noteq> x" "t \<noteq> x" "t \<noteq> NULL"
    using assms ends_in_set [of xs NULL] by (cases "xs = []"; auto simp: ll_rep_def)+
  then have "LinkedList1_InsertBefore s x t = join_parts (join_parts s (last_or xs NULL) x) x t"
    using assms(3) by (simp add: LinkedList1_InsertBefore_def join_parts_def node_set_defs Let_def fun_upd_twist)
  then show ?thesis
    using join_node [of s xs "t # ys" x] assms by simp
qed

lemma LinkedList1_InsertAfter_ok:
  assumes "ll_rep s (xs @ t # ys)" "x \<notin> set (xs @ t # ys)" "x \<noteq> NULL"
  shows "ll_rep (LinkedList1_InsertAfter s x t) (xs @ t # x # ys)"
proof -
  have "ll_n s t = first_or ys NULL" "first_or ys NULL \<noteq> x" "t \<noteq> x" "t \<noteq> NULL"
    using assms ends_in_set [of ys NULL] by (cases "ys = []"; auto simp: ll_rep_def)+
  then have "LinkedList1_InsertAfter s x t = join_parts (join_parts s t x) x (first_or ys NULL)"
    using assms(3) by (simp add: LinkedList1_InsertAfter_def join_parts_def node_set_defs Let_def fun_upd_twist)
  then show ?thesis
    using join_node [of s "xs @ [t]" ys x] assms by (simp add: last_or_def)
qed

text \<open>The list that is inserted lies in the same memory, with its own ends.\<close>

lemma LinkedList1_InsertListAfter_ok:
  assumes "ll_rep s (xs @ ys)" "ll_rep (s\<lparr>ll_first := f, ll_last := l\<rparr>) zs" "set zs \<inter> set (xs @ ys) = {}"
  shows "ll_rep (LinkedList1_InsertListAfter s f l (last_or xs NULL)) (xs @ zs @ ys)"
proof (cases "zs = []")
  case False
  let ?l = "last_or xs NULL" and ?r = "first_or ys NULL"
  have r: "distinct (xs @ ys)" "dseg s NULL xs ?r" "dseg s ?l ys NULL" "ll_first s = first_or (xs @ ys) NULL" "ll_last s = last_or (xs @ ys) NULL"
    using assms(1) by (auto simp: ll_rep_def)
  have z: "distinct zs" "dseg s NULL zs NULL" "f = first_or zs NULL" "l = last_or zs NULL"
    using assms(2) by (auto simp: ll_rep_def)
  have n: "f \<noteq> NULL" "l \<noteq> NULL" "f \<in> set zs" "l \<in> set zs"
    using z False first_or_null last_or_null ends_in_set [of zs NULL] by auto
  have tn: "?l \<noteq> NULL \<Longrightarrow> ll_n s ?l = ?r" "?l = NULL \<Longrightarrow> xs = []"
    using dseg_ends(2) [OF r(2)] last_or_null [OF r(2)] by auto
  have "?l \<noteq> l" "?r \<noteq> f" and ys: "?l \<notin> set ys"
    using n assms(3) dseg_not_null [OF z(2)] dseg_not_null [OF r(3)] r(1) ends_in_set [of xs NULL] ends_in_set [of ys NULL]
    by (cases "xs = []"; cases "ys = []"; auto)+
  then have eq: "LinkedList1_InsertListAfter s f l ?l = join_parts (join_parts s ?l f) l ?r"
    using n tn r(4) by (auto simp: LinkedList1_InsertListAfter_def join_parts_def node_set_defs Let_def fun_upd_twist [of l ?l])
  define s1 where "s1 = join_parts s ?l f"
  have 1: "dseg s1 NULL (xs @ zs) NULL"
    using dseg_join [OF r(2) z(2)] z r(1) assms(3) by (auto simp: s1_def)
  moreover have "dseg s1 ?l ys NULL"
    using r(3) n(3) assms(3) ys by (auto simp: s1_def dseg_join_frame)
  moreover have dist: "distinct ((xs @ zs) @ ys)"
    using r(1) z(1) assms(3) by auto
  moreover have "last_or (xs @ zs) NULL = l"
    using z(4) False by (simp add: last_or_def)
  ultimately have "dseg (join_parts s1 l ?r) NULL (xs @ zs @ ys) NULL"
    using dseg_join [OF 1 _ dist] by auto
  then show ?thesis
    unfolding eq using r dist z(1,3,4) n assms(3) first_or_null [OF r(3)] last_or_null [OF r(2)] False
    by (auto simp: ll_rep_def s1_def join_parts_first join_parts_last first_or_def last_or_def)
qed (use assms in \<open>auto simp: LinkedList1_InsertListAfter_def ll_rep_def\<close>)

subsection \<open>The interface\<close>

text \<open>
  What the users of a list rely on: nodes are appended and removed by address, and the
  first one can be read. A node that is removed and appended becomes the last one, so the
  list keeps its nodes in the order of their last use.
\<close>

locale node_list =
  fixes nrep :: "'s \<Rightarrow> addr list \<Rightarrow> bool"
    and nappend :: "'s \<Rightarrow> addr \<Rightarrow> 's"
    and nremove :: "'s \<Rightarrow> addr \<Rightarrow> 's"
    and nfirst :: "'s \<Rightarrow> addr"
  assumes rep_append: "nrep s xs \<Longrightarrow> x \<notin> set xs \<Longrightarrow> x \<noteq> NULL \<Longrightarrow> nrep (nappend s x) (xs @ [x])"
    and rep_remove: "nrep s (xs @ x # ys) \<Longrightarrow> nrep (nremove s x) (xs @ ys)"
    and rep_first: "nrep s xs \<Longrightarrow> nfirst s = (if xs = [] then NULL else hd xs)"
    and rep_nodes: "nrep s xs \<Longrightarrow> distinct xs \<and> NULL \<notin> set xs"
begin

lemma rep_remove1:
  assumes "nrep s xs" "x \<in> set xs"
  shows "nrep (nremove s x) (remove1 x xs)"
proof -
  obtain ys zs where "xs = ys @ x # zs" "x \<notin> set ys"
    using split_list_first [OF assms(2)] by blast
  then show ?thesis
    using rep_remove assms(1) by (simp add: remove1_append)
qed

lemma rep_touch:
  assumes "nrep s xs" "x \<in> set xs"
  shows "nrep (nappend (nremove s x) x) (remove1 x xs @ [x])"
  using rep_append [OF rep_remove1 [OF assms]] rep_nodes [OF assms(1)] assms(2) by auto

end

interpretation linked: node_list ll_rep LinkedList1_Append LinkedList1_Remove LinkedList1_GetFirst
proof
  show "ll_rep s xs \<Longrightarrow> distinct xs \<and> NULL \<notin> set xs" for s xs
    using dseg_not_null [of s NULL xs NULL NULL] by (auto simp: ll_rep_def)
qed (use LinkedList1_Append_ok LinkedList1_Remove_ok LinkedList1_ends_ok in \<open>auto simp: first_or_def\<close>)



end
