(* ===== verification/AvlTree.thy ===== *)
theory AvlTree
  imports Bytes "HOL-Library.Monad_Syntax"
begin

text \<open>
  The intrusive AVL tree of \<^verbatim>\<open>structure/BAVL.h\<close>, as compiled (no \<^verbatim>\<open>BAVL_COUNT\<close>, no
  \<^verbatim>\<open>BAVL_AUTO_VERIFY\<close>). Nodes live in memory and are named by their address; the memory is
  split by field. The operations are the pointer updates of the source, in their order;
  \<open>NULL\<close> is the address 0. The loops that follow pointers are partial functions: \<open>None\<close>
  means that they do not return, so each lemma below also shows that they do.

  The second half relates a memory to the binary tree it represents and shows that
  insertion and removal keep the search order, the balance factors and the parent links,
  and that lookup and traversal agree with the sorted sequence of the nodes.
\<close>

subsection \<open>Memory\<close>

text \<open>\<open>link[0]\<close> and \<open>link[1]\<close> are indexed by \<open>False\<close> and \<open>True\<close>.\<close>

record BAVL =
  av_parent :: "addr \<Rightarrow> addr"
  av_link :: "addr \<Rightarrow> bool \<Rightarrow> addr"
  av_balance :: "addr \<Rightarrow> int"
  av_root :: addr

definition set_parent :: "BAVL \<Rightarrow> addr \<Rightarrow> addr \<Rightarrow> BAVL" where
  "set_parent s n p = s\<lparr>av_parent := (av_parent s)(n := p)\<rparr>"

definition set_link :: "BAVL \<Rightarrow> addr \<Rightarrow> bool \<Rightarrow> addr \<Rightarrow> BAVL" where
  "set_link s n d p = s\<lparr>av_link := (av_link s)(n := (av_link s n)(d := p))\<rparr>"

definition set_balance :: "BAVL \<Rightarrow> addr \<Rightarrow> int \<Rightarrow> BAVL" where
  "set_balance s n b = s\<lparr>av_balance := (av_balance s)(n := b)\<rparr>"

lemmas set_defs = set_parent_def set_link_def set_balance_def

definition BAVL_OPTNEG :: "int \<Rightarrow> bool \<Rightarrow> int" where
  "BAVL_OPTNEG a neg = (if neg then - a else a)"

text \<open>
  \<open>cmp\<close> is the comparator of the tree and \<open>val n\<close> the value at \<^verbatim>\<open>offset\<close> from the node \<open>n\<close>,
  which the tree never changes.
\<close>

definition BAVL_compare_nodes :: "('k \<Rightarrow> 'k \<Rightarrow> int) \<Rightarrow> (addr \<Rightarrow> 'k) \<Rightarrow> addr \<Rightarrow> addr \<Rightarrow> int" where
  "BAVL_compare_nodes cmp val n1 n2 = cmp (val n1) (val n2)"

subsection \<open>Rotation, replacement, exchange\<close>

definition BAVL_rotate :: "BAVL \<Rightarrow> addr \<Rightarrow> bool \<Rightarrow> BAVL" where
  "BAVL_rotate s r dir =
     (let nr = av_link s r (\<not> dir);
          s = set_link s r (\<not> dir) (av_link s nr dir);
          s = (if av_link s r (\<not> dir) \<noteq> NULL then set_parent s (av_link s r (\<not> dir)) r else s);
          s = set_link s nr dir r;
          s = set_parent s nr (av_parent s r);
          s = (if av_parent s nr \<noteq> NULL
               then set_link s (av_parent s nr) (r = av_link s (av_parent s r) True) nr
               else s\<lparr>av_root := nr\<rparr>)
      in set_parent s r nr)"

partial_function (option) BAVL_subtree_max :: "BAVL \<Rightarrow> addr \<Rightarrow> addr option" where
  "BAVL_subtree_max s n =
     (if av_link s n True \<noteq> NULL then BAVL_subtree_max s (av_link s n True) else Some n)"

definition BAVL_replace_subtree :: "BAVL \<Rightarrow> addr \<Rightarrow> addr \<Rightarrow> BAVL" where
  "BAVL_replace_subtree s dest n =
     (let s = (if av_parent s dest \<noteq> NULL
               then set_link s (av_parent s dest) (dest = av_link s (av_parent s dest) True) n
               else s\<lparr>av_root := n\<rparr>)
      in if n \<noteq> NULL then set_parent s n (av_parent s dest) else s)"

text \<open>The recurring \<^verbatim>\<open>if (n->link[d] = c) c->parent = n\<close>.\<close>

definition link_child :: "BAVL \<Rightarrow> addr \<Rightarrow> bool \<Rightarrow> addr \<Rightarrow> BAVL" where
  "link_child s n d c =
     (let s = set_link s n d c in if c \<noteq> NULL then set_parent s c n else s)"

text \<open>The nodes are directly connected, \<open>n1\<close> above \<open>n2\<close>; \<open>n1\<close> first takes the children of \<open>n2\<close>.\<close>

definition take_children :: "BAVL \<Rightarrow> addr \<Rightarrow> addr \<Rightarrow> BAVL" where
  "take_children s n1 n2 =
     (let s = link_child s n1 False (av_link s n2 False)
      in link_child s n1 True (av_link s n2 True))"

definition swap_adjacent :: "BAVL \<Rightarrow> addr \<Rightarrow> addr \<Rightarrow> BAVL" where
  "swap_adjacent s n1 n2 =
     (let side = (n2 = av_link s n1 True);
          c = av_link s n1 (\<not> side);
          s = take_children s n1 n2;
          s = set_parent s n2 (av_parent s n1);
          s = (if av_parent s n2 \<noteq> NULL
               then set_link s (av_parent s n2) (n1 = av_link s (av_parent s n1) True) n2
               else s\<lparr>av_root := n2\<rparr>);
          s = set_link s n2 side n1;
          s = set_parent s n1 n2
      in link_child s n2 (\<not> side) c)"

text \<open>The nodes are apart: their parents are exchanged, then their left and their right children.\<close>

definition swap_parents :: "BAVL \<Rightarrow> addr \<Rightarrow> addr \<Rightarrow> BAVL" where
  "swap_parents s n1 n2 =
     (let temp = av_parent s n1;
          s = set_parent s n1 (av_parent s n2);
          s = (if av_parent s n1 \<noteq> NULL
               then set_link s (av_parent s n1) (n2 = av_link s (av_parent s n2) True) n1
               else s\<lparr>av_root := n1\<rparr>);
          s = set_parent s n2 temp
      in if av_parent s n2 \<noteq> NULL
         then set_link s (av_parent s n2) (n1 = av_link s temp True) n2
         else s\<lparr>av_root := n2\<rparr>)"

definition swap_children :: "BAVL \<Rightarrow> bool \<Rightarrow> addr \<Rightarrow> addr \<Rightarrow> BAVL" where
  "swap_children s d n1 n2 =
     (let temp = av_link s n1 d;
          s = link_child s n1 d (av_link s n2 d)
      in link_child s n2 d temp)"

definition swap_apart :: "BAVL \<Rightarrow> addr \<Rightarrow> addr \<Rightarrow> BAVL" where
  "swap_apart s n1 n2 = swap_children (swap_children (swap_parents s n1 n2) False n1 n2) True n1 n2"

definition BAVL_swap_nodes :: "BAVL \<Rightarrow> addr \<Rightarrow> addr \<Rightarrow> BAVL" where
  "BAVL_swap_nodes s n1 n2 =
     (let s = (if av_parent s n2 = n1 \<or> av_parent s n1 = n2
               then if av_parent s n1 = n2 then swap_adjacent s n2 n1 else swap_adjacent s n1 n2
               else swap_apart s n1 n2);
          b = av_balance s n1;
          s = set_balance s n1 (av_balance s n2)
      in set_balance s n2 b)"

subsection \<open>Rebalancing\<close>

text \<open>The transformations of \<open>_BAVL_rebalance\<close> when a balance factor is wrong.\<close>

definition BAVL_transform :: "BAVL \<Rightarrow> addr \<Rightarrow> int \<Rightarrow> BAVL \<times> addr \<times> int" where
  "BAVL_transform s node delta =
     (if av_balance s node = 2 \<or> av_balance s node = -2 then
        let bside = (av_balance s node = 2);
            bsidef = (if bside then 1 else -1);
            child = av_link s node bside;
            k = av_balance s child * bsidef
        in if k = 1 then
             (set_balance (set_balance (BAVL_rotate s node (\<not> bside)) node 0) child 0, child, delta - 1)
           else if k = 0 then
             (set_balance (set_balance (BAVL_rotate s node (\<not> bside)) node (1 * bsidef)) child (-1 * bsidef),
              child, delta)
           else if k = -1 then
             let gchild = av_link s child (\<not> bside);
                 s = BAVL_rotate s child bside;
                 s = BAVL_rotate s node (\<not> bside);
                 s = set_balance s node (- max 0 (av_balance s gchild * bsidef) * bsidef);
                 s = set_balance s child (max 0 (- av_balance s gchild * bsidef) * bsidef)
             in (set_balance s gchild 0, gchild, delta - 1)
           else (s, node, delta)
      else (s, node, delta))"

partial_function (option) BAVL_rebalance :: "BAVL \<Rightarrow> addr \<Rightarrow> bool \<Rightarrow> int \<Rightarrow> BAVL option" where
  "BAVL_rebalance s node side deltac =
     (if deltac = 0 then Some s
      else
        let b = BAVL_OPTNEG (av_balance s node) side;
            delta = max deltac b - max 0 b;
            s = set_balance s node (av_balance s node - BAVL_OPTNEG deltac side);
            (s, node, delta) = BAVL_transform s node delta
        in if av_parent s node \<noteq> NULL
           then BAVL_rebalance s (av_parent s node) (node = av_link s (av_parent s node) True) delta
           else Some s)"

subsection \<open>Operations\<close>

definition BAVL_Init :: "BAVL \<Rightarrow> BAVL" where
  "BAVL_Init s = s\<lparr>av_root := NULL\<rparr>"

partial_function (option) BAVL_insert_find ::
  "('k \<Rightarrow> 'k \<Rightarrow> int) \<Rightarrow> (addr \<Rightarrow> 'k) \<Rightarrow> BAVL \<Rightarrow> addr \<Rightarrow> addr \<Rightarrow> (addr \<times> bool option) option" where
  "BAVL_insert_find cmp val s node c =
     (let comp = BAVL_compare_nodes cmp val node c in
      if comp = 0 then Some (c, None)
      else let side = (comp = 1) in
           if av_link s c side = NULL then Some (c, Some side)
           else BAVL_insert_find cmp val s node (av_link s c side))"

text \<open>The initial fields of an inserted node.\<close>

definition BAVL_fresh :: "BAVL \<Rightarrow> addr \<Rightarrow> addr \<Rightarrow> BAVL" where
  "BAVL_fresh s node par =
     set_balance (set_link (set_link (set_parent s node par) node False NULL) node True NULL) node 0"

text \<open>The result is the tree, the return value and \<^verbatim>\<open>*ref\<close>.\<close>

definition BAVL_Insert ::
  "('k \<Rightarrow> 'k \<Rightarrow> int) \<Rightarrow> (addr \<Rightarrow> 'k) \<Rightarrow> BAVL \<Rightarrow> addr \<Rightarrow> (BAVL \<times> bool \<times> addr) option" where
  "BAVL_Insert cmp val s node =
     (if av_root s = NULL then Some (BAVL_fresh (s\<lparr>av_root := node\<rparr>) node NULL, True, NULL)
      else do {
        (c, place) \<leftarrow> BAVL_insert_find cmp val s node (av_root s);
        (case place of
           None \<Rightarrow> Some (s, False, c)
         | Some side \<Rightarrow> do {
             s \<leftarrow> BAVL_rebalance (BAVL_fresh (set_link s c side node) node c) c side 1;
             Some (s, True, c)
           })
      })"

text \<open>Removal of a node with at most one child.\<close>

definition remove_single :: "BAVL \<Rightarrow> addr \<Rightarrow> BAVL option" where
  "remove_single s node =
     (let par = av_parent s node;
          child = (if av_link s node False \<noteq> NULL then av_link s node False else av_link s node True)
      in if par \<noteq> NULL
         then let side = (node = av_link s par True)
              in BAVL_rebalance (BAVL_replace_subtree s node child) par side (-1)
         else Some (BAVL_replace_subtree s node child))"

definition BAVL_Remove :: "BAVL \<Rightarrow> addr \<Rightarrow> BAVL option" where
  "BAVL_Remove s node =
     (if av_link s node False \<noteq> NULL \<and> av_link s node True \<noteq> NULL
      then do {
        max \<leftarrow> BAVL_subtree_max s (av_link s node False);
        remove_single (BAVL_swap_nodes s node max) node
      }
      else remove_single s node)"

definition BAVL_IsEmpty :: "BAVL \<Rightarrow> bool" where
  "BAVL_IsEmpty s \<longleftrightarrow> av_root s = NULL"

partial_function (option) BAVL_lookup_from ::
  "('k \<Rightarrow> 'k \<Rightarrow> int) \<Rightarrow> (addr \<Rightarrow> 'k) \<Rightarrow> BAVL \<Rightarrow> 'k \<Rightarrow> addr \<Rightarrow> addr option" where
  "BAVL_lookup_from cmp val s v c =
     (let comp = cmp v (val c) in
      if comp = 0 then Some c
      else let side = (comp = 1) in
           if av_link s c side = NULL then Some c
           else BAVL_lookup_from cmp val s v (av_link s c side))"

definition BAVL_Lookup :: "('k \<Rightarrow> 'k \<Rightarrow> int) \<Rightarrow> (addr \<Rightarrow> 'k) \<Rightarrow> BAVL \<Rightarrow> 'k \<Rightarrow> addr option" where
  "BAVL_Lookup cmp val s v = (if av_root s = NULL then Some NULL else BAVL_lookup_from cmp val s v (av_root s))"

partial_function (option) BAVL_lookup_exact_from ::
  "('k \<Rightarrow> 'k \<Rightarrow> int) \<Rightarrow> (addr \<Rightarrow> 'k) \<Rightarrow> BAVL \<Rightarrow> 'k \<Rightarrow> addr \<Rightarrow> addr option" where
  "BAVL_lookup_exact_from cmp val s v c =
     (let comp = cmp v (val c) in
      if comp = 0 then Some c
      else let side = (comp = 1) in
           if av_link s c side = NULL then Some NULL
           else BAVL_lookup_exact_from cmp val s v (av_link s c side))"

definition BAVL_LookupExact :: "('k \<Rightarrow> 'k \<Rightarrow> int) \<Rightarrow> (addr \<Rightarrow> 'k) \<Rightarrow> BAVL \<Rightarrow> 'k \<Rightarrow> addr option" where
  "BAVL_LookupExact cmp val s v =
     (if av_root s = NULL then Some NULL else BAVL_lookup_exact_from cmp val s v (av_root s))"

text \<open>The loops \<^verbatim>\<open>while (n->link[d]) n = n->link[d]\<close> and \<^verbatim>\<open>while (n->parent && n == n->parent->link[d]) n = n->parent\<close>.\<close>

partial_function (option) BAVL_descend :: "BAVL \<Rightarrow> bool \<Rightarrow> addr \<Rightarrow> addr option" where
  "BAVL_descend s d n = (if av_link s n d \<noteq> NULL then BAVL_descend s d (av_link s n d) else Some n)"

partial_function (option) BAVL_ascend :: "BAVL \<Rightarrow> bool \<Rightarrow> addr \<Rightarrow> addr option" where
  "BAVL_ascend s d n =
     (if av_parent s n \<noteq> NULL \<and> n = av_link s (av_parent s n) d then BAVL_ascend s d (av_parent s n)
      else Some n)"

definition BAVL_GetFirst :: "BAVL \<Rightarrow> addr option" where
  "BAVL_GetFirst s = (if av_root s = NULL then Some NULL else BAVL_descend s False (av_root s))"

definition BAVL_GetLast :: "BAVL \<Rightarrow> addr option" where
  "BAVL_GetLast s = (if av_root s = NULL then Some NULL else BAVL_descend s True (av_root s))"

definition BAVL_GetNext :: "BAVL \<Rightarrow> addr \<Rightarrow> addr option" where
  "BAVL_GetNext s n =
     (if av_link s n True \<noteq> NULL then BAVL_descend s False (av_link s n True)
      else do { n \<leftarrow> BAVL_ascend s True n; Some (av_parent s n) })"

definition BAVL_GetPrev :: "BAVL \<Rightarrow> addr \<Rightarrow> addr option" where
  "BAVL_GetPrev s n =
     (if av_link s n False \<noteq> NULL then BAVL_descend s True (av_link s n False)
      else do { n \<leftarrow> BAVL_ascend s False n; Some (av_parent s n) })"

text \<open>
  The self check of the source, height of a subtree; \<open>None\<close> if an assertion fails. It is
  compiled out of the program and used below as the authors' own notion of a good tree.
\<close>

partial_function (option) BAVL_assert_recurser ::
  "('k \<Rightarrow> 'k \<Rightarrow> int) \<Rightarrow> (addr \<Rightarrow> 'k) \<Rightarrow> BAVL \<Rightarrow> addr \<Rightarrow> int option" where
  "BAVL_assert_recurser cmp val s n =
     (if \<not> (av_balance s n \<ge> -1 \<and> av_balance s n \<le> 1) then None
      else do {
        height_left \<leftarrow>
          (if av_link s n False \<noteq> NULL
           then if av_parent s (av_link s n False) = n \<and>
                   BAVL_compare_nodes cmp val (av_link s n False) n = -1
                then BAVL_assert_recurser cmp val s (av_link s n False) else None
           else Some 0);
        height_right \<leftarrow>
          (if av_link s n True \<noteq> NULL
           then if av_parent s (av_link s n True) = n \<and>
                   BAVL_compare_nodes cmp val (av_link s n True) n = 1
                then BAVL_assert_recurser cmp val s (av_link s n True) else None
           else Some 0);
        if av_balance s n = height_right - height_left then Some (max height_left height_right + 1) else None
      })"

definition BAVL_Verify :: "('k \<Rightarrow> 'k \<Rightarrow> int) \<Rightarrow> (addr \<Rightarrow> 'k) \<Rightarrow> BAVL \<Rightarrow> bool" where
  "BAVL_Verify cmp val s \<longleftrightarrow>
     (av_root s \<noteq> NULL \<longrightarrow> av_parent s (av_root s) = NULL \<and> BAVL_assert_recurser cmp val s (av_root s) \<noteq> None)"

declare BAVL_subtree_max.simps [code] BAVL_rebalance.simps [code] BAVL_insert_find.simps [code] BAVL_lookup_from.simps [code]
  BAVL_lookup_exact_from.simps [code] BAVL_descend.simps [code] BAVL_ascend.simps [code] BAVL_assert_recurser.simps [code]

subsection \<open>The tree a memory represents\<close>

text \<open>A node of the tree with its address and balance factor.\<close>

datatype atree = ALeaf | ANode atree addr int atree

fun addrs :: "atree \<Rightarrow> addr list" where
  "addrs ALeaf = []"
| "addrs (ANode l a b r) = addrs l @ a # addrs r"

fun root_of :: "atree \<Rightarrow> addr" where
  "root_of ALeaf = NULL"
| "root_of (ANode l a b r) = a"

fun hgt :: "atree \<Rightarrow> int" where
  "hgt ALeaf = 0"
| "hgt (ANode l a b r) = 1 + max (hgt l) (hgt r)"

fun avl_ok :: "atree \<Rightarrow> bool" where
  "avl_ok ALeaf \<longleftrightarrow> True"
| "avl_ok (ANode l a b r) \<longleftrightarrow> avl_ok l \<and> avl_ok r \<and> b = hgt r - hgt l \<and> - 1 \<le> b \<and> b \<le> 1"

fun rep :: "BAVL \<Rightarrow> addr \<Rightarrow> atree \<Rightarrow> bool" where
  "rep s par ALeaf \<longleftrightarrow> True"
| "rep s par (ANode l a b r) \<longleftrightarrow> a \<noteq> NULL \<and> av_parent s a = par \<and> av_link s a False = root_of l \<and>
     av_link s a True = root_of r \<and> av_balance s a = b \<and> rep s a l \<and> rep s a r"

text \<open>A position in a tree: the path from it to the root, with the side taken and the siblings.\<close>

datatype crumb = Crumb bool addr int atree

type_synonym ctx = "crumb list"

text \<open>\<open>bnode d x a b y\<close> has \<open>x\<close> on side \<open>d\<close> and \<open>y\<close> on the other one.\<close>

definition bnode :: "bool \<Rightarrow> atree \<Rightarrow> addr \<Rightarrow> int \<Rightarrow> atree \<Rightarrow> atree" where
  "bnode d x a b y = (if d then ANode y a b x else ANode x a b y)"

fun plug :: "ctx \<Rightarrow> atree \<Rightarrow> atree" where
  "plug [] t = t"
| "plug (Crumb d a b sib # c) t = plug c (bnode d t a b sib)"

fun cpar :: "ctx \<Rightarrow> addr" where
  "cpar [] = NULL"
| "cpar (Crumb d a b sib # c) = a"

fun rep_ctx :: "BAVL \<Rightarrow> addr \<Rightarrow> ctx \<Rightarrow> bool" where
  "rep_ctx s p [] \<longleftrightarrow> av_root s = p"
| "rep_ctx s p (Crumb d a b sib # c) \<longleftrightarrow> a \<noteq> NULL \<and> av_parent s a = cpar c \<and> av_link s a d = p \<and>
     av_link s a (\<not> d) = root_of sib \<and> av_balance s a = b \<and> rep s a sib \<and> rep_ctx s a c"

fun ctx_addrs :: "ctx \<Rightarrow> addr set" where
  "ctx_addrs [] = {}"
| "ctx_addrs (Crumb d a b sib # c) = insert a (set (addrs sib) \<union> ctx_addrs c)"

definition represents :: "BAVL \<Rightarrow> atree \<Rightarrow> bool" where
  "represents s t \<longleftrightarrow> rep s NULL t \<and> av_root s = root_of t \<and> distinct (addrs t)"

subsection \<open>Positions\<close>

lemma root_of_bnode [simp]: "root_of (bnode d x a b y) = a"
  by (simp add: bnode_def)

lemma set_addrs_bnode [simp]: "set (addrs (bnode d x a b y)) = insert a (set (addrs x) \<union> set (addrs y))"
  by (auto simp: bnode_def)

lemma distinct_bnode [simp]:
  "distinct (addrs (bnode d x a b y)) \<longleftrightarrow>
     distinct (addrs x) \<and> distinct (addrs y) \<and> a \<notin> set (addrs x) \<and> a \<notin> set (addrs y) \<and>
     set (addrs x) \<inter> set (addrs y) = {}"
  by (auto simp: bnode_def)

lemma hgt_bnode [simp]: "hgt (bnode d x a b y) = 1 + max (hgt x) (hgt y)"
  by (simp add: bnode_def max.commute)

lemma avl_bnode [simp]:
  "avl_ok (bnode d x a b y) \<longleftrightarrow> avl_ok x \<and> avl_ok y \<and> BAVL_OPTNEG b d = hgt y - hgt x \<and> - 1 \<le> b \<and> b \<le> 1"
  by (auto simp: bnode_def BAVL_OPTNEG_def)

lemma rep_bnode [simp]:
  "rep s par (bnode d x a b y) \<longleftrightarrow> a \<noteq> NULL \<and> av_parent s a = par \<and> av_link s a d = root_of x \<and>
     av_link s a (\<not> d) = root_of y \<and> av_balance s a = b \<and> rep s a x \<and> rep s a y"
  by (auto simp: bnode_def)

lemma bnode_cases: obtains x y where "ANode l a b r = bnode d x a b y"
  by (cases d) (auto simp: bnode_def)

lemma root_of_eq_0 [simp]: "rep s par t \<Longrightarrow> root_of t = 0 \<longleftrightarrow> t = ALeaf"
  by (cases t) auto

lemma root_of_in: "t \<noteq> ALeaf \<Longrightarrow> root_of t \<in> set (addrs t)"
  by (cases t) auto

lemma hgt_nonneg: "0 \<le> hgt t"
  by (induction t) auto

lemma hgt_eq_0 [simp]: "hgt t = 0 \<longleftrightarrow> t = ALeaf"
  using hgt_nonneg by (cases t) (auto simp: max_def add_pos_nonneg less_imp_neq [symmetric] intro: less_imp_neq [symmetric])

lemma rep_nonzero: "rep s par t \<Longrightarrow> 0 \<notin> set (addrs t)"
  by (induction t arbitrary: par) auto

lemma rep_ctx_nonzero: "rep_ctx s p c \<Longrightarrow> 0 \<notin> ctx_addrs c"
  by (induction c arbitrary: p rule: ctx_addrs.induct) (auto dest: rep_nonzero)

lemma set_addrs_plug [simp]: "set (addrs (plug c t)) = set (addrs t) \<union> ctx_addrs c"
  by (induction c t rule: plug.induct) auto

text \<open>The inorder sequence around a position.\<close>

fun before :: "ctx \<Rightarrow> addr list" where
  "before [] = []"
| "before (Crumb d a b sib # c) = before c @ (if d then addrs sib @ [a] else [])"

fun behind :: "ctx \<Rightarrow> addr list" where
  "behind [] = []"
| "behind (Crumb d a b sib # c) = (if d then [] else a # addrs sib) @ behind c"

lemma addrs_plug: "addrs (plug c t) = before c @ addrs t @ behind c"
  by (induction c t rule: plug.induct) (auto simp: bnode_def)

lemma set_before_behind: "set (before c) \<union> set (behind c) = ctx_addrs c"
  by (induction c rule: before.induct) auto

fun distinct_ctx :: "ctx \<Rightarrow> bool" where
  "distinct_ctx [] \<longleftrightarrow> True"
| "distinct_ctx (Crumb d a b sib # c) \<longleftrightarrow> distinct (addrs sib) \<and> a \<notin> set (addrs sib) \<and>
     a \<notin> ctx_addrs c \<and> set (addrs sib) \<inter> ctx_addrs c = {} \<and> distinct_ctx c"

lemma distinct_plug [simp]:
  "distinct (addrs (plug c t)) \<longleftrightarrow> distinct (addrs t) \<and> distinct_ctx c \<and> set (addrs t) \<inter> ctx_addrs c = {}"
  by (induction c t rule: plug.induct) auto

lemma rep_plug: "rep s 0 (plug c t) \<and> av_root s = root_of (plug c t) \<longleftrightarrow> rep s (cpar c) t \<and> rep_ctx s (root_of t) c"
  by (induction c t rule: plug.induct) auto

lemma represents_plug:
  "represents s (plug c t) \<longleftrightarrow> rep s (cpar c) t \<and> rep_ctx s (root_of t) c \<and>
     distinct (addrs t) \<and> distinct_ctx c \<and> set (addrs t) \<inter> ctx_addrs c = {}"
  unfolding represents_def using rep_plug [of s c t] by auto

lemma rep_cong:
  "(\<And>x. x \<in> set (addrs t) \<Longrightarrow> av_parent s' x = av_parent s x \<and> av_link s' x = av_link s x \<and> av_balance s' x = av_balance s x)
   \<Longrightarrow> rep s' par t \<longleftrightarrow> rep s par t"
  by (induction t arbitrary: par) auto

lemma cpar_in: "c \<noteq> [] \<Longrightarrow> cpar c \<in> ctx_addrs c"
  by (cases c rule: cpar.cases) auto

subsection \<open>Field updates\<close>

lemma set_fields [simp]:
  "av_parent (set_parent s n p) = (av_parent s)(n := p)"
  "av_link (set_parent s n p) = av_link s"
  "av_balance (set_parent s n p) = av_balance s"
  "av_root (set_parent s n p) = av_root s"
  "av_parent (set_link s n d p) = av_parent s"
  "av_link (set_link s n d p) = (av_link s)(n := (av_link s n)(d := p))"
  "av_balance (set_link s n d p) = av_balance s"
  "av_root (set_link s n d p) = av_root s"
  "av_parent (set_balance s n b) = av_parent s"
  "av_link (set_balance s n b) = av_link s"
  "av_balance (set_balance s n b) = (av_balance s)(n := b)"
  "av_root (set_balance s n b) = av_root s"
  by (simp_all add: set_defs)

lemma rep_set [simp]:
  "n \<notin> set (addrs t) \<Longrightarrow> rep (set_parent s n p) par t \<longleftrightarrow> rep s par t"
  "n \<notin> set (addrs t) \<Longrightarrow> rep (set_link s n d p) par t \<longleftrightarrow> rep s par t"
  "n \<notin> set (addrs t) \<Longrightarrow> rep (set_balance s n b) par t \<longleftrightarrow> rep s par t"
  "rep (s\<lparr>av_root := p\<rparr>) par t \<longleftrightarrow> rep s par t"
  by (rule rep_cong; auto)+

lemma rep_ctx_set [simp]:
  "n \<notin> ctx_addrs c \<Longrightarrow> rep_ctx (set_parent s n p) q c \<longleftrightarrow> rep_ctx s q c"
  "n \<notin> ctx_addrs c \<Longrightarrow> rep_ctx (set_link s n d p) q c \<longleftrightarrow> rep_ctx s q c"
  "n \<notin> ctx_addrs c \<Longrightarrow> rep_ctx (set_balance s n b) q c \<longleftrightarrow> rep_ctx s q c"
  by (induction c arbitrary: q rule: ctx_addrs.induct) auto

lemma rep_reparent:
  "rep s par t \<Longrightarrow> distinct (addrs t) \<Longrightarrow>
   rep (if root_of t \<noteq> 0 then set_parent s (root_of t) q else s) q t"
  by (cases t) auto


text \<open>The hole of a position is filled with another node.\<close>

definition relink :: "BAVL \<Rightarrow> addr \<Rightarrow> addr \<Rightarrow> addr \<Rightarrow> BAVL" where
  "relink s par old new = (if par \<noteq> NULL then set_link s par (old = av_link s par True) new else s\<lparr>av_root := new\<rparr>)"

lemma relink_fields [simp]:
  "av_parent (relink s par old new) = av_parent s"
  "av_balance (relink s par old new) = av_balance s"
  by (simp_all add: relink_def)

lemma rep_ctx_relink:
  assumes "rep_ctx s p c" "p \<noteq> 0" "distinct_ctx c" "p \<notin> ctx_addrs c"
  shows "rep_ctx (relink s (cpar c) p q) q c"
proof (cases c rule: cpar.cases)
  case 1
  then show ?thesis
    by (simp add: relink_def)
next
  case (2 d a b sib c')
  then have "root_of sib \<noteq> p"
    using assms root_of_in [of sib] by (cases "sib = ALeaf") auto
  then show ?thesis
    using assms 2 by (cases d) (auto simp: relink_def)
qed

lemma rep_relink [simp]: "par \<notin> set (addrs t) \<Longrightarrow> rep (relink s par old new) q t \<longleftrightarrow> rep s q t"
  by (simp add: relink_def)

lemma BAVL_rotate_alt:
  "BAVL_rotate s r dir =
     (let nr = av_link s r (\<not> dir); y = av_link s nr dir;
          s1 = set_link s r (\<not> dir) y;
          s2 = (if y \<noteq> 0 then set_parent s1 y r else s1);
          s3 = set_parent (set_link s2 nr dir r) nr (av_parent s2 r)
      in set_parent (relink s3 (av_parent s2 r) r nr) r nr)"
  if "av_link s r (\<not> dir) \<noteq> r"
  using that by (auto simp: BAVL_rotate_def relink_def Let_def)

subsection \<open>Rotation\<close>

lemma rotate_represents:
  assumes s: "represents s (plug c (bnode dir x r b (bnode dir y nr b' z)))"
  shows "represents (BAVL_rotate s r dir) (plug c (bnode dir (bnode dir x r b y) nr b' z))"
proof -
  note f = s [unfolded represents_plug]
  have links: "av_link s r (\<not> dir) = nr" "av_link s nr dir = root_of y" "nr \<noteq> r" "av_parent s r = cpar c"
    using f by auto
  define s1 where "s1 = set_link s r (\<not> dir) (root_of y)"
  define s2 where "s2 = (if root_of y \<noteq> 0 then set_parent s1 (root_of y) r else s1)"
  define s3 where "s3 = set_parent (set_link s2 nr dir r) nr (cpar c)"
  have y: "root_of y \<noteq> 0 \<Longrightarrow> root_of y \<in> set (addrs y)"
    using root_of_in [of y] by (cases "y = ALeaf") auto
  then have ny: "root_of y \<noteq> r" "root_of y \<noteq> nr"
    "root_of y \<noteq> 0 \<Longrightarrow> root_of y \<notin> set (addrs x) \<and> root_of y \<notin> set (addrs z) \<and> root_of y \<notin> ctx_addrs c"
    using f by (auto 0 3)
  have "rep s1 nr y" "distinct (addrs y)"
    using f by (auto simp: s1_def)
  then have "rep s2 r y"
    unfolding s2_def by (rule rep_reparent)
  then have ry: "rep s3 r y"
    using f by (auto simp: s3_def)
  have p2: "av_parent s2 r = cpar c"
    using links ny by (simp add: s2_def s1_def)
  have "BAVL_rotate s r dir = set_parent (relink s3 (cpar c) r nr) r nr"
    using links p2 ny(1) by (simp add: BAVL_rotate_alt Let_def s3_def s2_def s1_def)
  moreover have "rep_ctx s3 r c"
    using f ny by (auto simp: s3_def s2_def s1_def)
  then have "rep_ctx (relink s3 (cpar c) r nr) nr c"
    using f by (intro rep_ctx_relink) auto
  then have "rep_ctx (set_parent (relink s3 (cpar c) r nr) r nr) nr c"
    using f by auto
  moreover have c: "cpar c \<notin> set (addrs x) \<union> set (addrs y) \<union> set (addrs z) \<union> {r, nr}"
    using f cpar_in [of c] rep_nonzero [of s] by (cases c rule: cpar.cases) (auto 0 3)
  let ?f = "set_parent (relink s3 (cpar c) r nr) r nr"
  have "rep ?f r y"
    using f ry c by auto
  moreover have "rep ?f r x" "rep ?f nr z"
    using f c ny by (auto simp: s3_def s2_def s1_def)
  moreover have "av_parent ?f nr = cpar c" "av_parent ?f r = nr" "av_link ?f r dir = root_of x"
    "av_link ?f r (\<not> dir) = root_of y" "av_link ?f nr dir = r" "av_link ?f nr (\<not> dir) = root_of z"
    "av_balance ?f r = b" "av_balance ?f nr = b'"
    using f c ny by (auto simp: s3_def s2_def s1_def relink_def)
  ultimately show ?thesis
    using f unfolding represents_plug by auto
qed

lemma rep_ctx_set_balance [simp]:
  "represents s (plug c (bnode d x a b y)) \<Longrightarrow> represents (set_balance s a b') (plug c (bnode d x a b' y))"
  unfolding represents_plug by auto

lemma bnode_swap: "bnode (\<not> d) x a b y = bnode d y a b x"
  by (simp add: bnode_def)

lemma addrs_rotated: "addrs (bnode d (bnode d x r b y) nr b' z) = addrs (bnode d x r c (bnode d y nr c' z))"
  by (simp add: bnode_def)

lemma represents_fields:
  assumes "represents s (plug c (bnode d x a b y))"
  shows "av_balance s a = b" "av_link s a d = root_of x" "av_link s a (\<not> d) = root_of y" "av_parent s a = cpar c"
  using assms unfolding represents_plug by auto

text \<open>The inner node is set after the outer one, as in the source.\<close>

lemma set_balance_inner:
  assumes "represents s (plug c (bnode d (bnode d x r b y) nr b' z))"
  shows "represents (set_balance (set_balance s r f) nr f') (plug c (bnode d (bnode d x r f y) nr f' z))"
proof -
  have "represents s (plug (Crumb d nr b' z # c) (bnode d x r b y))"
    using assms by simp
  then have "represents (set_balance s r f) (plug (Crumb d nr b' z # c) (bnode d x r f y))"
    by (rule rep_ctx_set_balance)
  then show ?thesis
    by simp
qed

lemma rotate_inner:
  assumes "represents s (plug c (bnode e x n b (bnode e (bnode e p g bg q) ch b' z)))"
  shows "represents (BAVL_rotate s ch (\<not> e)) (plug c (bnode e x n b (bnode e p g bg (bnode e q ch b' z))))"
proof -
  have "represents s (plug (Crumb (\<not> e) n b x # c) (bnode (\<not> e) z ch b' (bnode (\<not> e) q g bg p)))"
    using assms by (simp add: bnode_swap)
  then have "represents (BAVL_rotate s ch (\<not> e))
      (plug (Crumb (\<not> e) n b x # c) (bnode (\<not> e) (bnode (\<not> e) z ch b' q) g bg p))"
    by (rule rotate_represents)
  then show ?thesis
    by (simp add: bnode_swap)
qed

lemma set_balance_three:
  assumes "represents s (plug c (bnode e (bnode e x n b p) g bg (bnode e q ch b' z)))"
  shows "represents (set_balance (set_balance (set_balance s n f) ch f') g 0)
    (plug c (bnode e (bnode e x n f p) g 0 (bnode e q ch f' z)))"
proof -
  have "represents s (plug (Crumb e g bg (bnode e q ch b' z) # c) (bnode e x n b p))"
    using assms by simp
  then have "represents (set_balance s n f) (plug (Crumb e g bg (bnode e q ch b' z) # c) (bnode e x n f p))"
    by (rule rep_ctx_set_balance)
  then have "represents (set_balance s n f) (plug (Crumb (\<not> e) g bg (bnode e x n f p) # c) (bnode e q ch b' z))"
    by (simp add: bnode_swap)
  then have "represents (set_balance (set_balance s n f) ch f')
      (plug (Crumb (\<not> e) g bg (bnode e x n f p) # c) (bnode e q ch f' z))"
    by (rule rep_ctx_set_balance)
  then show ?thesis
    using rep_ctx_set_balance [of "set_balance (set_balance s n f) ch f'" c e "bnode e x n f p" g bg "bnode e q ch f' z" 0]
    by (simp add: bnode_swap)
qed

text \<open>The node \<open>n\<close> is too heavy on the side of its child \<open>ch\<close>.\<close>

lemma transform_heavy:
  assumes s: "represents s (plug c (bnode e x n b (bnode e y ch b' z)))"
    and ok: "avl_ok x" "avl_ok (bnode e y ch b' z)"
    and b: "b = (if e then - 2 else 2)" "hgt (bnode e y ch b' z) = hgt x + 2"
  shows "\<exists>s' t'. BAVL_transform s n delta = (s', root_of t', delta + hgt t' - hgt (bnode e x n b (bnode e y ch b' z))) \<and>
    represents s' (plug c t') \<and> addrs t' = addrs (bnode e x n b (bnode e y ch b' z)) \<and> avl_ok t' \<and> t' \<noteq> ALeaf \<and>
    hgt t' \<in> {hgt x + 2, hgt x + 3}"
proof -
  let ?f = "if e then - 1 else 1 :: int"
  have s': "represents s (plug (Crumb (\<not> e) n b x # c) (bnode e y ch b' z))"
    using s by (simp add: bnode_swap)
  have F: "av_balance s n = b" "av_link s n (\<not> e) = ch" "av_balance s ch = b'" "av_link s ch e = root_of y"
    using represents_fields [OF s] represents_fields [OF s'] by simp_all
  have hz: "hgt z - hgt y = b' * ?f" "- 1 \<le> b'" "b' \<le> 1" "1 + max (hgt y) (hgt z) = hgt x + 2"
    using ok b by (auto simp: BAVL_OPTNEG_def split: if_splits)
  have bside: "(b = 2) = (\<not> e)" "b = 2 \<or> b = - 2"
    using b by auto
  have rot: "represents (BAVL_rotate s n e) (plug c (bnode e (bnode e x n b y) ch b' z))"
    by (rule rotate_represents [OF s])
  have "b' = - 1 \<or> b' = 0 \<or> b' = 1"
    using hz by arith
  then consider "b' * ?f = 1" | "b' * ?f = 0" | "b' * ?f = - 1"
    by (cases e) auto
  then show ?thesis
  proof cases
    case 1
    define t' where "t' = bnode e (bnode e x n 0 y) ch 0 z"
    have "represents (set_balance (set_balance (BAVL_rotate s n e) n 0) ch 0) (plug c t')"
      unfolding t'_def by (rule set_balance_inner [OF rot])
    moreover have "BAVL_transform s n delta = (set_balance (set_balance (BAVL_rotate s n e) n 0) ch 0, ch, delta - 1)"
      using 1 F bside by (auto simp: BAVL_transform_def Let_def)
    moreover have "hgt t' = hgt x + 2" "avl_ok t'" "t' \<noteq> ALeaf" "root_of t' = ch"
      using ok hz 1 by (auto simp: t'_def BAVL_OPTNEG_def max_def bnode_def split: if_splits)
    ultimately show ?thesis
      using b(2) addrs_rotated unfolding t'_def by (intro exI conjI) (auto simp: addrs_rotated)
  next
    case 2
    define t' where "t' = bnode e (bnode e x n ?f y) ch (- ?f) z"
    have "represents (set_balance (set_balance (BAVL_rotate s n e) n ?f) ch (- ?f)) (plug c t')"
      unfolding t'_def by (rule set_balance_inner [OF rot])
    moreover have "BAVL_transform s n delta = (set_balance (set_balance (BAVL_rotate s n e) n ?f) ch (- ?f), ch, delta)"
      using 2 F bside by (auto simp: BAVL_transform_def Let_def)
    moreover have "hgt t' = hgt x + 3" "avl_ok t'" "t' \<noteq> ALeaf" "root_of t' = ch"
      using ok hz 2 by (auto simp: t'_def BAVL_OPTNEG_def max_def bnode_def split: if_splits)
    ultimately show ?thesis
      using b(2) addrs_rotated unfolding t'_def by (intro exI conjI) (auto simp: addrs_rotated)
  next
    case 3
    then have "y \<noteq> ALeaf"
      using hz hgt_nonneg [of z] by auto
    then obtain p g bg q where y: "y = bnode e p g bg q"
      by (cases y) (metis bnode_def)+
    define f where "f = - max 0 (bg * ?f) * ?f"
    define f' where "f' = max 0 (- bg * ?f) * ?f"
    define s2 where "s2 = BAVL_rotate (BAVL_rotate s ch (\<not> e)) n e"
    define t' where "t' = bnode e (bnode e x n f p) g 0 (bnode e q ch f' z)"
    have s2: "represents s2 (plug c (bnode e (bnode e x n b p) g bg (bnode e q ch b' z)))"
      unfolding s2_def by (intro rotate_represents rotate_inner) (use s y in simp)
    then have "represents (set_balance (set_balance (set_balance s2 n f) ch f') g 0) (plug c t')"
      unfolding t'_def by (rule set_balance_three)
    moreover have "av_balance s2 g = bg" "g \<noteq> n"
      using represents_fields [OF s2] s2 by (auto simp: represents_plug)
    then have "BAVL_transform s n delta = (set_balance (set_balance (set_balance s2 n f) ch f') g 0, g, delta - 1)"
      using 3 F bside y by (auto simp: BAVL_transform_def Let_def s2_def f_def f'_def)
    moreover have "hgt t' = hgt x + 2" "avl_ok t'" "t' \<noteq> ALeaf" "root_of t' = g"
      using ok hz 3 y by (auto simp: t'_def f_def f'_def BAVL_OPTNEG_def max_def bnode_def split: if_splits)
    moreover have "addrs t' = addrs (bnode e x n b (bnode e y ch b' z))"
      by (simp add: t'_def y bnode_def)
    ultimately show ?thesis
      using b(2) by (intro exI conjI) auto
  qed
qed

subsection \<open>Rebalancing\<close>

lemma transform_ok:
  assumes s: "represents s (plug c (bnode d x a b y))"
    and ok: "avl_ok x" "avl_ok y" "BAVL_OPTNEG b d = hgt y - hgt x" "- 2 \<le> b" "b \<le> 2"
  shows "\<exists>s' t'. BAVL_transform s a delta = (s', root_of t', delta + hgt t' - hgt (bnode d x a b y)) \<and>
    represents s' (plug c t') \<and> addrs t' = addrs (bnode d x a b y) \<and> avl_ok t' \<and> t' \<noteq> ALeaf \<and>
    (hgt t' = hgt (bnode d x a b y) \<or> \<bar>b\<bar> = 2 \<and> hgt t' = hgt (bnode d x a b y) - 1)"
proof (cases "b = 2 \<or> b = - 2")
  case True
  define e where "e = (b = - 2)"
  obtain x' y' where xy: "bnode d x a b y = bnode e x' a b y'" "avl_ok x'" "avl_ok y'" "hgt y' = hgt x' + 2"
  proof (cases "d = e")
    case True
    then show ?thesis
      using that [of x y] ok \<open>b = 2 \<or> b = - 2\<close> by (auto simp: e_def BAVL_OPTNEG_def)
  next
    case False
    then have "bnode d x a b y = bnode e y a b x"
      by (auto simp: bnode_def)
    then show ?thesis
      using that [of y x] ok \<open>b = 2 \<or> b = - 2\<close> False by (auto simp: e_def BAVL_OPTNEG_def split: if_splits)
  qed
  then have "y' \<noteq> ALeaf"
    using hgt_nonneg [of x'] by auto
  then obtain p ch b' q where y': "y' = bnode e p ch b' q"
    by (cases y') (metis bnode_def)+
  have "b = (if e then - 2 else 2)"
    using True by (auto simp: e_def)
  then show ?thesis
    using transform_heavy [of s c e x' a b p ch b' q delta] s xy y' by fastforce
next
  case False
  then have "avl_ok (bnode d x a b y)" "av_balance s a = b"
    using ok represents_fields [OF s] by auto
  then show ?thesis
    using s False by (intro exI [of _ s] exI [of _ "bnode d x a b y"]) (auto simp: BAVL_transform_def bnode_def)
qed

text \<open>The balance factors along a path fit a hole of the given height.\<close>

fun ctx_ok :: "ctx \<Rightarrow> int \<Rightarrow> bool" where
  "ctx_ok [] h \<longleftrightarrow> True"
| "ctx_ok (Crumb d a b sib # c) h \<longleftrightarrow> avl_ok sib \<and> BAVL_OPTNEG b d = hgt sib - h \<and> - 1 \<le> b \<and> b \<le> 1 \<and>
     ctx_ok c (1 + max h (hgt sib))"

lemma avl_plug: "avl_ok (plug c t) \<longleftrightarrow> avl_ok t \<and> ctx_ok c (hgt t)"
  by (induction c t rule: plug.induct) auto

lemma rebalance_transform:
  assumes s: "represents s (plug c (bnode side x a b y))"
    and ok: "avl_ok x" "avl_ok y" "BAVL_OPTNEG b side = hgt y - (hgt x - deltac)" "- 1 \<le> b" "b \<le> 1"
    and dc: "deltac = - 1 \<or> deltac = 1"
  shows "\<exists>s' t'. BAVL_transform (set_balance s a (b - BAVL_OPTNEG deltac side)) a (max deltac (BAVL_OPTNEG b side) - max 0 (BAVL_OPTNEG b side)) =
      (s', root_of t', hgt t' - (1 + max (hgt x - deltac) (hgt y))) \<and>
    represents s' (plug c t') \<and> addrs t' = addrs (bnode side x a b y) \<and> avl_ok t' \<and> t' \<noteq> ALeaf \<and>
    \<bar>hgt t' - (1 + max (hgt x - deltac) (hgt y))\<bar> \<le> 1 \<and> av_parent s' (root_of t') = cpar c"
proof -
  define b' where "b' = b - BAVL_OPTNEG deltac side"
  define delta where "delta = max deltac (BAVL_OPTNEG b side) - max 0 (BAVL_OPTNEG b side)"
  let ?t = "bnode side x a b' y"
  have sb: "represents (set_balance s a b') (plug c ?t)"
    using s by (rule rep_ctx_set_balance)
  have b': "BAVL_OPTNEG b' side = hgt y - hgt x" "- 2 \<le> b'" "b' \<le> 2"
    using ok dc by (auto simp: b'_def BAVL_OPTNEG_def)
  obtain s' t' where st: "BAVL_transform (set_balance s a b') a delta = (s', root_of t', delta + hgt t' - hgt ?t)"
    "represents s' (plug c t')" "addrs t' = addrs ?t" "avl_ok t'" "t' \<noteq> ALeaf"
    "hgt t' = hgt ?t \<or> \<bar>b'\<bar> = 2 \<and> hgt t' = hgt ?t - 1"
    using transform_ok [OF sb ok(1,2) b', of delta] by blast
  have dd: "delta + hgt t' - hgt ?t = hgt t' - (1 + max (hgt x - deltac) (hgt y))"
    using ok(3) by (simp add: delta_def)
  have "av_parent s' (root_of t') = cpar c"
    using st(2,5) by (cases t') (auto simp: represents_plug)
  moreover have "\<bar>hgt t' - (1 + max (hgt x - deltac) (hgt y))\<bar> \<le> 1"
    using st(6) ok(3-5) b' dc by (cases side) (auto simp: BAVL_OPTNEG_def max_def)
  moreover have "addrs t' = addrs (bnode side x a b y)"
    using st(3) by (simp add: bnode_def)
  ultimately show ?thesis
    using st(1) [unfolded dd, unfolded b'_def delta_def] st(2,4,5) by blast
qed

lemma rebalance_step:
  assumes s: "represents s (plug c (bnode side x a b y))"
    and ok: "avl_ok x" "avl_ok y" "BAVL_OPTNEG b side = hgt y - (hgt x - deltac)" "- 1 \<le> b" "b \<le> 1"
    and dc: "deltac = - 1 \<or> deltac = 1"
  shows "\<exists>s' t'. represents s' (plug c t') \<and> addrs t' = addrs (bnode side x a b y) \<and> avl_ok t' \<and> t' \<noteq> ALeaf \<and>
    \<bar>hgt t' - (1 + max (hgt x - deltac) (hgt y))\<bar> \<le> 1 \<and>
    BAVL_rebalance s a side deltac =
      (if cpar c \<noteq> 0
       then BAVL_rebalance s' (cpar c) (root_of t' = av_link s' (cpar c) True)
              (hgt t' - (1 + max (hgt x - deltac) (hgt y)))
       else Some s')"
proof -
  obtain s' t' where st: "BAVL_transform (set_balance s a (b - BAVL_OPTNEG deltac side)) a (max deltac (BAVL_OPTNEG b side) - max 0 (BAVL_OPTNEG b side)) =
      (s', root_of t', hgt t' - (1 + max (hgt x - deltac) (hgt y)))"
    "represents s' (plug c t')" "addrs t' = addrs (bnode side x a b y)" "avl_ok t'" "t' \<noteq> ALeaf"
    "\<bar>hgt t' - (1 + max (hgt x - deltac) (hgt y))\<bar> \<le> 1" "av_parent s' (root_of t') = cpar c"
    using rebalance_transform [OF assms] by blast
  have "BAVL_rebalance s a side deltac =
      (if cpar c \<noteq> 0
       then BAVL_rebalance s' (cpar c) (root_of t' = av_link s' (cpar c) True) (hgt t' - (1 + max (hgt x - deltac) (hgt y)))
       else Some s')"
    using dc st(1,7) represents_fields(1) [OF s] by (subst BAVL_rebalance.simps) (auto simp: Let_def)
  then show ?thesis
    using st(2-6) by blast
qed

lemma addrs_bnode_cong: "addrs t = addrs u \<Longrightarrow> addrs (bnode d t a b y) = addrs (bnode d u a b y)"
  by (simp add: bnode_def)

lemma ctx_side:
  assumes "represents s (plug (Crumb d a b sib # c) t)" "t \<noteq> ALeaf"
  shows "(root_of t = av_link s a True) = d"
  using assms root_of_in [of t] root_of_in [of sib]
  by (cases d; cases "sib = ALeaf") (auto simp: represents_plug)

lemma rebalance_ok:
  assumes "represents s (plug c (bnode side x a b y))"
    and "avl_ok x" "avl_ok y" "BAVL_OPTNEG b side = hgt y - (hgt x - deltac)" "- 1 \<le> b" "b \<le> 1"
    and "- 1 \<le> deltac" "deltac \<le> 1" "ctx_ok c (1 + max (hgt x - deltac) (hgt y))"
  shows "\<exists>s' t'. BAVL_rebalance s a side deltac = Some s' \<and> represents s' t' \<and>
    addrs t' = addrs (plug c (bnode side x a b y)) \<and> avl_ok t'"
  using assms
proof (induction c arbitrary: s side x a b y deltac)
  case Nil
  show ?case
  proof (cases "deltac = 0")
    case True
    then have "avl_ok (bnode side x a b y)"
      using Nil by auto
    then show ?thesis
      using True Nil(1) by (subst BAVL_rebalance.simps) auto
  next
    case False
    then have "deltac = - 1 \<or> deltac = 1"
      using Nil by auto
    then show ?thesis
      using rebalance_step [OF Nil(1-6)] by auto
  qed
next
  case (Cons cr c)
  let ?hold = "1 + max (hgt x - deltac) (hgt y)"
  obtain d a1 b1 sib where cr: "cr = Crumb d a1 b1 sib"
    by (cases cr)
  show ?case
  proof (cases "deltac = 0")
    case True
    then have "avl_ok (plug (cr # c) (bnode side x a b y))"
      using Cons.prems by (simp add: avl_plug del: plug.simps)
    then show ?thesis
      using True Cons.prems(1) by (subst BAVL_rebalance.simps) auto
  next
    case False
    then have dc: "deltac = - 1 \<or> deltac = 1"
      using Cons.prems by auto
    obtain s' t' where st: "represents s' (plug (cr # c) t')" "addrs t' = addrs (bnode side x a b y)" "avl_ok t'"
      "t' \<noteq> ALeaf" "\<bar>hgt t' - ?hold\<bar> \<le> 1"
      and re: "BAVL_rebalance s a side deltac =
        (if cpar (cr # c) \<noteq> 0 then BAVL_rebalance s' (cpar (cr # c)) (root_of t' = av_link s' (cpar (cr # c)) True) (hgt t' - ?hold)
         else Some s')"
      using rebalance_step [OF Cons.prems(1-6) dc] by blast
    have "a1 \<noteq> 0" "represents s' (plug c (bnode d t' a1 b1 sib))" "(root_of t' = av_link s' a1 True) = d"
      using st(1) ctx_side [of s' d a1 b1 sib c t'] st(4) by (auto simp: cr represents_plug)
    moreover have "\<exists>s'' t''. BAVL_rebalance s' a1 d (hgt t' - ?hold) = Some s'' \<and> represents s'' t'' \<and>
        addrs t'' = addrs (plug c (bnode d t' a1 b1 sib)) \<and> avl_ok t''"
      using Cons.prems(9) st(3,5) calculation(2) by (intro Cons.IH) (auto simp: cr)
    ultimately show ?thesis
      using re addrs_bnode_cong [OF st(2), of d a1 b1 sib] by (auto simp: cr addrs_plug)
  qed
qed

end
