(* ===== verification/AvlTreeCorrect.thy ===== *)
theory AvlTreeCorrect
  imports AvlTree
begin

text \<open>
  Correctness of the AVL tree: the exchange of two nodes, insertion, lookup, removal and
  traversal, proved once for every comparator that satisfies the interface \<open>cmp_order\<close>. The
  contract \<open>avl_tree\<close> says which sequence of nodes a memory holds; the operations refine
  those of a set of nodes.
\<close>

subsection \<open>Exchange of two nodes\<close>

text \<open>What the exchange relies on: links and parents of the nodes in \<open>S\<close> are mutually inverse.\<close>

definition linked_at :: "BAVL \<Rightarrow> addr set \<Rightarrow> addr \<Rightarrow> bool" where
  "linked_at s S x \<longleftrightarrow> av_parent s x \<noteq> x \<and>
     (\<forall>d. av_link s x d \<noteq> 0 \<longrightarrow> av_link s x d \<in> S \<and> av_parent s (av_link s x d) = x) \<and>
     (av_parent s x \<noteq> 0 \<longrightarrow> av_parent s x \<in> S \<and> av_link s (av_parent s x) (x = av_link s (av_parent s x) True) = x) \<and>
     (av_link s x False = av_link s x True \<longrightarrow> av_link s x True = 0) \<and>
     (av_parent s x = 0 \<longleftrightarrow> x = av_root s)"

definition linked :: "BAVL \<Rightarrow> addr set \<Rightarrow> bool" where
  "linked s S \<longleftrightarrow> 0 \<notin> S \<and> (\<forall>x\<in>S. linked_at s S x)"

lemma addrs_position: "a \<in> set (addrs t) \<Longrightarrow> \<exists>c l b r. plug c0 t = plug c (ANode l a b r)"
proof (induction t arbitrary: c0)
  case (ANode l a' b r)
  have "plug c0 (ANode l a' b r) = plug (Crumb False a' b r # c0) l" "plug c0 (ANode l a' b r) = plug (Crumb True a' b l # c0) r"
    by (simp_all add: bnode_def)
  then show ?case
    using ANode by (metis Un_iff addrs.simps(2) list.set_intros(1) set_ConsD set_append)
qed simp

lemma rep_ctx_root_in: "rep_ctx s p c \<Longrightarrow> c \<noteq> [] \<Longrightarrow> av_root s \<in> ctx_addrs c"
proof (induction c arbitrary: p rule: ctx_addrs.induct)
  case (2 d a b sib c)
  then show ?case
    by (cases "c = []") auto
qed simp

lemma represents_linked_at:
  assumes s: "represents s (plug c (ANode l x b r))"
  shows "linked_at s (set (addrs (plug c (ANode l x b r)))) x"
  unfolding linked_at_def
proof (intro conjI allI)
  have f: "rep s (cpar c) (ANode l x b r)" "rep_ctx s x c" "distinct (addrs (ANode l x b r))"
    "distinct_ctx c" "set (addrs (ANode l x b r)) \<inter> ctx_addrs c = {}"
    using s unfolding represents_plug by auto
  show "av_link s x d \<noteq> 0 \<longrightarrow> av_link s x d \<in> set (addrs (plug c (ANode l x b r))) \<and> av_parent s (av_link s x d) = x" for d
    using f(1) by (cases d; cases l; cases r) auto
  have "l = ALeaf \<or> r = ALeaf \<or> root_of l \<noteq> root_of r"
    using f(3) root_of_in [of l] root_of_in [of r] by auto
  then show "av_link s x False = av_link s x True \<longrightarrow> av_link s x True = 0"
    using f(1) by auto
  have px: "av_parent s x = cpar c" "x \<noteq> 0" "x \<notin> ctx_addrs c"
    using f(1,5) by auto
  have "cpar c \<noteq> x"
    using px(2,3) cpar_in [of c] by (cases "c = []") auto
  then show "av_parent s x \<noteq> x"
    by (simp add: px(1))
  show "(av_parent s x = 0) = (x = av_root s)"
  proof (cases "c = []")
    case False
    have "cpar c \<noteq> 0"
      using cpar_in [OF False] rep_ctx_nonzero [OF f(2)] by metis
    moreover have "av_root s \<noteq> x"
      using rep_ctx_root_in [OF f(2) False] px(3) by metis
    ultimately show ?thesis
      by (simp add: px(1))
  next
    case True
    then show ?thesis
      using f(2) px(1) by simp
  qed
  show "av_parent s x \<noteq> 0 \<longrightarrow> av_parent s x \<in> set (addrs (plug c (ANode l x b r))) \<and>
      av_link s (av_parent s x) (x = av_link s (av_parent s x) True) = x"
  proof (cases c rule: cpar.cases)
    case (2 d a b' sib c')
    then have "(x = av_link s a True) = d"
      using ctx_side [of s d a b' sib c' "ANode l x b r"] s by simp
    then show ?thesis
      using px f(2) 2 by auto
  qed (use px in auto)
qed

lemma represents_linked:
  assumes "represents s t"
  shows "linked s (set (addrs t))"
  unfolding linked_def
proof (intro conjI ballI)
  show "0 \<notin> set (addrs t)"
    using assms rep_nonzero unfolding represents_def by blast
  fix x
  assume "x \<in> set (addrs t)"
  then obtain c l b r where t: "t = plug c (ANode l x b r)"
    using addrs_position [of x t "[]"] by auto
  show "linked_at s (set (addrs t)) x"
    using represents_linked_at assms unfolding t by blast
qed

definition swp :: "addr \<Rightarrow> addr \<Rightarrow> addr \<Rightarrow> addr" where
  "swp n1 n2 x = (if x = n1 then n2 else if x = n2 then n1 else x)"

definition swapped :: "BAVL \<Rightarrow> BAVL \<Rightarrow> addr \<Rightarrow> addr \<Rightarrow> addr \<Rightarrow> bool" where
  "swapped s s' n1 n2 x \<longleftrightarrow> av_parent s' (swp n1 n2 x) = swp n1 n2 (av_parent s x) \<and>
     (\<forall>d. av_link s' (swp n1 n2 x) d = swp n1 n2 (av_link s x d))"

lemma linked_facts:
  assumes "linked s S" "x \<in> S"
  shows "x \<noteq> 0" "av_parent s x \<noteq> x" "av_link s x d \<noteq> 0 \<Longrightarrow> av_link s x d \<in> S"
    "av_link s x d \<noteq> 0 \<Longrightarrow> av_parent s (av_link s x d) = x"
    "av_parent s x \<noteq> 0 \<Longrightarrow> av_parent s x \<in> S"
    "av_parent s x \<noteq> 0 \<Longrightarrow> av_link s (av_parent s x) (x = av_link s (av_parent s x) True) = x"
    "av_link s x False = av_link s x True \<Longrightarrow> av_link s x True = 0"
    "av_parent s x = 0 \<longleftrightarrow> x = av_root s"
  using assms unfolding linked_def linked_at_def by metis+

lemma link_child_fields [simp]:
  "av_parent (link_child s n d c) y = (if y \<noteq> 0 \<and> y = c then n else av_parent s y)"
  "av_link (link_child s n d c) = (av_link s)(n := (av_link s n)(d := c))"
  "av_balance (link_child s n d c) = av_balance s"
  "av_root (link_child s n d c) = av_root s"
  by (simp_all add: link_child_def Let_def)

lemma swap_children_fields [simp]:
  "av_parent (swap_children s d n1 n2) y =
     (if y \<noteq> 0 \<and> y = av_link s n1 d then n2
      else if y \<noteq> 0 \<and> y = av_link s n2 d then n1 else av_parent s y)"
  "av_link (swap_children s d n1 n2) =
     (av_link s)(n1 := (av_link s n1)(d := av_link s n2 d), n2 := (av_link s n2)(d := av_link s n1 d))"
  "av_root (swap_children s d n1 n2) = av_root s"
  "av_balance (swap_children s d n1 n2) = av_balance s"
  by (simp_all add: swap_children_def Let_def)

lemma swap_parents_fields:
  assumes "n1 \<noteq> n2" "av_parent s n1 \<notin> {n1, n2}" "av_parent s n2 \<notin> {n1, n2}" "av_parent s n1 \<noteq> av_parent s n2"
  shows "av_parent (swap_parents s n1 n2) = (av_parent s)(n1 := av_parent s n2, n2 := av_parent s n1)"
    "av_link (swap_parents s n1 n2) y d =
      (if y = av_parent s n1 \<and> y \<noteq> 0 \<and> d = (n1 = av_link s y True) then n2
       else if y = av_parent s n2 \<and> y \<noteq> 0 \<and> d = (n2 = av_link s y True) then n1
       else av_link s y d)"
    "av_root (swap_parents s n1 n2) =
      (if av_parent s n1 = 0 then n2 else if av_parent s n2 = 0 then n1 else av_root s)"
  using assms by (auto simp: swap_parents_def Let_def)

lemma swap_children_parents:
  assumes n: "n1 \<noteq> n2" and b: "\<And>d e. av_link s n1 d \<noteq> av_link s n2 e \<or> av_link s n2 e = 0"
  shows "av_parent (swap_children (swap_children s False n1 n2) True n1 n2) y =
    (if y \<noteq> 0 \<and> (y = av_link s n1 False \<or> y = av_link s n1 True) then n2
     else if y \<noteq> 0 \<and> (y = av_link s n2 False \<or> y = av_link s n2 True) then n1
     else av_parent s y)"
proof -
  obtain c e c' e' where c: "av_link s n1 False = c" "av_link s n1 True = e" "av_link s n2 False = c'" "av_link s n2 True = e'"
    by simp
  have "c \<noteq> c' \<or> c' = 0" "c \<noteq> e' \<or> e' = 0" "e \<noteq> c' \<or> c' = 0" "e \<noteq> e' \<or> e' = 0"
    using b [of False False] b [of False True] b [of True False] b [of True True] by (simp_all only: c)
  then show ?thesis
    using n by (cases "y = 0"; cases "y = e"; cases "y = c") (simp_all add: c)
qed

lemma swap_apart_fields:
  assumes l: "linked s S" and n: "n1 \<in> S" "n2 \<in> S" "n1 \<noteq> n2"
    and p: "av_parent s n1 \<noteq> n2" "av_parent s n2 \<noteq> n1" "av_parent s n1 \<noteq> av_parent s n2"
  shows "av_parent (swap_apart s n1 n2) y =
      (if y \<noteq> 0 \<and> (y = av_link s n1 False \<or> y = av_link s n1 True) then n2
       else if y \<noteq> 0 \<and> (y = av_link s n2 False \<or> y = av_link s n2 True) then n1
       else if y = n1 then av_parent s n2 else if y = n2 then av_parent s n1 else av_parent s y)" (is ?A)
    and "av_link (swap_apart s n1 n2) y d =
      (if y = n1 then av_link s n2 d else if y = n2 then av_link s n1 d
       else if y = av_parent s n1 \<and> y \<noteq> 0 \<and> d = (n1 = av_link s y True) then n2
       else if y = av_parent s n2 \<and> y \<noteq> 0 \<and> d = (n2 = av_link s y True) then n1
       else av_link s y d)" (is ?B)
    and "av_root (swap_apart s n1 n2) = swp n1 n2 (av_root s)"
proof -
  have nz: "n1 \<noteq> 0" "n2 \<noteq> 0" "av_parent s n1 \<noteq> n1" "av_parent s n2 \<noteq> n2"
    using linked_facts(1,2) [OF l] n by metis+
  then have alt: "av_parent s n1 \<notin> {n1, n2}" "av_parent s n2 \<notin> {n1, n2}"
    using p by auto
  have b: "av_link s n1 d \<noteq> av_link s n2 e \<or> av_link s n2 e = 0" for d e
    using linked_facts(4) [OF l] n by metis
  note pf = swap_parents_fields [OF n(3) alt p(3)]
  have L: "av_link (swap_parents s n1 n2) n1 = av_link s n1" "av_link (swap_parents s n1 n2) n2 = av_link s n2"
    using alt by (auto simp: pf)
  have "av_parent (swap_apart s n1 n2) y =
      (if y \<noteq> 0 \<and> (y = av_link s n1 False \<or> y = av_link s n1 True) then n2
       else if y \<noteq> 0 \<and> (y = av_link s n2 False \<or> y = av_link s n2 True) then n1
       else av_parent (swap_parents s n1 n2) y)"
    unfolding swap_apart_def using swap_children_parents [OF n(3), of "swap_parents s n1 n2" y] b unfolding L by blast
  also have "av_parent (swap_parents s n1 n2) y =
      (if y = n1 then av_parent s n2 else if y = n2 then av_parent s n1 else av_parent s y)"
    unfolding pf(1) using n(3) by simp
  finally show ?A .
  show ?B
  proof (cases "y = n1 \<or> y = n2")
    case True
    then show ?thesis
      using n(3) by (cases d; elim disjE) (simp_all add: swap_apart_def L)
  next
    case False
    then show ?thesis
      unfolding swap_apart_def by (simp add: pf(2))
  qed
  show "av_root (swap_apart s n1 n2) = swp n1 n2 (av_root s)"
    using linked_facts(8) [OF l n(1)] linked_facts(8) [OF l n(2)] p
    by (auto simp: swap_apart_def pf(3) swp_def)
qed

lemma linked_side:
  assumes l: "linked s S" and x: "x \<in> S" and z: "av_link s x d \<noteq> 0"
  shows "d = (av_link s x d = av_link s x True)"
  using linked_facts(7) [OF l x] z by (cases d) auto

lemma linked_parent_iff:
  assumes l: "linked s S" and n: "n \<in> S" and x: "x \<in> S"
  shows "av_parent s x = n \<longleftrightarrow> x = av_link s n False \<or> x = av_link s n True"
proof
  assume "av_parent s x = n"
  then have "av_link s n (x = av_link s n True) = x"
    using linked_facts(1) [OF l n] linked_facts(6) [OF l x] by simp
  then show "x = av_link s n False \<or> x = av_link s n True"
    by (cases "x = av_link s n True") auto
next
  assume "x = av_link s n False \<or> x = av_link s n True"
  then show "av_parent s x = n"
    using linked_facts(4) [OF l n] linked_facts(1) [OF l x] by auto
qed

lemma linked_link_iff:
  assumes l: "linked s S" and x: "x \<in> S" and n: "n \<in> S"
  shows "av_link s x d = n \<longleftrightarrow> x = av_parent s n \<and> d = (n = av_link s x True)"
proof
  assume "av_link s x d = n"
  then show "x = av_parent s n \<and> d = (n = av_link s x True)"
    using linked_facts(1) [OF l n] linked_facts(4) [OF l x, of d] linked_side [OF l x, of d] by auto
next
  assume "x = av_parent s n \<and> d = (n = av_link s x True)"
  then show "av_link s x d = n"
    using linked_facts(1) [OF l x] linked_facts(6) [OF l n] by auto
qed

lemma swap_apart_ok:
  assumes l: "linked s S" and n: "n1 \<in> S" "n2 \<in> S" "n1 \<noteq> n2"
    and p: "av_parent s n1 \<noteq> n2" "av_parent s n2 \<noteq> n1" "av_parent s n1 \<noteq> av_parent s n2"
    and x: "x \<in> S"
  shows "swapped s (swap_apart s n1 n2) n1 n2 x"
proof -
  note F = swap_apart_fields [OF l n p]
  have nz: "n1 \<noteq> 0" "n2 \<noteq> 0" "av_parent s n1 \<noteq> n1" "av_parent s n2 \<noteq> n2"
    using linked_facts(1,2) [OF l] n by metis+
  have a: "av_link s n1 d \<noteq> n1" "av_link s n1 d \<noteq> n2" "av_link s n2 d \<noteq> n1" "av_link s n2 d \<noteq> n2" for d
    using linked_facts(4) [OF l] n p nz by metis+
  consider "x = n1" | "x = n2" | "x \<noteq> n1" "x \<noteq> n2"
    by blast
  then show ?thesis
  proof cases
    case 1
    then show ?thesis
      using n nz p a a [symmetric] by (simp add: swapped_def swp_def F)
  next
    case 2
    then show ?thesis
      using n nz p a a [symmetric] by (simp add: swapped_def swp_def F)
  next
    case 3
    have x0: "x \<noteq> 0"
      using linked_facts(1) [OF l x] .
    note par = linked_parent_iff [OF l n(1) x] linked_parent_iff [OF l n(2) x]
      and lnk = linked_link_iff [OF l x n(1)] linked_link_iff [OF l x n(2)]
    have "av_parent (swap_apart s n1 n2) x = swp n1 n2 (av_parent s x)"
      unfolding F(1) swp_def par using 3 x0 by auto
    moreover have "av_link (swap_apart s n1 n2) x d = swp n1 n2 (av_link s x d)" for d
    proof (cases "av_link s x d = n1")
      case True
      then show ?thesis
        using 3 x0 lnk(1) [of d] by (simp add: F swp_def)
    next
      case False
      then show ?thesis
        using 3 x0 p(3) lnk(1) [of d] lnk(2) [of d] by (cases "av_link s x d = n2") (auto simp: F swp_def)
    qed
    ultimately show ?thesis
      using 3 by (simp add: swapped_def swp_def)
  qed
qed

lemma relink_link:
  "av_link (relink s par old new) y d =
     (if par \<noteq> 0 \<and> y = par \<and> d = (old = av_link s par True) then new else av_link s y d)"
  by (simp add: relink_def)

lemma take_children_fields:
  assumes "n1 \<noteq> n2"
  shows "av_parent (take_children s n1 n2) y =
      (if y \<noteq> 0 \<and> (y = av_link s n2 False \<or> y = av_link s n2 True) then n1 else av_parent s y)"
    and "av_link (take_children s n1 n2) y d = (if y = n1 then av_link s n2 d else av_link s y d)"
    and "av_root (take_children s n1 n2) = av_root s"
    and "av_balance (take_children s n1 n2) = av_balance s"
  using assms by (cases d; simp add: take_children_def Let_def)+

lemma swap_adjacent_fields:
  assumes l: "linked s S" and n: "n1 \<in> S" "n2 \<in> S" "n1 \<noteq> n2"
    and p: "av_parent s n1 \<noteq> n2" "av_parent s n2 = n1"
  defines "side \<equiv> (n2 = av_link s n1 True)"
  shows "av_parent (swap_adjacent s n1 n2) y =
      (if y \<noteq> 0 \<and> y = av_link s n1 (\<not> side) \<or> y = n1 then n2 else if y = n2 then av_parent s n1
       else if y \<noteq> 0 \<and> (y = av_link s n2 False \<or> y = av_link s n2 True) then n1 else av_parent s y)" (is ?A)
    and "av_link (swap_adjacent s n1 n2) y d =
      (if y = n2 then (if d = side then n1 else av_link s n1 d) else if y = n1 then av_link s n2 d
       else if y = av_parent s n1 \<and> y \<noteq> 0 \<and> d = (n1 = av_link s y True) then n2
       else av_link s y d)" (is ?B)
    and "av_root (swap_adjacent s n1 n2) = swp n1 n2 (av_root s)" (is ?C)
proof -
  have nz: "n1 \<noteq> 0" "n2 \<noteq> 0" "av_parent s n1 \<noteq> n1"
    using linked_facts(1,2) [OF l] n by metis+
  define s1 where "s1 = take_children s n1 n2"
  note t = take_children_fields [OF n(3), of s, folded s1_def]
  have "n1 \<noteq> av_link s n2 False" "n1 \<noteq> av_link s n2 True"
    using linked_facts(4) [OF l n(2)] p nz by metis+
  then have p1: "av_parent s1 n1 = av_parent s n1"
    unfolding t(1) by simp
  have e: "swap_adjacent s n1 n2 =
      link_child (set_parent (set_link (relink (set_parent s1 n2 (av_parent s n1)) (av_parent s n1) n1 n2) n2 side n1) n1 n2)
        n2 (\<not> side) (av_link s n1 (\<not> side))"
    unfolding swap_adjacent_def side_def using n(3) nz p1 by (simp add: Let_def relink_def s1_def [symmetric])
  show ?A
    unfolding e using n(3) by (simp add: t(1))
  show ?B
  proof (cases "y = n2")
    case True
    then show ?thesis
      unfolding e using n(3) by (cases d; cases side) simp_all
  next
    case False
    then show ?thesis
      unfolding e using n(3) nz p by (cases "y = av_parent s n1") (simp_all add: t(2) relink_link)
  qed
  show ?C
    unfolding e using linked_facts(8) [OF l n(1)] linked_facts(8) [OF l n(2)] p nz
    by (auto simp: relink_def swp_def t(3))
qed

lemma swap_adjacent_ok:
  assumes l: "linked s S" and n: "n1 \<in> S" "n2 \<in> S" "n1 \<noteq> n2"
    and p: "av_parent s n1 \<noteq> n2" "av_parent s n2 = n1" and x: "x \<in> S"
  shows "swapped s (swap_adjacent s n1 n2) n1 n2 x"
proof -
  note F = swap_adjacent_fields [OF l n p]
  let ?side = "n2 = av_link s n1 True"
  have nz: "n1 \<noteq> 0" "n2 \<noteq> 0" "av_parent s n1 \<noteq> n1"
    using linked_facts(1,2) [OF l] n by metis+
  have side: "av_link s n1 ?side = n2"
    using linked_facts(6) [OF l n(2)] p(2) nz(1) by simp
  have other: "av_link s n1 (\<not> ?side) \<noteq> n2"
    using side linked_facts(7) [OF l n(1)] nz(2) by (cases ?side) auto
  have self: "av_link s n1 d \<noteq> n1" for d
    using linked_facts(4) [OF l n(1), of d] nz by auto
  have a: "av_link s n2 d \<noteq> n1" "av_link s n2 d \<noteq> n2" for d
    using linked_facts(4) [OF l n(2), of d] n(3) p nz by auto
  consider "x = n1" | "x = n2" | "x \<noteq> n1" "x \<noteq> n2"
    by blast
  then show ?thesis
  proof cases
    case 1
    have "av_link (swap_adjacent s n1 n2) n2 d = swp n1 n2 (av_link s n1 d)" for d
    proof (cases "d = ?side")
      case True
      then show ?thesis
        using side n(3) by (simp add: F swp_def)
    next
      case False
      then have "av_link s n1 d \<noteq> n2"
        using other by auto
      then show ?thesis
        using False self [of d] by (simp add: F swp_def)
    qed
    moreover have "av_parent (swap_adjacent s n1 n2) n2 = swp n1 n2 (av_parent s n1)"
      unfolding F(1) swp_def using n(3) p(1) nz other by auto
    ultimately show ?thesis
      using 1 n(3) by (simp add: swapped_def swp_def)
  next
    case 2
    then show ?thesis
      using n(3) nz p a a [symmetric] self [symmetric] by (simp add: swapped_def swp_def F)
  next
    case 3
    have x0: "x \<noteq> 0"
      using linked_facts(1) [OF l x] .
    have "(av_parent s x = n1) = (x = av_link s n1 (\<not> ?side))"
      unfolding linked_parent_iff [OF l n(1) x] using side 3 by (cases ?side) auto
    then have "av_parent (swap_adjacent s n1 n2) x = swp n1 n2 (av_parent s x)"
      unfolding F(1) swp_def linked_parent_iff [OF l n(2) x] using 3 x0 by auto
    moreover have "av_link s x d \<noteq> n2" for d
      using linked_link_iff [OF l x n(2)] p(2) 3(1) by simp
    then have "av_link (swap_adjacent s n1 n2) x d = swp n1 n2 (av_link s x d)" for d
      using linked_link_iff [OF l x n(1), of d] 3 x0 by (cases "av_link s x d = n1") (auto simp: F swp_def)
    ultimately show ?thesis
      using 3 by (simp add: swapped_def swp_def)
  qed
qed

lemma swap_balance [simp]:
  "av_balance (swap_adjacent s n1 n2) = av_balance s"
  "av_balance (swap_apart s n1 n2) = av_balance s"
  by (simp_all add: swap_adjacent_def take_children_def swap_apart_def swap_parents_def Let_def)

fun tmap :: "(addr \<Rightarrow> addr) \<Rightarrow> atree \<Rightarrow> atree" where
  "tmap f ALeaf = ALeaf"
| "tmap f (ANode l a b r) = ANode (tmap f l) (f a) b (tmap f r)"

lemma addrs_tmap [simp]: "addrs (tmap f t) = map f (addrs t)"
  by (induction t) auto

lemma swapped_rep:
  assumes "rep s par t" "\<And>x. x \<in> set (addrs t) \<Longrightarrow> swapped s s' n1 n2 x \<and> av_balance s' (swp n1 n2 x) = av_balance s x"
    and "n1 \<noteq> 0" "n2 \<noteq> 0"
  shows "rep s' (swp n1 n2 par) (tmap (swp n1 n2) t)"
  using assms(1,2)
proof (induction t arbitrary: par)
  case (ANode l a b r)
  have root: "root_of (tmap (swp n1 n2) t) = swp n1 n2 (root_of t)" for t
    using assms(3,4) by (cases t) (auto simp: swp_def)
  have "swapped s s' n1 n2 a" "av_balance s' (swp n1 n2 a) = av_balance s a"
    using ANode.prems(2) by auto
  moreover have "swp n1 n2 a \<noteq> 0"
    using ANode.prems(1) assms(3,4) by (auto simp: swp_def)
  ultimately show ?case
    using ANode by (simp add: root swapped_def)
qed simp

lemma swap_nodes_represents:
  assumes s: "represents s t" and n: "n1 \<in> set (addrs t)" "n2 \<in> set (addrs t)" "n1 \<noteq> n2"
    and p: "av_parent s n1 \<noteq> n2" "av_parent s n1 \<noteq> av_parent s n2"
  shows "represents (BAVL_swap_nodes s n1 n2) (tmap (swp n1 n2) t)"
proof -
  define s' where "s' = (if av_parent s n2 = n1 then swap_adjacent s n1 n2 else swap_apart s n1 n2)"
  note l = represents_linked [OF s]
  have nz: "n1 \<noteq> 0" "n2 \<noteq> 0"
    using linked_facts(1) [OF l] n by auto
  have sw: "swapped s s' n1 n2 x" if "x \<in> set (addrs t)" for x
    unfolding s'_def using swap_adjacent_ok [OF l n p(1) _ that] swap_apart_ok [OF l n p(1) _ p(2) that] by auto
  have root: "av_root s' = swp n1 n2 (av_root s)"
    unfolding s'_def using swap_adjacent_fields(3) [OF l n p(1)] swap_apart_fields(3) [OF l n p(1) _ p(2)] by auto
  have bal: "av_balance s' = av_balance s"
    by (simp add: s'_def)
  have e: "BAVL_swap_nodes s n1 n2 = set_balance (set_balance s' n1 (av_balance s n2)) n2 (av_balance s n1)"
    using p(1) n(3) by (simp add: BAVL_swap_nodes_def s'_def Let_def)
  have "swapped s (BAVL_swap_nodes s n1 n2) n1 n2 x \<and> av_balance (BAVL_swap_nodes s n1 n2) (swp n1 n2 x) = av_balance s x"
    if "x \<in> set (addrs t)" for x
    using sw [OF that] n(3) unfolding e by (auto simp: swapped_def swp_def bal)
  then have "rep (BAVL_swap_nodes s n1 n2) (swp n1 n2 0) (tmap (swp n1 n2) t)"
    using s nz unfolding represents_def by (intro swapped_rep) auto
  moreover have "av_root (BAVL_swap_nodes s n1 n2) = root_of (tmap (swp n1 n2) t)"
    unfolding e using root s nz by (cases t) (auto simp: represents_def swp_def)
  moreover have "inj (swp n1 n2)"
    unfolding inj_def swp_def by auto
  ultimately show ?thesis
    using s nz unfolding represents_def by (auto simp: swp_def distinct_map intro: inj_on_subset)
qed

subsection \<open>The contract of the tree\<close>

definition key_less :: "('k \<Rightarrow> 'k \<Rightarrow> int) \<Rightarrow> (addr \<Rightarrow> 'k) \<Rightarrow> addr \<Rightarrow> addr \<Rightarrow> bool" where
  "key_less cmp val a b \<longleftrightarrow> cmp (val a) (val b) = -1"

text \<open>The memory holds a balanced search tree over the nodes \<open>ns\<close>, in ascending order.\<close>

definition avl_tree :: "('k \<Rightarrow> 'k \<Rightarrow> int) \<Rightarrow> (addr \<Rightarrow> 'k) \<Rightarrow> BAVL \<Rightarrow> addr list \<Rightarrow> bool" where
  "avl_tree cmp val s ns \<longleftrightarrow>
     (\<exists>t. represents s t \<and> avl_ok t \<and> addrs t = ns \<and> sorted_wrt (key_less cmp val) ns)"

lemma represents_ALeaf: "represents s t \<Longrightarrow> av_root s = 0 \<longleftrightarrow> t = ALeaf"
  by (cases t) (auto simp: represents_def)

lemma avl_tree_Init: "avl_tree cmp val (BAVL_Init s) []"
  unfolding avl_tree_def by (rule exI [of _ ALeaf]) (simp add: represents_def BAVL_Init_def)

lemma insert_leaf_represents:
  assumes "represents s (plug (Crumb d a b sib # c) ALeaf)" "n \<notin> set (addrs (plug (Crumb d a b sib # c) ALeaf))" "n \<noteq> 0"
  shows "represents (BAVL_fresh (set_link s a d n) n a) (plug (Crumb d a b sib # c) (ANode ALeaf n 0 ALeaf))"
  using assms unfolding represents_plug BAVL_fresh_def by auto

text \<open>All nodes before a position are smaller than the key \<open>k\<close> and all behind it are larger.\<close>

definition position_of :: "('k \<Rightarrow> 'k \<Rightarrow> int) \<Rightarrow> (addr \<Rightarrow> 'k) \<Rightarrow> 'k \<Rightarrow> ctx \<Rightarrow> bool" where
  "position_of cmp val k c \<longleftrightarrow> (\<forall>x\<in>set (before c). cmp (val x) k = -1) \<and> (\<forall>x\<in>set (behind c). cmp k (val x) = -1)"

text \<open>The descent that insertion and lookup share: the last node reached, and the side on which to go on.\<close>

fun walk :: "('k \<Rightarrow> 'k \<Rightarrow> int) \<Rightarrow> (addr \<Rightarrow> 'k) \<Rightarrow> 'k \<Rightarrow> atree \<Rightarrow> addr \<times> bool option" where
  "walk cmp val k ALeaf = (NULL, None)"
| "walk cmp val k (ANode l a b r) =
     (if cmp k (val a) = 0 then (a, None)
      else if cmp k (val a) = 1 then (if r = ALeaf then (a, Some True) else walk cmp val k r)
      else (if l = ALeaf then (a, Some False) else walk cmp val k l))"

lemma walk_insert_find:
  "rep s par t \<Longrightarrow> t \<noteq> ALeaf \<Longrightarrow> BAVL_insert_find cmp val s n (root_of t) = Some (walk cmp val (val n) t)"
  by (induction t arbitrary: par) (subst BAVL_insert_find.simps; auto simp: BAVL_compare_nodes_def Let_def)+

lemma walk_lookup:
  "rep s par t \<Longrightarrow> t \<noteq> ALeaf \<Longrightarrow> BAVL_lookup_from cmp val s k (root_of t) = Some (fst (walk cmp val k t))"
  by (induction t arbitrary: par) (subst BAVL_lookup_from.simps; auto simp: Let_def)+

lemma walk_lookup_exact:
  "rep s par t \<Longrightarrow> t \<noteq> ALeaf \<Longrightarrow> BAVL_lookup_exact_from cmp val s k (root_of t) =
     Some (if snd (walk cmp val k t) = None then fst (walk cmp val k t) else 0)"
  by (induction t arbitrary: par) (subst BAVL_lookup_exact_from.simps; auto simp: Let_def)+

context cmp_order
begin

lemma position_step:
  assumes "position_of cmp val k c" "sorted_wrt (key_less cmp val) (addrs (plug c (ANode l a b r)))"
  shows "cmp k (val a) = 1 \<Longrightarrow> position_of cmp val k (Crumb True a b l # c)"
    and "cmp k (val a) = -1 \<Longrightarrow> position_of cmp val k (Crumb False a b r # c)"
proof -
  have s: "\<forall>x\<in>set (addrs l). cmp (val x) (val a) = -1" "\<forall>x\<in>set (addrs r). cmp (val a) (val x) = -1"
    using assms(2) by (auto simp: addrs_plug sorted_wrt_append key_less_def)
  show "position_of cmp val k (Crumb True a b l # c)" if k: "cmp k (val a) = 1"
  proof -
    have "cmp (val a) k = -1"
      using k cmp_less_iff by simp
    then have "\<forall>x\<in>set (addrs l). cmp (val x) k = -1"
      using s(1) cmp_less_trans by blast
    then show ?thesis
      using assms(1) \<open>cmp (val a) k = -1\<close> by (auto simp: position_of_def)
  qed
  show "position_of cmp val k (Crumb False a b r # c)" if k: "cmp k (val a) = -1"
  proof -
    have "\<forall>x\<in>set (addrs r). cmp k (val x) = -1"
      using s(2) k cmp_less_trans by blast
    then show ?thesis
      using assms(1) k by (auto simp: position_of_def)
  qed
qed

lemma walk_ok:
  assumes "t \<noteq> ALeaf" "sorted_wrt (key_less cmp val) (addrs (plug c t))" "position_of cmp val k c"
  shows "(\<exists>a. walk cmp val k t = (a, None) \<and> a \<in> set (addrs (plug c t)) \<and> cmp k (val a) = 0) \<or>
    (\<exists>a d b sib c'. walk cmp val k t = (a, Some d) \<and> plug c t = plug (Crumb d a b sib # c') ALeaf \<and>
       position_of cmp val k (Crumb d a b sib # c'))"
  using assms
proof (induction t arbitrary: c)
  case (ANode l a b r)
  note step = position_step [OF ANode.prems(3,2)]
  have pl: "plug c (ANode l a b r) = plug (Crumb False a b r # c) l" "plug c (ANode l a b r) = plug (Crumb True a b l # c) r"
    by (simp_all add: bnode_def)
  show ?case
  proof (cases rule: cmp_cases [of k "val a"])
    case less
    then show ?thesis
      using ANode.IH(1) [of "Crumb False a b r # c"] ANode.prems(2) step(2) pl(1) by (cases "l = ALeaf") (auto simp: less)
  next
    case equal
    then show ?thesis
      by simp
  next
    case greater
    then show ?thesis
      using ANode.IH(2) [of "Crumb True a b l # c"] ANode.prems(2) step(1) pl(2) by (cases "r = ALeaf") (auto simp: greater)
  qed
qed simp

end

subsection \<open>Insertion and lookup\<close>

lemma avl_treeE:
  assumes "avl_tree cmp val s ns"
  obtains t where "represents s t" "avl_ok t" "addrs t = ns" "sorted_wrt (key_less cmp val) ns"
    "rep s 0 t" "av_root s = root_of t" "av_root s = 0 \<longleftrightarrow> ns = []" "t = ALeaf \<longleftrightarrow> ns = []"
proof -
  obtain t where t: "represents s t" "avl_ok t" "addrs t = ns" "sorted_wrt (key_less cmp val) ns"
    using assms unfolding avl_tree_def by blast
  moreover have "t = ALeaf \<longleftrightarrow> ns = []"
    using t(3) by (cases t) auto
  ultimately show ?thesis
    using that represents_ALeaf [of s t] by (auto simp: represents_def)
qed

text \<open>Insertion at a free position.\<close>

lemma insert_at:
  assumes s: "represents s (plug (Crumb d a b sib # c) ALeaf)" "avl_ok (plug (Crumb d a b sib # c) ALeaf)"
    and n: "n \<notin> set (addrs (plug (Crumb d a b sib # c) ALeaf))" "n \<noteq> 0"
  shows "\<exists>s' t'. BAVL_rebalance (BAVL_fresh (set_link s a d n) n a) a d 1 = Some s' \<and> represents s' t' \<and>
    avl_ok t' \<and> addrs t' = before (Crumb d a b sib # c) @ n # behind (Crumb d a b sib # c)"
proof -
  let ?x = "ANode ALeaf n 0 ALeaf"
  have "represents (BAVL_fresh (set_link s a d n) n a) (plug c (bnode d ?x a b sib))"
    using insert_leaf_represents [OF s(1) n] by simp
  moreover have "avl_ok sib" "BAVL_OPTNEG b d = hgt sib - (hgt ?x - 1)" "- 1 \<le> b" "b \<le> 1"
    "ctx_ok c (1 + max (hgt ?x - 1) (hgt sib))"
    using s(2) unfolding avl_plug by (simp_all add: max.commute)
  ultimately obtain s' t' where "BAVL_rebalance (BAVL_fresh (set_link s a d n) n a) a d 1 = Some s'"
    "represents s' t'" "addrs t' = addrs (plug c (bnode d ?x a b sib))" "avl_ok t'"
    using rebalance_ok [of "BAVL_fresh (set_link s a d n) n a" c d ?x a b sib 1] by auto
  moreover have "addrs (plug c (bnode d ?x a b sib)) = before (Crumb d a b sib # c) @ n # behind (Crumb d a b sib # c)"
    using addrs_plug [of "Crumb d a b sib # c" ?x] by simp
  ultimately show ?thesis
    by auto
qed

context cmp_order
begin

lemma position_root: "position_of cmp val k []"
  by (simp add: position_of_def)

lemma sorted_insert:
  assumes "position_of cmp val (val n) c" "sorted_wrt (key_less cmp val) (before c @ behind c)"
  shows "sorted_wrt (key_less cmp val) (before c @ n # behind c)"
  using assms by (auto simp: sorted_wrt_append position_of_def key_less_def)

lemma position_fresh:
  assumes "position_of cmp val k c" "a \<in> set (before c @ behind c)"
  shows "cmp k (val a) \<noteq> 0"
  using assms cmp_less_iff [of "val a" k] by (auto simp: position_of_def)

lemma Insert_ok:
  assumes "avl_tree cmp val s ns" "n \<notin> set ns" "n \<noteq> 0"
  shows "(\<exists>a\<in>set ns. cmp (val n) (val a) = 0 \<and> BAVL_Insert cmp val s n = Some (s, False, a)) \<or>
    (\<exists>s' xs ys ref. ns = xs @ ys \<and> BAVL_Insert cmp val s n = Some (s', True, ref) \<and> avl_tree cmp val s' (xs @ n # ys) \<and>
       (\<forall>a\<in>set ns. cmp (val n) (val a) \<noteq> 0) \<and>
       (ns = [] \<longrightarrow> ref = 0) \<and> (ns \<noteq> [] \<longrightarrow> xs \<noteq> [] \<and> ref = last xs \<or> ys \<noteq> [] \<and> ref = hd ys))"
proof -
  obtain t where t: "represents s t" "avl_ok t" "addrs t = ns" "sorted_wrt (key_less cmp val) ns"
    "rep s 0 t" "av_root s = root_of t" "av_root s = 0 \<longleftrightarrow> ns = []" "t = ALeaf \<longleftrightarrow> ns = []"
    using avl_treeE [OF assms(1)] by metis
  show ?thesis
  proof (cases "ns = []")
    case True
    have "represents (BAVL_fresh (s\<lparr>av_root := n\<rparr>) n 0) (ANode ALeaf n 0 ALeaf)"
      using assms(3) by (simp add: represents_def BAVL_fresh_def)
    then have "avl_tree cmp val (BAVL_fresh (s\<lparr>av_root := n\<rparr>) n 0) [n]"
      unfolding avl_tree_def by (intro exI [of _ "ANode ALeaf n 0 ALeaf"]) simp
    then show ?thesis
      using True t(7) by (auto simp: BAVL_Insert_def)
  next
    case False
    then have find: "BAVL_insert_find cmp val s n (av_root s) = Some (walk cmp val (val n) t)"
      using walk_insert_find [OF t(5)] t(6,8) by metis
    have pos: "position_of cmp val (val n) []"
      by (rule position_root)
    consider a where "walk cmp val (val n) t = (a, None)" "a \<in> set ns" "cmp (val n) (val a) = 0"
      | a d b sib c where "walk cmp val (val n) t = (a, Some d)" "t = plug (Crumb d a b sib # c) ALeaf"
        "position_of cmp val (val n) (Crumb d a b sib # c)"
      using walk_ok [of t val "[]" "val n"] False t(3,4,8) pos by auto
    then show ?thesis
    proof cases
      case 1
      then show ?thesis
        using find False t(7) by (auto simp: BAVL_Insert_def)
    next
      case (2 a d b sib c)
      let ?c = "Crumb d a b sib # c"
      have ns: "ns = before ?c @ behind ?c"
        using t(3) unfolding 2(2) addrs_plug by simp
      obtain s' t' where s': "BAVL_rebalance (BAVL_fresh (set_link s a d n) n a) a d 1 = Some s'" "represents s' t'"
        "avl_ok t'" "addrs t' = before ?c @ n # behind ?c"
        using insert_at [of s d a b sib c n] t(1-3) assms(2,3) unfolding 2(2) by blast
      then have "avl_tree cmp val s' (before ?c @ n # behind ?c)"
        unfolding avl_tree_def using sorted_insert [OF 2(3)] t(4) unfolding ns by blast
      moreover have "BAVL_Insert cmp val s n = Some (s', True, a)"
        using find 2(1) s'(1) False t(7) by (simp add: BAVL_Insert_def)
      moreover have "before ?c \<noteq> [] \<and> a = last (before ?c) \<or> behind ?c \<noteq> [] \<and> a = hd (behind ?c)"
        by (cases d) auto
      moreover have "\<forall>x\<in>set ns. cmp (val n) (val x) \<noteq> 0"
        using position_fresh [OF 2(3)] ns by blast
      ultimately show ?thesis
        using ns False
        by blast
    qed
  qed
qed

lemma walk_tree:
  assumes "avl_tree cmp val s ns" "ns \<noteq> []"
  obtains (found) t a where "rep s 0 t" "t \<noteq> ALeaf" "av_root s = root_of t" "walk cmp val k t = (a, None)"
      "a \<in> set ns" "cmp k (val a) = 0"
    | (free) t a d xs ys where "rep s 0 t" "t \<noteq> ALeaf" "av_root s = root_of t" "walk cmp val k t = (a, Some d)"
      "ns = xs @ ys" "\<forall>x\<in>set xs. cmp (val x) k = -1" "\<forall>x\<in>set ys. cmp k (val x) = -1"
      "xs \<noteq> [] \<and> a = last xs \<or> ys \<noteq> [] \<and> a = hd ys"
proof -
  obtain t where t: "addrs t = ns" "sorted_wrt (key_less cmp val) ns" "rep s 0 t" "av_root s = root_of t" "t \<noteq> ALeaf"
    using avl_treeE [OF assms(1)] assms(2) by metis
  consider a where "walk cmp val k t = (a, None)" "a \<in> set ns" "cmp k (val a) = 0"
    | a d b sib c where "walk cmp val k t = (a, Some d)" "t = plug (Crumb d a b sib # c) ALeaf"
      "position_of cmp val k (Crumb d a b sib # c)"
    using walk_ok [of t val "[]" k] t(1,2,5) position_root by auto
  then show ?thesis
  proof cases
    case 1
    then show ?thesis
      using found t by blast
  next
    case (2 a d b sib c)
    let ?c = "Crumb d a b sib # c"
    have "ns = before ?c @ behind ?c"
      using t(1) unfolding 2(2) addrs_plug by simp
    moreover have "before ?c \<noteq> [] \<and> a = last (before ?c) \<or> behind ?c \<noteq> [] \<and> a = hd (behind ?c)"
      by (cases d) auto
    ultimately show ?thesis
      using free [OF t(3,5,4) 2(1)] 2(3) unfolding position_of_def by blast
  qed
qed

lemma apart_not_equal:
  assumes "\<forall>x\<in>set xs. cmp (val x) k = -1" "\<forall>x\<in>set ys. cmp k (val x) = -1"
  shows "\<not> (\<exists>x\<in>set (xs @ ys). cmp k (val x) = 0)"
  using assms cmp_less_iff [of _ k] by auto

lemma Lookup_ok:
  assumes "avl_tree cmp val s ns"
  shows "\<exists>a. BAVL_Lookup cmp val s k = Some a \<and> (ns = [] \<longrightarrow> a = 0) \<and>
    ((\<exists>x\<in>set ns. cmp k (val x) = 0) \<longrightarrow> a \<in> set ns \<and> cmp k (val a) = 0) \<and>
    (ns \<noteq> [] \<and> \<not> (\<exists>x\<in>set ns. cmp k (val x) = 0) \<longrightarrow>
      (\<exists>xs ys. ns = xs @ ys \<and> (\<forall>x\<in>set xs. cmp (val x) k = -1) \<and> (\<forall>x\<in>set ys. cmp k (val x) = -1) \<and>
         (xs \<noteq> [] \<and> a = last xs \<or> ys \<noteq> [] \<and> a = hd ys)))"
proof (cases "ns = []")
  case True
  then show ?thesis
    using avl_treeE [OF assms] by (metis BAVL_Lookup_def empty_iff empty_set)
next
  case False
  then have root: "av_root s \<noteq> 0"
    using avl_treeE [OF assms] by metis
  from assms False show ?thesis
  proof (cases rule: walk_tree [where k = k])
    case (found t a)
    then show ?thesis
      using root walk_lookup [of s 0 t cmp val k] False by (auto simp: BAVL_Lookup_def)
  next
    case (free t a d xs ys)
    have "BAVL_Lookup cmp val s k = Some a"
      using root walk_lookup [of s 0 t cmp val k] free(1-4) by (simp add: BAVL_Lookup_def)
    then show ?thesis
      using apart_not_equal [OF free(6,7)] free(5-8) False by blast
  qed
qed

lemma LookupExact_ok:
  assumes "avl_tree cmp val s ns"
  shows "\<exists>a. BAVL_LookupExact cmp val s k = Some a \<and>
    ((\<exists>x\<in>set ns. cmp k (val x) = 0) \<longrightarrow> a \<in> set ns \<and> cmp k (val a) = 0) \<and>
    (\<not> (\<exists>x\<in>set ns. cmp k (val x) = 0) \<longrightarrow> a = 0)"
proof (cases "ns = []")
  case True
  then show ?thesis
    using avl_treeE [OF assms] by (metis BAVL_LookupExact_def empty_iff empty_set)
next
  case False
  then have root: "av_root s \<noteq> 0"
    using avl_treeE [OF assms] by metis
  from assms False show ?thesis
  proof (cases rule: walk_tree [where k = k])
    case (found t a)
    then show ?thesis
      using root walk_lookup_exact [of s 0 t cmp val k] by (auto simp: BAVL_LookupExact_def)
  next
    case (free t a d xs ys)
    have "BAVL_LookupExact cmp val s k = Some 0"
      using root walk_lookup_exact [of s 0 t cmp val k] free(1-4) by (simp add: BAVL_LookupExact_def)
    then show ?thesis
      using apart_not_equal [OF free(6,7)] free(5) by blast
  qed
qed

end

subsection \<open>Removal\<close>

lemma plug_append: "plug (c1 @ c2) t = plug c2 (plug c1 t)"
  by (induction c1 t rule: plug.induct) auto

lemma before_append: "before (c1 @ c2) = before c2 @ before c1"
  by (induction c1 rule: before.induct) auto

lemma behind_append: "behind (c1 @ c2) = behind c1 @ behind c2"
  by (induction c1 rule: behind.induct) auto

lemma subtree_max_ok:
  assumes "rep s par t" "t \<noteq> ALeaf"
  shows "\<exists>m l mx b. t = plug m (ANode l mx b ALeaf) \<and> behind m = [] \<and> BAVL_subtree_max s (root_of t) = Some mx"
  using assms
proof (induction t arbitrary: par)
  case (ANode l a b r)
  show ?case
  proof (cases "r = ALeaf")
    case True
    then have "BAVL_subtree_max s (root_of (ANode l a b r)) = Some a"
      using ANode.prems(1) by (subst BAVL_subtree_max.simps) simp
    then show ?thesis
      using True by (intro exI [of _ "[]"]) auto
  next
    case False
    then obtain m l' mx b' where "r = plug m (ANode l' mx b' ALeaf)" "behind m = []" "BAVL_subtree_max s (root_of r) = Some mx"
      using ANode.IH(2) [of a] ANode.prems(1) unfolding rep.simps by blast
    moreover have "BAVL_subtree_max s (root_of (ANode l a b r)) = BAVL_subtree_max s (root_of r)"
      using ANode.prems(1) False by (subst BAVL_subtree_max.simps) auto
    ultimately have "ANode l a b r = plug (m @ [Crumb True a b l]) (ANode l' mx b' ALeaf)"
      "behind (m @ [Crumb True a b l]) = []" "BAVL_subtree_max s (root_of (ANode l a b r)) = Some mx"
      by (simp_all add: plug_append behind_append bnode_def)
    then show ?thesis
      by blast
  qed
qed simp

text \<open>A node with at most one subtree is replaced by it.\<close>

lemma replace_represents:
  assumes s: "represents s (plug c (ANode l n b r))" and ch: "ch = l \<or> ch = r"
  shows "represents (BAVL_replace_subtree s n (root_of ch)) (plug c ch)"
proof -
  have f: "rep s n ch" "distinct (addrs ch)" "n \<notin> set (addrs ch)" "rep_ctx s n c" "distinct_ctx c" "n \<notin> ctx_addrs c"
    "n \<noteq> 0" "set (addrs ch) \<inter> ctx_addrs c = {}" "av_parent s n = cpar c"
    using s ch unfolding represents_plug by auto
  define s1 where "s1 = relink s (cpar c) n (root_of ch)"
  have c0: "cpar c \<notin> set (addrs ch)"
    using f(8) cpar_in [of c] rep_nonzero [OF f(1)] by (cases "c = []") auto
  have e: "BAVL_replace_subtree s n (root_of ch) = (if root_of ch \<noteq> 0 then set_parent s1 (root_of ch) (cpar c) else s1)"
    unfolding BAVL_replace_subtree_def f(9) s1_def by (simp add: Let_def relink_def f(9))
  have "rep s1 n ch"
    unfolding s1_def using f(1) c0 by simp
  then have "rep (BAVL_replace_subtree s n (root_of ch)) (cpar c) ch"
    unfolding e using f(2) by (rule rep_reparent)
  moreover have "rep_ctx s1 (root_of ch) c"
    unfolding s1_def using f by (intro rep_ctx_relink) auto
  then have "rep_ctx (BAVL_replace_subtree s n (root_of ch)) (root_of ch) c"
  proof (cases "ch = ALeaf")
    case False
    then have "root_of ch \<notin> ctx_addrs c"
      using f(8) root_of_in [of ch] by blast
    then show ?thesis
      unfolding e using \<open>rep_ctx s1 (root_of ch) c\<close> root_of_eq_0 [OF f(1)] False by simp
  qed (use e in simp)
  ultimately show ?thesis
    using f unfolding represents_plug by blast
qed

lemma remove_single_ok:
  assumes s: "represents s (plug c (ANode l n b r))" "avl_ok (plug c (ANode l n b r))" and one: "l = ALeaf \<or> r = ALeaf"
  shows "\<exists>s' t'. remove_single s n = Some s' \<and> represents s' t' \<and> avl_ok t' \<and>
    addrs t' = before c @ addrs l @ addrs r @ behind c"
proof -
  define ch where "ch = (if l \<noteq> ALeaf then l else r)"
  have ch: "ch = l \<or> ch = r" "addrs ch = addrs l @ addrs r" "hgt (ANode l n b r) = hgt ch + 1"
    using one hgt_nonneg [of l] hgt_nonneg [of r] by (auto simp: ch_def)
  define s1 where "s1 = BAVL_replace_subtree s n (root_of ch)"
  have s1: "represents s1 (plug c ch)"
    unfolding s1_def by (rule replace_represents [OF s(1) ch(1)])
  have f: "av_parent s n = cpar c" "root_of l = 0 \<longleftrightarrow> l = ALeaf" "av_link s n False = root_of l" "av_link s n True = root_of r"
    using s(1) unfolding represents_plug by auto
  then have e: "remove_single s n =
      (if cpar c \<noteq> 0 then BAVL_rebalance s1 (cpar c) (n = av_link s (cpar c) True) (-1) else Some s1)"
    unfolding remove_single_def s1_def ch_def by (simp add: Let_def)
  have ok: "avl_ok ch" "ctx_ok c (hgt ch + 1)"
    using s(2) ch(1) unfolding avl_plug ch(3) by auto
  show ?thesis
  proof (cases c rule: cpar.cases)
    case 1
    then show ?thesis
      using e s1 ok ch(2) by (intro exI [of _ s1] exI [of _ ch]) simp
  next
    case (2 d a b' sib c')
    have "(n = av_link s a True) = d" "a \<noteq> 0"
      using ctx_side [of s d a b' sib c' "ANode l n b r"] s(1) 2 by (auto simp: represents_plug)
    then have "remove_single s n = BAVL_rebalance s1 a d (-1)"
      using e 2 by simp
    moreover have "\<exists>s' t'. BAVL_rebalance s1 a d (-1) = Some s' \<and> represents s' t' \<and>
        addrs t' = addrs (plug c' (bnode d ch a b' sib)) \<and> avl_ok t'"
      using s1 ok unfolding 2 by (intro rebalance_ok) (auto simp: max.commute)
    moreover have "addrs (plug c' (bnode d ch a b' sib)) = before c @ addrs l @ addrs r @ behind c"
      using addrs_plug [of c ch] ch(2) unfolding 2 by simp
    ultimately show ?thesis
      by auto
  qed
qed

lemma tmap_other: "n1 \<notin> set (addrs t) \<Longrightarrow> n2 \<notin> set (addrs t) \<Longrightarrow> tmap (swp n1 n2) t = t"
  by (induction t) (auto simp: swp_def)

lemma avl_tmap [simp]: "hgt (tmap f t) = hgt t" "avl_ok (tmap f t) = avl_ok t"
  by (induction t) auto


lemma tmap_plug_other:
  "n1 \<notin> ctx_addrs c \<Longrightarrow> n2 \<notin> ctx_addrs c \<Longrightarrow> tmap (swp n1 n2) (plug c t) = plug c (tmap (swp n1 n2) t)"
  by (induction c t rule: plug.induct) (auto simp: bnode_def tmap_other swp_def)

lemma swap_tree:
  assumes "distinct (addrs (plug c (ANode (plug m (ANode l mx bm ALeaf)) n b r)))"
  shows "tmap (swp n mx) (plug c (ANode (plug m (ANode l mx bm ALeaf)) n b r)) =
    plug (m @ Crumb False mx b r # c) (ANode l n bm ALeaf)"
proof -
  have "n \<notin> ctx_addrs c" "mx \<notin> ctx_addrs c" "n \<notin> ctx_addrs m" "mx \<notin> ctx_addrs m" "n \<notin> set (addrs l)"
    "mx \<notin> set (addrs l)" "n \<notin> set (addrs r)" "mx \<notin> set (addrs r)" "n \<noteq> mx"
    using assms by auto
  then show ?thesis
    by (simp add: tmap_plug_other tmap_other plug_append bnode_def swp_def)
qed

text \<open>The first half of \<open>BAVL_Remove\<close>: the node changes places with its predecessor.\<close>

lemma swap_predecessor:
  assumes s: "represents s (plug c (ANode (plug m (ANode l mx bm ALeaf)) n b r))"
    (is "represents s ?t") and m: "behind m = []"
  shows "represents (BAVL_swap_nodes s n mx) (plug (m @ Crumb False mx b r # c) (ANode l n bm ALeaf))"
proof -
  have d: "distinct (addrs ?t)"
    using s unfolding represents_def by simp
  have mx: "mx \<noteq> n" "mx \<in> set (addrs ?t)" "n \<in> set (addrs ?t)"
    using d by auto
  have pn: "av_parent s n = cpar c"
    using s unfolding represents_plug by auto
  have sm: "represents s (plug (m @ Crumb False n b r # c) (ANode l mx bm ALeaf))"
    using s by (simp add: plug_append bnode_def)
  then have pm: "av_parent s mx = cpar (m @ Crumb False n b r # c)"
    unfolding represents_plug by auto
  have cc: "c = [] \<or> cpar c \<in> ctx_addrs c"
    using cpar_in by blast
  have mm: "cpar (m @ Crumb False n b r # c) \<in> insert n (ctx_addrs m)"
    by (cases m rule: cpar.cases) auto
  have nz: "0 \<notin> set (addrs ?t)"
    using s rep_nonzero unfolding represents_def by blast
  have "cpar c \<noteq> mx" "cpar c \<noteq> cpar (m @ Crumb False n b r # c)"
    using cc mm d nz by auto
  then have "represents (BAVL_swap_nodes s n mx) (tmap (swp n mx) ?t)"
    using swap_nodes_represents [OF s mx(3,2)] mx(1) pn pm by simp
  then show ?thesis
    using swap_tree [OF d] by simp
qed

lemma Remove_ok:
  assumes tr: "avl_tree cmp val s ns" and n: "n \<in> set ns"
  shows "\<exists>s'. BAVL_Remove s n = Some s' \<and> avl_tree cmp val s' (remove1 n ns)"
proof -
  obtain t where t: "represents s t" "avl_ok t" "addrs t = ns" "sorted_wrt (key_less cmp val) ns"
    using avl_treeE [OF tr] by metis
  obtain c l b r where c: "t = plug c (ANode l n b r)"
    using addrs_position [of n t "[]"] n t(3) by auto
  have ns: "ns = before c @ addrs l @ n # addrs r @ behind c" "distinct ns"
    using t(1,3) unfolding c addrs_plug represents_def by auto
  then have rm: "remove1 n ns = before c @ addrs l @ addrs r @ behind c"
    by (simp add: remove1_append)
  have f: "av_link s n False = root_of l" "av_link s n True = root_of r" "rep s n l"
    "root_of l = 0 \<longleftrightarrow> l = ALeaf" "root_of r = 0 \<longleftrightarrow> r = ALeaf" "av_parent s n = cpar c"
    using t(1) unfolding c represents_plug by auto
  have "\<exists>s' t'. BAVL_Remove s n = Some s' \<and> represents s' t' \<and> avl_ok t' \<and> addrs t' = remove1 n ns"
  proof (cases "l = ALeaf \<or> r = ALeaf")
    case True
    then show ?thesis
      using remove_single_ok [of s c l n b r] t(1,2) f rm unfolding c by (auto simp: BAVL_Remove_def)
  next
    case False
    then obtain m l' mx bm where l: "l = plug m (ANode l' mx bm ALeaf)" "behind m = []" "BAVL_subtree_max s (root_of l) = Some mx"
      using subtree_max_ok [OF f(3)] by blast
    let ?c = "m @ Crumb False mx b r # c"
    have s1: "represents (BAVL_swap_nodes s n mx) (plug ?c (ANode l' n bm ALeaf))"
      using swap_predecessor [of s c m l' mx bm n b r] t(1) l(2) unfolding c l(1) by simp
    moreover have "distinct (addrs (plug c (ANode (plug m (ANode l' mx bm ALeaf)) n b r)))"
      using t(1) unfolding c l(1) represents_def by simp
    then have "avl_ok (plug ?c (ANode l' n bm ALeaf))"
      using t(2) unfolding c l(1) by (metis swap_tree avl_tmap(2))
    moreover have "before ?c @ addrs l' @ addrs ALeaf @ behind ?c = remove1 n ns"
      unfolding rm l(1) addrs_plug by (simp add: before_append behind_append l(2))
    moreover have "BAVL_Remove s n = remove_single (BAVL_swap_nodes s n mx) n"
      using False f l(3) by (simp add: BAVL_Remove_def)
    ultimately show ?thesis
      using remove_single_ok [of "BAVL_swap_nodes s n mx" ?c l' n bm ALeaf] by simp
  qed
  moreover have "sorted_wrt (key_less cmp val) (remove1 n ns)"
    unfolding rm using t(4) [unfolded ns(1)] by (auto simp: sorted_wrt_append)
  ultimately show ?thesis
    unfolding avl_tree_def by metis
qed

subsection \<open>Traversal\<close>

lemma descend_ok:
  "rep s par t \<Longrightarrow> t \<noteq> ALeaf \<Longrightarrow> BAVL_descend s d (root_of t) = Some (if d then last (addrs t) else hd (addrs t))"
proof (induction t arbitrary: par)
  case (ANode l a b r)
  have ne: "l \<noteq> ALeaf \<Longrightarrow> addrs l \<noteq> []" "r \<noteq> ALeaf \<Longrightarrow> addrs r \<noteq> []"
    by (cases l; simp) (cases r; simp)
  show ?case
    using ANode ne by (subst BAVL_descend.simps) (cases d; cases "l = ALeaf"; cases "r = ALeaf"; auto)
qed simp

text \<open>The neighbour of a position: the next node for \<open>True\<close>, the previous one for \<open>False\<close>.\<close>

definition beyond :: "bool \<Rightarrow> ctx \<Rightarrow> addr" where
  "beyond d c = (if d then if behind c = [] then 0 else hd (behind c)
                 else if before c = [] then 0 else last (before c))"

lemma ascend_ok:
  assumes "represents s (plug c t)" "t \<noteq> ALeaf"
  shows "\<exists>x. BAVL_ascend s d (root_of t) = Some x \<and> av_parent s x = beyond d c"
  using assms
proof (induction c arbitrary: t)
  case Nil
  then have "av_parent s (root_of t) = 0"
    by (cases t) (auto simp: represents_def)
  then show ?case
    by (subst BAVL_ascend.simps) (simp add: beyond_def)
next
  case (Cons cr c)
  obtain e a b sib where cr: "cr = Crumb e a b sib"
    by (cases cr)
  have par: "av_parent s (root_of t) = a" "a \<noteq> 0"
    using Cons.prems by (cases t; auto simp: cr represents_plug)+
  have "root_of t = av_link s a d \<longleftrightarrow> d = e"
    using Cons.prems root_of_in [of t] root_of_in [of sib]
    by (cases d; cases e; cases "sib = ALeaf") (auto simp: cr represents_plug)
  then have step: "BAVL_ascend s d (root_of t) = (if d = e then BAVL_ascend s d a else Some (root_of t))"
    using par by (subst BAVL_ascend.simps) simp
  show ?case
  proof (cases "d = e")
    case True
    have "bnode e t a b sib \<noteq> ALeaf" "represents s (plug c (bnode e t a b sib))"
      using Cons.prems(1) by (auto simp: bnode_def cr)
    then obtain x where "BAVL_ascend s d a = Some x" "av_parent s x = beyond d c"
      using Cons.IH [of "bnode e t a b sib"] by auto
    then show ?thesis
      using step True by (simp add: cr beyond_def)
  next
    case False
    then show ?thesis
      using step par by (simp add: cr beyond_def)
  qed
qed

lemma append_split_distinct:
  "xs @ n # ys = us @ n # vs \<Longrightarrow> distinct (xs @ n # ys) \<Longrightarrow> xs = us \<and> ys = vs"
  by (metis append_Cons_eq_iff distinct_append not_distinct_conv_prefix disjoint_iff list.set_intros(1) distinct.simps(2))

lemma traverse_ok:
  assumes "avl_tree cmp val s (xs @ n # ys)"
  shows "BAVL_GetNext s n = Some (if ys = [] then 0 else hd ys)"
    and "BAVL_GetPrev s n = Some (if xs = [] then 0 else last xs)"
proof -
  obtain t where t: "represents s t" "addrs t = xs @ n # ys"
    using avl_treeE [OF assms] by metis
  obtain c l b r where c: "t = plug c (ANode l n b r)"
    using addrs_position [of n t "[]"] t(2) by auto
  have dist: "distinct (xs @ n # ys)"
    using t unfolding represents_def by metis
  have eq: "xs @ n # ys = (before c @ addrs l) @ n # addrs r @ behind c"
    using t(2) unfolding c addrs_plug by simp
  have e: "xs = before c @ addrs l" "ys = addrs r @ behind c"
    using append_split_distinct [OF eq dist] by simp_all
  have f: "av_link s n False = root_of l" "av_link s n True = root_of r" "rep s n l" "rep s n r"
    using t(1) unfolding c represents_plug by auto
  have nz: "l \<noteq> ALeaf \<Longrightarrow> addrs l \<noteq> []" "r \<noteq> ALeaf \<Longrightarrow> addrs r \<noteq> []"
    by (cases l; simp) (cases r; simp)
  have asc: "\<exists>x. BAVL_ascend s d n = Some x \<and> av_parent s x = beyond d c" for d
    using ascend_ok [of s c "ANode l n b r" d] t(1) c by simp
  show "BAVL_GetNext s n = Some (if ys = [] then 0 else hd ys)"
    using asc [of True] f(2,4) descend_ok [OF f(4), of False] nz(2)
    by (cases "r = ALeaf") (auto simp: BAVL_GetNext_def e beyond_def)
  show "BAVL_GetPrev s n = Some (if xs = [] then 0 else last xs)"
    using asc [of False] f(1,3) descend_ok [OF f(3), of True] nz(1)
    by (cases "l = ALeaf") (auto simp: BAVL_GetPrev_def e beyond_def)
qed

lemma ends_ok:
  assumes "avl_tree cmp val s ns"
  shows "BAVL_GetFirst s = Some (if ns = [] then 0 else hd ns)"
    and "BAVL_GetLast s = Some (if ns = [] then 0 else last ns)"
proof -
  obtain t where t: "addrs t = ns" "rep s 0 t" "av_root s = root_of t" "av_root s = 0 \<longleftrightarrow> ns = []" "t = ALeaf \<longleftrightarrow> ns = []"
    using avl_treeE [OF assms] by metis
  then show "BAVL_GetFirst s = Some (if ns = [] then 0 else hd ns)"
    "BAVL_GetLast s = Some (if ns = [] then 0 else last ns)"
    using descend_ok [OF t(2), of False] descend_ok [OF t(2), of True]
    by (auto simp: BAVL_GetFirst_def BAVL_GetLast_def)
qed

subsection \<open>Height and self check\<close>

lemma avl_size: "avl_ok t \<Longrightarrow> hgt t = int h \<Longrightarrow> 2 ^ (h div 2) \<le> length (addrs t) + 1"
proof (induction t arbitrary: h rule: avl_ok.induct)
  case (2 l a b r)
  obtain x y where xy: "hgt l = int x" "hgt r = int y"
    using hgt_nonneg by (metis zero_le_imp_eq_int)
  have h: "h = Suc (max x y)" "x \<le> y + 1" "y \<le> x + 1"
    using 2(3,4) xy by auto
  have ih: "2 ^ (x div 2) \<le> length (addrs l) + 1" "2 ^ (y div 2) \<le> length (addrs r) + 1"
    using 2 xy by auto
  have "h div 2 \<le> Suc (x div 2)" "h div 2 \<le> Suc (y div 2)"
    using h by auto
  then have "(2::nat) ^ (h div 2) \<le> 2 * 2 ^ (x div 2)" "(2::nat) ^ (h div 2) \<le> 2 * 2 ^ (y div 2)"
    by (metis power_Suc power_increasing one_le_numeral)+
  then show ?case
    using ih by simp
qed simp

context cmp_order
begin

lemma assert_recurser_ok:
  assumes "rep s par t" "avl_ok t" "sorted_wrt (key_less cmp val) (addrs t)" "t \<noteq> ALeaf"
  shows "BAVL_assert_recurser cmp val s (root_of t) = Some (hgt t)"
  using assms
proof (induction t arbitrary: par)
  case (ANode l a b r)
  have "l \<noteq> ALeaf \<Longrightarrow> cmp (val (root_of l)) (val a) = -1" "r \<noteq> ALeaf \<Longrightarrow> cmp (val a) (val (root_of r)) = -1"
    using ANode.prems(3) root_of_in [of l] root_of_in [of r] by (auto simp: sorted_wrt_append key_less_def)
  moreover have "l \<noteq> ALeaf \<Longrightarrow> 0 < root_of l" "r \<noteq> ALeaf \<Longrightarrow> 0 < root_of r"
    using ANode.prems(1) by (cases l; simp; cases r; simp)+
  moreover have "l \<noteq> ALeaf \<Longrightarrow> av_parent s (root_of l) = a" "r \<noteq> ALeaf \<Longrightarrow> av_parent s (root_of r) = a"
    using ANode.prems(1) by (cases l; simp; cases r; simp)+
  moreover have "l \<noteq> ALeaf \<Longrightarrow> BAVL_assert_recurser cmp val s (root_of l) = Some (hgt l)"
    "r \<noteq> ALeaf \<Longrightarrow> BAVL_assert_recurser cmp val s (root_of r) = Some (hgt r)"
    using ANode.IH(1) [of a] ANode.IH(2) [of a] ANode.prems by (auto simp: sorted_wrt_append)
  ultimately show ?case
    using ANode.prems(1,2) cmp_less_iff by (subst BAVL_assert_recurser.simps) (cases "l = ALeaf"; cases "r = ALeaf"; auto simp: BAVL_compare_nodes_def)
qed simp

lemma Verify_ok:
  assumes "avl_tree cmp val s ns"
  shows "BAVL_Verify cmp val s"
proof -
  obtain t where t: "avl_ok t" "addrs t = ns" "sorted_wrt (key_less cmp val) ns" "rep s 0 t" "av_root s = root_of t"
    using avl_treeE [OF assms] by metis
  show ?thesis
  proof (cases "t = ALeaf")
    case False
    then have "av_parent s (root_of t) = 0"
      using t(4) by (cases t) auto
    then show ?thesis
      using assert_recurser_ok [OF t(4,1) _ False] t(2,3,5) by (auto simp: BAVL_Verify_def)
  qed (use t in \<open>simp add: BAVL_Verify_def\<close>)
qed

end

subsection \<open>Sequences of operations\<close>

datatype avl_op = Ins addr | Rem addr

fun avl_exec :: "('k \<Rightarrow> 'k \<Rightarrow> int) \<Rightarrow> (addr \<Rightarrow> 'k) \<Rightarrow> BAVL \<Rightarrow> avl_op list \<Rightarrow> BAVL option" where
  "avl_exec cmp val s [] = Some s"
| "avl_exec cmp val s (Ins n # ops) = do { (s, ok, ref) \<leftarrow> BAVL_Insert cmp val s n; avl_exec cmp val s ops }"
| "avl_exec cmp val s (Rem n # ops) = do { s \<leftarrow> BAVL_Remove s n; avl_exec cmp val s ops }"

text \<open>
  The specification: a set of nodes with pairwise different keys. A caller inserts nodes
  that are not in the tree and removes nodes that are.
\<close>

fun spec_exec :: "('k \<Rightarrow> 'k \<Rightarrow> int) \<Rightarrow> (addr \<Rightarrow> 'k) \<Rightarrow> addr set \<Rightarrow> avl_op list \<Rightarrow> addr set" where
  "spec_exec cmp val A [] = A"
| "spec_exec cmp val A (Ins n # ops) =
     spec_exec cmp val (if \<exists>a\<in>A. cmp (val n) (val a) = 0 then A else insert n A) ops"
| "spec_exec cmp val A (Rem n # ops) = spec_exec cmp val (A - {n}) ops"

fun spec_ok :: "('k \<Rightarrow> 'k \<Rightarrow> int) \<Rightarrow> (addr \<Rightarrow> 'k) \<Rightarrow> addr set \<Rightarrow> avl_op list \<Rightarrow> bool" where
  "spec_ok cmp val A [] \<longleftrightarrow> True"
| "spec_ok cmp val A (Ins n # ops) \<longleftrightarrow> n \<noteq> 0 \<and> n \<notin> A \<and>
     spec_ok cmp val (if \<exists>a\<in>A. cmp (val n) (val a) = 0 then A else insert n A) ops"
| "spec_ok cmp val A (Rem n # ops) \<longleftrightarrow> n \<in> A \<and> spec_ok cmp val (A - {n}) ops"

context cmp_order
begin

lemma exec_ok:
  assumes "avl_tree cmp val s ns" "spec_ok cmp val (set ns) ops"
  shows "\<exists>s' ns'. avl_exec cmp val s ops = Some s' \<and> avl_tree cmp val s' ns' \<and> set ns' = spec_exec cmp val (set ns) ops"
  using assms
proof (induction ops arbitrary: s ns)
  case (Cons op ops)
  show ?case
  proof (cases op)
    case (Ins n)
    then have n: "n \<notin> set ns" "n \<noteq> 0"
      using Cons.prems(2) by auto
    from Insert_ok [OF Cons.prems(1) n] show ?thesis
    proof (elim disjE bexE exE conjE)
      fix a
      assume a: "a \<in> set ns" "cmp (val n) (val a) = 0" "BAVL_Insert cmp val s n = Some (s, False, a)"
      then have "(\<exists>a\<in>set ns. cmp (val n) (val a) = 0) = True"
        by blast
      then show ?thesis
        using Cons.IH [OF Cons.prems(1)] Cons.prems(2) a(3) by (simp add: Ins)
    next
      fix s' xs ys ref
      assume a: "ns = xs @ ys" "BAVL_Insert cmp val s n = Some (s', True, ref)" "avl_tree cmp val s' (xs @ n # ys)"
        "\<forall>a\<in>set ns. cmp (val n) (val a) \<noteq> 0"
      then have "(\<exists>a\<in>set ns. cmp (val n) (val a) = 0) = False" "set (xs @ n # ys) = insert n (set ns)"
        by auto
      then show ?thesis
        using Cons.IH [OF a(3)] Cons.prems(2) a(2) by (simp add: Ins)
    qed
  next
    case (Rem n)
    then obtain s' where s': "BAVL_Remove s n = Some s'" "avl_tree cmp val s' (remove1 n ns)"
      using Remove_ok [OF Cons.prems(1)] Cons.prems(2) by auto
    have "distinct ns"
      using avl_treeE [OF Cons.prems(1)] unfolding represents_def by metis
    then have "set (remove1 n ns) = set ns - {n}"
      by simp
    then show ?thesis
      using Cons.IH [OF s'(2)] Cons.prems(2) s'(1) by (auto simp: Rem)
  qed
qed auto

end

subsection \<open>What the tree guarantees\<close>

text \<open>
  \<^bold>\<open>C1\<close>. The AVL tree implements a set of nodes: for every comparator that orders the keys,
  every sequence of insertions and removals terminates, leaves exactly the nodes that the
  specification contains, as a balanced search tree in ascending order, and the memory
  passes the check \<open>BAVL_Verify\<close> of the source (balance factors, order, parent links).
\<close>

theorem BAVL_refines_set:
  assumes "cmp_order cmp" "spec_ok cmp val {} ops"
  shows "\<exists>s' ns. avl_exec cmp val (BAVL_Init s) ops = Some s' \<and> avl_tree cmp val s' ns \<and>
    set ns = spec_exec cmp val {} ops \<and> BAVL_Verify cmp val s'"
  using cmp_order.exec_ok [OF assms(1) avl_tree_Init, of val ops s] cmp_order.Verify_ok [OF assms(1)] assms(2)
  by fastforce

definition example_tree :: BAVL where
  "example_tree = \<lparr>av_parent = (\<lambda>_. 0), av_link = (\<lambda>_ _. 0), av_balance = (\<lambda>_. 0), av_root = 0\<rparr>"

theorem BAVL_refines_set_witness:
  "\<exists>s' ns. avl_exec B_COMPARE (\<lambda>n. n) (BAVL_Init example_tree)
       [Ins 1, Ins 2, Ins 3, Ins 4, Ins 5, Ins 6, Rem 4] = Some s' \<and>
     avl_tree B_COMPARE (\<lambda>n. n) s' ns \<and> set ns = {1, 2, 3, 5, 6} \<and> BAVL_Verify B_COMPARE (\<lambda>n. n) s'"
proof -
  let ?ops = "[Ins 1, Ins 2, Ins 3, Ins 4, Ins 5, Ins 6, Rem 4]"
  have "spec_ok B_COMPARE (\<lambda>n. n) {} ?ops" "spec_exec B_COMPARE (\<lambda>n. n) {} ?ops = {1, 2, 3, 5, 6}"
    by (auto simp: B_COMPARE_def)
  then show ?thesis
    using BAVL_refines_set [OF bcompare.cmp_order_axioms, of "\<lambda>n. n" ?ops example_tree] by simp
qed

text \<open>
  \<^bold>\<open>C28\<close>. \<open>BAVL_LookupExact\<close> returns the node whose key compares equal to the one looked for
  and \<open>NULL\<close> when there is none; \<open>BAVL_Lookup\<close> returns the same node if there is one, and
  otherwise a node next to the place of the key in the order.
\<close>

theorem BAVL_lookup_correct:
  assumes "cmp_order cmp" "avl_tree cmp val s ns"
  shows "(\<exists>a. BAVL_LookupExact cmp val s k = Some a \<and>
      ((\<exists>x\<in>set ns. cmp k (val x) = 0) \<longrightarrow> a \<in> set ns \<and> cmp k (val a) = 0) \<and>
      (\<not> (\<exists>x\<in>set ns. cmp k (val x) = 0) \<longrightarrow> a = 0)) \<and>
    (\<exists>a. BAVL_Lookup cmp val s k = Some a \<and> (ns = [] \<longrightarrow> a = 0) \<and>
      ((\<exists>x\<in>set ns. cmp k (val x) = 0) \<longrightarrow> a \<in> set ns \<and> cmp k (val a) = 0) \<and>
      (ns \<noteq> [] \<and> \<not> (\<exists>x\<in>set ns. cmp k (val x) = 0) \<longrightarrow>
        (\<exists>xs ys. ns = xs @ ys \<and> (\<forall>x\<in>set xs. cmp (val x) k = -1) \<and> (\<forall>x\<in>set ys. cmp k (val x) = -1) \<and>
           (xs \<noteq> [] \<and> a = last xs \<or> ys \<noteq> [] \<and> a = hd ys))))"
  using cmp_order.LookupExact_ok [OF assms] cmp_order.Lookup_ok [OF assms] by (rule conjI)

lemma example_avl_tree:
  "avl_tree B_COMPARE (\<lambda>n. n) \<lparr>av_parent = (\<lambda>n. if n = 2 then 0 else 2), av_link = (\<lambda>n d. if n = 2 then if d then 3 else 1 else 0),
     av_balance = (\<lambda>_. 0), av_root = 2\<rparr> [1, 2, 3]"
  unfolding avl_tree_def
  by (rule exI [of _ "ANode (ANode ALeaf 1 0 ALeaf) 2 0 (ANode ALeaf 3 0 ALeaf)"])
    (simp add: represents_def key_less_def B_COMPARE_def)

theorem BAVL_lookup_correct_witness:
  "\<exists>s. avl_tree B_COMPARE (\<lambda>n. n) s [1, 2, 3] \<and> BAVL_LookupExact B_COMPARE (\<lambda>n. n) s 3 = Some 3"
proof -
  obtain s where s: "avl_tree B_COMPARE (\<lambda>n. n) s [1, 2, 3]"
    using example_avl_tree by blast
  then have "BAVL_LookupExact B_COMPARE (\<lambda>n. n) s 3 = Some 3"
    using BAVL_lookup_correct [OF bcompare.cmp_order_axioms s, of 3] by (auto simp: B_COMPARE_simps)
  then show ?thesis
    using s by blast
qed

text \<open>
  \<^bold>\<open>C29\<close>. The traversal visits the nodes in ascending order: \<open>BAVL_GetFirst\<close> and \<open>BAVL_GetLast\<close>
  return the two ends, \<open>BAVL_GetNext\<close> and \<open>BAVL_GetPrev\<close> the neighbours of a node, and \<open>NULL\<close>
  beyond the ends.
\<close>

theorem BAVL_traversal:
  assumes "avl_tree cmp val s (xs @ n # ys)"
  shows "BAVL_GetNext s n = Some (if ys = [] then 0 else hd ys) \<and>
    BAVL_GetPrev s n = Some (if xs = [] then 0 else last xs) \<and>
    BAVL_GetFirst s = Some (hd (xs @ [n])) \<and> BAVL_GetLast s = Some (last (n # ys))"
  using traverse_ok [OF assms] ends_ok [OF assms] by (cases xs) auto

theorem BAVL_traversal_witness:
  "\<exists>s. avl_tree B_COMPARE (\<lambda>n. n) s [1, 2, 3] \<and> BAVL_GetNext s 1 = Some 2 \<and> BAVL_GetFirst s = Some 1"
  using example_avl_tree BAVL_traversal [of B_COMPARE "\<lambda>n. n" _ "[]" 1 "[2, 3]"] by fastforce

text \<open>
  The tree is shallow: a search path, whose length is at most the height \<open>h\<close> of the
  tree, satisfies \<open>2 ^ (h div 2) \<le> n + 1\<close> for \<open>n\<close> nodes, so searching and rebalancing take
  a number of steps logarithmic in the number of nodes.
\<close>

lemma BAVL_height_bound:
  assumes "avl_tree cmp val s ns"
  shows "\<exists>t. represents s t \<and> addrs t = ns \<and> 2 ^ (nat (hgt t) div 2) \<le> length ns + 1"
proof -
  obtain t where t: "represents s t" "avl_ok t" "addrs t = ns"
    using avl_treeE [OF assms] by metis
  then have "2 ^ (nat (hgt t) div 2) \<le> length ns + 1"
    using avl_size [OF t(2), of "nat (hgt t)"] hgt_nonneg [of t] by simp
  then show ?thesis
    using t by blast
qed

end
