(* ===== verification/TreeIndex.thy ===== *)
theory TreeIndex
  imports AvlTreeCorrect
begin

text \<open>
  The AVL tree as its users see it: an index of a set of nodes by their keys. The laws are
  proved once for every comparator that satisfies \<open>cmp_order\<close>; the tables of connections
  interpret them with their own comparators.
\<close>

definition indexes :: "('k \<Rightarrow> 'k \<Rightarrow> int) \<Rightarrow> (addr \<Rightarrow> 'k) \<Rightarrow> BAVL \<Rightarrow> addr set \<Rightarrow> bool" where
  "indexes cmp val s A \<longleftrightarrow> (\<exists>ns. avl_tree cmp val s ns \<and> set ns = A)"

lemma index_Init: "indexes cmp val (BAVL_Init s) {}"
  using avl_tree_Init by (fastforce simp: indexes_def)

lemma tree_nodes_not_null: "rep s p t \<Longrightarrow> a \<in> set (addrs t) \<Longrightarrow> a \<noteq> NULL"
  by (induction s p t rule: rep.induct) auto

lemma index_nodes: "indexes cmp val s A \<Longrightarrow> finite A \<and> NULL \<notin> A"
  using tree_nodes_not_null by (fastforce simp: indexes_def avl_tree_def represents_def)

lemma index_empty: "indexes cmp val s {} \<Longrightarrow> BAVL_IsEmpty s"
  unfolding indexes_def avl_tree_def represents_def BAVL_IsEmpty_def
  by (elim exE conjE, rename_tac ns t, case_tac t) auto

text \<open>The index does not depend on the keys of other nodes.\<close>

lemma index_cong:
  assumes "\<forall>a\<in>A. val' a = val a"
  shows "indexes cmp val' s A = indexes cmp val s A"
proof -
  have "sorted_wrt (key_less cmp val') ns = sorted_wrt (key_less cmp val) ns" if "set ns = A" for ns
    using assms that by (intro iffI; elim sorted_wrt_mono_rel [rotated]) (auto simp: key_less_def)
  then show ?thesis
    by (auto simp: indexes_def avl_tree_def)
qed

text \<open>A comparator that looks at a part of the keys orders the nodes by that part.\<close>

lemma index_pullback: "indexes (\<lambda>a b. c (f a) (f b)) val s A = indexes c (\<lambda>a. f (val a)) s A"
proof -
  have "key_less (\<lambda>a b. c (f a) (f b)) val = key_less c (\<lambda>a. f (val a))"
    by (simp add: fun_eq_iff key_less_def)
  then show ?thesis
    by (simp add: indexes_def avl_tree_def)
qed

context cmp_order
begin

lemma index_lookup:
  assumes "indexes cmp val s A"
  obtains "BAVL_LookupExact cmp val s k = Some NULL" "\<forall>a\<in>A. cmp k (val a) \<noteq> 0"
  | a where "BAVL_LookupExact cmp val s k = Some a" "a \<in> A" "a \<noteq> NULL" "cmp k (val a) = 0"
proof -
  obtain ns where ns: "avl_tree cmp val s ns" "set ns = A"
    using assms by (auto simp: indexes_def)
  show ?thesis
    using LookupExact_ok [OF ns(1), of k] index_nodes [OF assms] that by (cases "\<exists>x\<in>set ns. cmp k (val x) = 0") (auto simp: ns(2))
qed

lemma index_insert:
  assumes "indexes cmp val s A" "n \<notin> A" "n \<noteq> NULL" "\<forall>a\<in>A. cmp (val n) (val a) \<noteq> 0"
  shows "\<exists>s' ref. BAVL_Insert cmp val s n = Some (s', True, ref) \<and> indexes cmp val s' (insert n A)"
proof -
  obtain ns where ns: "avl_tree cmp val s ns" "set ns = A"
    using assms by (auto simp: indexes_def)
  have "n \<notin> set ns"
    using assms(2) ns(2) by simp
  from Insert_ok [OF ns(1) this assms(3)] assms(4) ns(2)
  obtain s' xs ys ref where r: "ns = xs @ ys" "BAVL_Insert cmp val s n = Some (s', True, ref)" "avl_tree cmp val s' (xs @ n # ys)"
    by auto
  moreover have "set (xs @ n # ys) = insert n A"
    using r(1) ns(2) by auto
  ultimately show ?thesis
    unfolding indexes_def by blast
qed

lemma index_remove:
  assumes "indexes cmp val s A" "n \<in> A"
  shows "\<exists>s'. BAVL_Remove s n = Some s' \<and> indexes cmp val s' (A - {n})"
proof -
  obtain ns where ns: "avl_tree cmp val s ns" "set ns = A"
    using assms by (auto simp: indexes_def)
  then have "distinct ns"
    by (auto simp: avl_tree_def represents_def)
  then have "set (remove1 n ns) = A - {n}"
    using ns(2) by simp
  then show ?thesis
    using Remove_ok [OF ns(1), of n] assms(2) ns(2) by (auto simp: indexes_def)
qed

lemma index_inj:
  assumes "indexes cmp val s A" "a \<in> A" "b \<in> A" "cmp (val a) (val b) = 0"
  shows "a = b"
proof (rule ccontr)
  assume "a \<noteq> b"
  obtain ns where ns: "sorted_wrt (key_less cmp val) ns" "set ns = A"
    using assms(1) by (auto simp: indexes_def avl_tree_def)
  then have "key_less cmp val a b \<or> key_less cmp val b a"
    using assms(2,3) \<open>a \<noteq> b\<close> by (induction ns arbitrary: A) auto
  then show False
    using assms(4) cmp_eq_sym by (auto simp: key_less_def)
qed

end

end
