(* ===== verification/FairQueue.thy ===== *)
theory FairQueue
  imports Bytes
begin

text \<open>
  The fair queue that shares one packet output among several flows:
  \<^verbatim>\<open>flow/PacketPassFairQueue.c\<close>. A flow is known by its address. The tree of queued flows,
  a search tree ordered by \<open>compare_flows\<close>, is the list of its nodes in order; the times by
  which they are ordered are the 64 bit counters of the flows, with their wrap-around.

  An assertion of the source that does not hold sets \<open>fq_fault\<close>. The ghost fields \<open>fq_in\<close>,
  \<open>fq_out\<close> and \<open>fq_work\<close> record, for each flow, the packets it handed over, those passed to
  the output, and the weight of those completed. The lemmas show that no assertion fails,
  that no packet is lost or reordered, that the queue never idles while a flow is queued,
  that the times never overflow, and that flows which stay active share the output fairly.
\<close>

subsection \<open>State\<close>

record fq_flow =
  fl_time :: u64
  fl_queued :: bool
  fl_data :: "byte list"
  fl_busy :: bool

record fair_queue =
  fq_packet_weight :: int
  fq_mtu :: int
  fq_sending :: "nat option"
  fq_sending_len :: int
  fq_previous :: "nat option"
  fq_tree :: "nat list"
  fq_flows :: "nat list"
  fq_flow :: "nat \<Rightarrow> fq_flow"
  fq_freeing :: bool
  fq_job :: bool
  fq_fault :: bool
  fq_in :: "nat \<Rightarrow> byte list list"
  fq_out :: "nat \<Rightarrow> byte list list"
  fq_work :: "nat \<Rightarrow> int"

abbreviation (input) "FAIRQUEUE_MAX_TIME \<equiv> (- 1 :: u64)"

definition fq_assert :: "bool \<Rightarrow> fair_queue \<Rightarrow> fair_queue" where
  "fq_assert c m = m\<lparr>fq_fault := fq_fault m \<or> \<not> c\<rparr>"

definition upd_flow :: "nat \<Rightarrow> (fq_flow \<Rightarrow> fq_flow) \<Rightarrow> fair_queue \<Rightarrow> fair_queue" where
  "upd_flow f u m = m\<lparr>fq_flow := (fq_flow m)(f := u (fq_flow m f))\<rparr>"

abbreviation (input) time_of :: "fair_queue \<Rightarrow> nat \<Rightarrow> u64" where
  "time_of m f \<equiv> fl_time (fq_flow m f)"

subsection \<open>The tree of queued flows\<close>

definition compare_flows :: "fair_queue \<Rightarrow> nat \<Rightarrow> nat \<Rightarrow> int" where
  "compare_flows m f1 f2 =
     (let cmp = B_COMPARE (time_of m f1) (time_of m f2) in if cmp \<noteq> 0 then cmp else B_COMPARE f1 f2)"

text \<open>The second component tells whether there was no equal node; otherwise nothing is inserted.\<close>

fun tree_insert :: "(nat \<Rightarrow> nat \<Rightarrow> int) \<Rightarrow> nat \<Rightarrow> nat list \<Rightarrow> nat list \<times> bool" where
  "tree_insert cmp f [] = ([f], True)"
| "tree_insert cmp f (g # gs) =
     (if cmp f g = 0 then (g # gs, False)
      else if cmp f g < 0 then (f # g # gs, True)
      else let (gs', ok) = tree_insert cmp f gs in (g # gs', ok))"

definition tree_first :: "fair_queue \<Rightarrow> nat option" where
  "tree_first m = (case fq_tree m of [] \<Rightarrow> None | f # _ \<Rightarrow> Some f)"

subsection \<open>Times\<close>

definition get_current_time :: "fair_queue \<Rightarrow> u64" where
  "get_current_time m =
     (case fq_sending m of
        Some f \<Rightarrow> time_of m f
      | None \<Rightarrow>
          let (have, time) = (case tree_first m of Some f \<Rightarrow> (True, time_of m f) | None \<Rightarrow> (False, 0));
              (have, time) =
                (case fq_previous m of
                   Some p \<Rightarrow> if \<not> have \<or> time_of m p < time then (True, time_of m p) else (have, time)
                 | None \<Rightarrow> (have, time))
          in if have then time else 0)"

text \<open>The body of the loop that subtracts time from all flows.\<close>

definition subtract_time :: "nat \<Rightarrow> u64 \<Rightarrow> nat \<Rightarrow> fair_queue \<Rightarrow> fair_queue" where
  "subtract_time flow subtract someflow m =
     (if subtract > time_of m someflow \<and> someflow \<noteq> flow then
        upd_flow someflow (fl_time_update (\<lambda>_. 0)) (fq_assert (\<not> fl_queued (fq_flow m someflow)) m)
      else upd_flow someflow (fl_time_update (\<lambda>t. t - subtract)) m)"

definition increment_sent_flow :: "nat \<Rightarrow> u64 \<Rightarrow> fair_queue \<Rightarrow> fair_queue" where
  "increment_sent_flow flow amount m =
     (let m = fq_assert (amount \<le> FAIRQUEUE_MAX_TIME) m;
          m = fq_assert (\<not> fl_queued (fq_flow m flow) \<and> fq_sending m = None) m;
          m = (if amount > FAIRQUEUE_MAX_TIME - time_of m flow then
                 let subtract = (case tree_first m of None \<Rightarrow> time_of m flow | Some f \<Rightarrow> time_of m f)
                 in fold (subtract_time flow subtract) (fq_flows m) m
               else m)
      in upd_flow flow (fl_time_update (\<lambda>t. t + amount)) m)"

subsection \<open>Scheduling\<close>

text \<open>The packet is passed to the output by \<open>PacketPassInterface_Sender_Send\<close>.\<close>

definition schedule :: "fair_queue \<Rightarrow> fair_queue" where
  "schedule m =
     (let m = fq_assert (fq_sending m = None \<and> fq_previous m = None \<and> \<not> fq_freeing m \<and> fq_tree m \<noteq> []) m in
      case fq_tree m of
        [] \<Rightarrow> m
      | qflow # rest \<Rightarrow>
          let m = fq_assert (fl_queued (fq_flow m qflow)) m;
              m = upd_flow qflow (fl_queued_update (\<lambda>_. False)) (m\<lparr>fq_tree := rest\<rparr>);
              data = fl_data (fq_flow m qflow)
          in m\<lparr>fq_out := (fq_out m)(qflow := fq_out m qflow @ [data]), fq_sending := Some qflow,
               fq_sending_len := int (length data)\<rparr>)"

definition schedule_job_handler :: "fair_queue \<Rightarrow> fair_queue" where
  "schedule_job_handler m =
     (let m = fq_assert (fq_sending m = None \<and> \<not> fq_freeing m) m;
          m = m\<lparr>fq_previous := None\<rparr>
      in if fq_tree m \<noteq> [] then schedule m else m)"

definition fq_input_handler_send :: "nat \<Rightarrow> byte list \<Rightarrow> fair_queue \<Rightarrow> fair_queue" where
  "fq_input_handler_send flow data m =
     (let m = fq_assert (fq_sending m \<noteq> Some flow \<and> \<not> fl_queued (fq_flow m flow) \<and> \<not> fq_freeing m) m;
          m = (if fq_previous m = Some flow then m\<lparr>fq_previous := None\<rparr>
               else let now = get_current_time m in upd_flow flow (fl_time_update (\<lambda>t. max t now)) m);
          m = upd_flow flow (fl_data_update (\<lambda>_. data)) m;
          (tree, res) = tree_insert (compare_flows m) flow (fq_tree m);
          m = (fq_assert res m)\<lparr>fq_tree := tree\<rparr>;
          m = upd_flow flow (fl_queued_update (\<lambda>_. True)) m
      in if fq_sending m = None \<and> \<not> fq_job m then schedule m else m)"

text \<open>The second component tells whether the one-shot handler of the flow is called.\<close>

definition fq_output_handler_done :: "fair_queue \<Rightarrow> fair_queue \<times> bool" where
  "fq_output_handler_done m =
     (case fq_sending m of
        None \<Rightarrow> (fq_assert False m, False)
      | Some flow \<Rightarrow>
          let m = fq_assert (fq_previous m = None \<and> \<not> fq_job m \<and> \<not> fq_freeing m \<and> \<not> fl_queued (fq_flow m flow)) m;
              m = m\<lparr>fq_sending := None, fq_previous := Some flow\<rparr>;
              amount = of_int (fq_packet_weight m) + of_int (fq_sending_len m);
              m = increment_sent_flow flow amount m;
              m = m\<lparr>fq_job := True\<rparr>;
              busy = fl_busy (fq_flow m flow)
          in (upd_flow flow (fl_busy_update (\<lambda>_. False)) m, busy))"

subsection \<open>Interface\<close>

definition PacketPassFairQueue_Init :: "int \<Rightarrow> int \<Rightarrow> fair_queue option" where
  "PacketPassFairQueue_Init mtu packet_weight =
     (if \<not> ((of_int mtu :: u64) \<le> FAIRQUEUE_MAX_TIME \<and>
            (of_int packet_weight :: u64) \<le> FAIRQUEUE_MAX_TIME - of_int mtu) then None
      else Some \<lparr>fq_packet_weight = packet_weight, fq_mtu = mtu, fq_sending = None, fq_sending_len = 0,
                 fq_previous = None, fq_tree = [], fq_flows = [],
                 fq_flow = (\<lambda>_. \<lparr>fl_time = 0, fl_queued = False, fl_data = [], fl_busy = False\<rparr>),
                 fq_freeing = False, fq_job = False, fq_fault = False,
                 fq_in = (\<lambda>_. []), fq_out = (\<lambda>_. []), fq_work = (\<lambda>_. 0)\<rparr>)"

definition PacketPassFairQueue_Free :: "fair_queue \<Rightarrow> fair_queue" where
  "PacketPassFairQueue_Free m =
     (fq_assert (fq_flows m = [] \<and> fq_tree m = [] \<and> fq_previous m = None \<and> fq_sending m = None) m)\<lparr>fq_job := False\<rparr>"

definition PacketPassFairQueue_PrepareFree :: "fair_queue \<Rightarrow> fair_queue" where
  "PacketPassFairQueue_PrepareFree m = m\<lparr>fq_freeing := True\<rparr>"

definition PacketPassFairQueue_GetMTU :: "fair_queue \<Rightarrow> int" where
  "PacketPassFairQueue_GetMTU m = fq_mtu m"

text \<open>The ghost fields of the flow start anew with it.\<close>

definition PacketPassFairQueueFlow_Init :: "nat \<Rightarrow> fair_queue \<Rightarrow> fair_queue" where
  "PacketPassFairQueueFlow_Init flow m =
     (let m = fq_assert (\<not> fq_freeing m) m;
          m = upd_flow flow (\<lambda>fl. fl\<lparr>fl_busy := False, fl_time := 0, fl_queued := False\<rparr>) m
      in m\<lparr>fq_flows := fq_flows m @ [flow], fq_in := (fq_in m)(flow := []), fq_out := (fq_out m)(flow := []),
           fq_work := (fq_work m)(flow := 0)\<rparr>)"

definition PacketPassFairQueueFlow_Free :: "nat \<Rightarrow> fair_queue \<Rightarrow> fair_queue" where
  "PacketPassFairQueueFlow_Free flow m =
     (let m = fq_assert (fq_freeing m \<or> fq_sending m \<noteq> Some flow) m;
          m = (if fq_sending m = Some flow then m\<lparr>fq_sending := None\<rparr> else m);
          m = (if fq_previous m = Some flow then m\<lparr>fq_previous := None\<rparr> else m);
          m = (if fl_queued (fq_flow m flow) then m\<lparr>fq_tree := remove1 flow (fq_tree m)\<rparr> else m)
      in m\<lparr>fq_flows := remove1 flow (fq_flows m)\<rparr>)"

definition PacketPassFairQueueFlow_IsBusy :: "nat \<Rightarrow> fair_queue \<Rightarrow> bool" where
  "PacketPassFairQueueFlow_IsBusy flow m = (fq_sending m = Some flow)"

definition PacketPassFairQueueFlow_SetBusyHandler :: "nat \<Rightarrow> fair_queue \<Rightarrow> fair_queue" where
  "PacketPassFairQueueFlow_SetBusyHandler flow m =
     upd_flow flow (fl_busy_update (\<lambda>_. True)) (fq_assert (fq_sending m = Some flow \<and> \<not> fq_freeing m) m)"

subsection \<open>Events\<close>

text \<open>
  What can happen to the queue: a flow whose input is idle hands over a packet, the output
  completes the packet, the scheduled job runs, flows come and go, and the end. The ghost
  fields are updated with the event.
\<close>

datatype fq_event =
    FqSend nat "byte list"
  | FqDone
  | FqJob
  | FqFlowInit nat
  | FqFlowFree nat
  | FqSetBusy nat
  | FqPrepareFree

fun fq_step :: "fair_queue \<Rightarrow> fq_event \<Rightarrow> fair_queue option" where
  "fq_step m (FqSend f d) =
     (if f \<in> set (fq_flows m) \<and> fq_sending m \<noteq> Some f \<and> \<not> fl_queued (fq_flow m f) \<and> \<not> fq_freeing m \<and> int (length d) \<le> fq_mtu m
      then Some (fq_input_handler_send f d (m\<lparr>fq_in := (fq_in m)(f := fq_in m f @ [d])\<rparr>)) else None)"
| "fq_step m FqDone =
     (case fq_sending m of
        Some f \<Rightarrow>
          if \<not> fq_freeing m
          then Some (fst (fq_output_handler_done
                 (m\<lparr>fq_work := (fq_work m)(f := fq_work m f + fq_packet_weight m + fq_sending_len m)\<rparr>)))
          else None
      | None \<Rightarrow> None)"
| "fq_step m FqJob = (if fq_job m \<and> \<not> fq_freeing m then Some (schedule_job_handler (m\<lparr>fq_job := False\<rparr>)) else None)"
| "fq_step m (FqFlowInit f) =
     (if f \<notin> set (fq_flows m) \<and> \<not> fq_freeing m then Some (PacketPassFairQueueFlow_Init f m) else None)"
| "fq_step m (FqFlowFree f) =
     (if f \<in> set (fq_flows m) \<and> (fq_freeing m \<or> fq_sending m \<noteq> Some f) then Some (PacketPassFairQueueFlow_Free f m) else None)"
| "fq_step m (FqSetBusy f) =
     (if fq_sending m = Some f \<and> \<not> fq_freeing m then Some (PacketPassFairQueueFlow_SetBusyHandler f m) else None)"
| "fq_step m FqPrepareFree = (if \<not> fq_freeing m then Some (PacketPassFairQueue_PrepareFree m) else None)"

fun fq_run :: "fair_queue \<Rightarrow> fq_event list \<Rightarrow> fair_queue option" where
  "fq_run m [] = Some m"
| "fq_run m (e # es) = (case fq_step m e of None \<Rightarrow> None | Some m' \<Rightarrow> fq_run m' es)"

subsection \<open>Invariant\<close>

text \<open>Times as numbers; \<open>fq_before\<close> is the order of the tree.\<close>

definition ftime :: "fair_queue \<Rightarrow> nat \<Rightarrow> int" where
  "ftime m f = uint (time_of m f)"

definition fq_before :: "fair_queue \<Rightarrow> nat \<Rightarrow> nat \<Rightarrow> bool" where
  "fq_before m f g \<longleftrightarrow> ftime m f < ftime m g \<or> ftime m f = ftime m g \<and> f < g"

text \<open>The invariant in four parts: what is linked, what is under way, the order, and the packets.\<close>

definition fq_links :: "fair_queue \<Rightarrow> bool" where
  "fq_links m \<longleftrightarrow> distinct (fq_flows m) \<and> distinct (fq_tree m) \<and>
     set (fq_tree m) = {f \<in> set (fq_flows m). fl_queued (fq_flow m f)} \<and>
     (\<forall>f. fq_sending m = Some f \<or> fq_previous m = Some f \<longrightarrow> f \<in> set (fq_flows m) \<and> \<not> fl_queued (fq_flow m f))"

definition fq_busy :: "fair_queue \<Rightarrow> bool" where
  "fq_busy m \<longleftrightarrow> (fq_sending m \<noteq> None \<longrightarrow> fq_previous m = None \<and> \<not> fq_job m) \<and>
     (fq_sending m = None \<and> \<not> fq_job m \<and> \<not> fq_freeing m \<longrightarrow> fq_tree m = [] \<and> fq_previous m = None)"

definition fq_ordered :: "fair_queue \<Rightarrow> bool" where
  "fq_ordered m \<longleftrightarrow> sorted_wrt (fq_before m) (fq_tree m) \<and>
     (\<forall>f. fq_sending m = Some f \<longrightarrow> (\<forall>g\<in>set (fq_tree m). ftime m f \<le> ftime m g))"

definition fq_packets :: "fair_queue \<Rightarrow> bool" where
  "fq_packets m \<longleftrightarrow> 0 < fq_packet_weight m \<and> 0 \<le> fq_mtu m \<and> fq_packet_weight m + fq_mtu m < 2 ^ 64 \<and>
     (\<forall>f. fq_sending m = Some f \<longrightarrow> 0 \<le> fq_sending_len m \<and> fq_sending_len m \<le> fq_mtu m) \<and>
     (\<forall>f\<in>set (fq_flows m). fq_in m f = fq_out m f @ (if fl_queued (fq_flow m f) then [fl_data (fq_flow m f)] else []) \<and>
        (fl_queued (fq_flow m f) \<longrightarrow> int (length (fl_data (fq_flow m f))) \<le> fq_mtu m))"

definition fq_inv :: "fair_queue \<Rightarrow> bool" where
  "fq_inv m \<longleftrightarrow> \<not> fq_fault m \<and> fq_links m \<and> fq_busy m \<and> fq_ordered m \<and> fq_packets m"

lemmas fq_inv_defs = fq_links_def fq_busy_def fq_ordered_def fq_packets_def

lemma fq_assert_True [simp]: "fq_assert True m = m"
  by (simp add: fq_assert_def)

lemma compare_flows_iff:
  "compare_flows m f g < 0 \<longleftrightarrow> fq_before m f g" "compare_flows m f g = 0 \<longleftrightarrow> f = g" "f \<noteq> g \<Longrightarrow> \<not> fq_before m f g \<Longrightarrow> fq_before m g f"
  by (auto simp: compare_flows_def fq_before_def ftime_def B_COMPARE_def Let_def word_less_def word_uint_eq_iff)

lemma fq_before_trans: "fq_before m f g \<Longrightarrow> fq_before m g h \<Longrightarrow> fq_before m f h"
  by (auto simp: fq_before_def)

lemma tree_insert_sorted:
  assumes "tree_insert (compare_flows m) f fs = (fs', ok)" "sorted_wrt (fq_before m) fs" "f \<notin> set fs"
  shows "ok \<and> set fs' = insert f (set fs) \<and> sorted_wrt (fq_before m) fs' \<and> (distinct fs \<longrightarrow> distinct fs')"
  using assms
proof (induction fs arbitrary: fs' ok)
  case (Cons g gs)
  have ne: "compare_flows m f g \<noteq> 0"
    using Cons.prems(3) by (simp add: compare_flows_iff)
  show ?case
  proof (cases "fq_before m f g")
    case True
    then have "fs' = f # g # gs" "ok"
      using Cons.prems(1) ne by (simp_all add: compare_flows_iff)
    then show ?thesis
      using True Cons.prems fq_before_trans by auto
  next
    case False
    then obtain gs' where gs': "tree_insert (compare_flows m) f gs = (gs', ok)" "fs' = g # gs'"
      using Cons.prems(1) ne by (auto simp: compare_flows_iff split: prod.splits)
    moreover have "fq_before m g f"
      using False Cons.prems(3) compare_flows_iff(3) by auto
    ultimately show ?thesis
      using Cons.IH [OF gs'(1)] Cons.prems by auto
  qed
qed auto

lemma ftime_upd_flow [simp]:
  "ftime (upd_flow f u m) g = (if g = f then uint (fl_time (u (fq_flow m f))) else ftime m g)"
  by (simp add: ftime_def upd_flow_def)

lemma ftime_nonneg [simp]: "0 \<le> ftime m f" "ftime m f < 2 ^ 64"
  using unsigned_less [of "time_of m f"] by (simp_all add: ftime_def)

text \<open>Fields that do not take part in the order.\<close>

lemma ftime_cong: "fq_flow m' = fq_flow m \<Longrightarrow> ftime m' = ftime m"
  by (simp add: ftime_def fun_eq_iff)

lemma fq_before_cong: "ftime m' = ftime m \<Longrightarrow> fq_before m' = fq_before m"
  by (simp add: fq_before_def fun_eq_iff)

subsection \<open>Times do not overflow\<close>

lemma fold_subtract_other:
  "fq_sending (fold (subtract_time flow c) fs m) = fq_sending m" "fq_previous (fold (subtract_time flow c) fs m) = fq_previous m"
  "fq_tree (fold (subtract_time flow c) fs m) = fq_tree m" "fq_flows (fold (subtract_time flow c) fs m) = fq_flows m"
  "fq_freeing (fold (subtract_time flow c) fs m) = fq_freeing m" "fq_job (fold (subtract_time flow c) fs m) = fq_job m"
  "fq_packet_weight (fold (subtract_time flow c) fs m) = fq_packet_weight m" "fq_mtu (fold (subtract_time flow c) fs m) = fq_mtu m"
  "fq_sending_len (fold (subtract_time flow c) fs m) = fq_sending_len m" "fq_in (fold (subtract_time flow c) fs m) = fq_in m"
  "fq_out (fold (subtract_time flow c) fs m) = fq_out m" "fq_work (fold (subtract_time flow c) fs m) = fq_work m"
  "fl_queued (fq_flow (fold (subtract_time flow c) fs m) f) = fl_queued (fq_flow m f)"
  "fl_data (fq_flow (fold (subtract_time flow c) fs m) f) = fl_data (fq_flow m f)"
  "fl_busy (fq_flow (fold (subtract_time flow c) fs m) f) = fl_busy (fq_flow m f)"
  by (induction fs arbitrary: m) (simp_all add: subtract_time_def upd_flow_def fq_assert_def)

lemma fold_subtract_time:
  assumes "distinct fs"
  shows "time_of (fold (subtract_time flow c) fs m) f =
    (if f \<in> set fs then if c > time_of m f \<and> f \<noteq> flow then 0 else time_of m f - c else time_of m f)"
  using assms
  by (induction fs arbitrary: m) (auto simp: subtract_time_def upd_flow_def fq_assert_def)

lemma fold_subtract_fault:
  assumes "distinct fs"
  shows "fq_fault (fold (subtract_time flow c) fs m) \<longleftrightarrow>
    fq_fault m \<or> (\<exists>f\<in>set fs. c > time_of m f \<and> f \<noteq> flow \<and> fl_queued (fq_flow m f))"
  using assms
  by (induction fs arbitrary: m) (auto simp: subtract_time_def upd_flow_def fq_assert_def)

text \<open>
  The effect of \<open>increment_sent_flow\<close>: the same amount \<open>c\<close> is taken from the times of the flow
  and of all queued flows, and then the weight is added, without any wrap-around.
\<close>

definition lift_time :: "fair_queue \<Rightarrow> nat \<Rightarrow> u64 \<Rightarrow> u64" where
  "lift_time m flow amount =
     (if amount > FAIRQUEUE_MAX_TIME - time_of m flow
      then case tree_first m of None \<Rightarrow> time_of m flow | Some f \<Rightarrow> time_of m f else 0)"

lemma increment_time_of:
  assumes "distinct (fq_flows m)" "flow \<in> set (fq_flows m)"
  shows "time_of (increment_sent_flow flow amount m) f =
    (if f = flow then time_of m f - lift_time m flow amount + amount
     else if f \<in> set (fq_flows m) \<and> lift_time m flow amount > time_of m f then 0
     else if f \<in> set (fq_flows m) then time_of m f - lift_time m flow amount
     else time_of m f)"
proof -
  have "tree_first (m\<lparr>fq_fault := x\<rparr>) = tree_first m" for x
    by (simp add: tree_first_def)
  then show ?thesis
    using assms by (cases "tree_first m") (auto simp: increment_sent_flow_def lift_time_def Let_def fold_subtract_time
        fold_subtract_other upd_flow_def fq_assert_def)
qed

lemma lift_time_bounds:
  assumes min: "\<forall>g\<in>set (fq_tree m). ftime m flow \<le> ftime m g" "sorted_wrt (fq_before m) (fq_tree m)"
    and a: "0 \<le> a" "a < 2 ^ 64" and c: "c = uint (lift_time m flow (of_int a))"
  shows "0 \<le> ftime m flow + a - c \<and> ftime m flow + a - c < 2 ^ 64 \<and> (\<forall>g\<in>set (fq_tree m). c \<le> ftime m g)"
proof -
  have ua: "uint (of_int a :: u64) = a"
    using a by (simp add: uint_word_of_int)
  have m: "uint (- 1 - time_of m flow) = 2 ^ 64 - 1 - ftime m flow"
  proof -
    have "uint (- 1 - time_of m flow) = uint (- 1 :: u64) - uint (time_of m flow)"
      by (rule uint_minus_simple_alt [THEN iffD1]) (rule word_order.extremum)
    then show ?thesis
      by (simp add: ftime_def unsigned_minus_1_eq_mask mask_eq_exp_minus_1)
  qed
  have over: "(of_int a :: u64) > - 1 - time_of m flow \<longleftrightarrow> a > 2 ^ 64 - 1 - ftime m flow"
    by (simp only: word_less_def ua m)
  have first: "ftime m flow \<le> ftime m f \<and> (\<forall>g\<in>set (fq_tree m). ftime m f \<le> ftime m g)" if "tree_first m = Some f" for f
    using that min by (auto simp: tree_first_def fq_before_def split: list.splits)
  consider "a \<le> 2 ^ 64 - 1 - ftime m flow" "c = 0"
    | "a > 2 ^ 64 - 1 - ftime m flow" "fq_tree m = []" "c = ftime m flow"
    | f where "a > 2 ^ 64 - 1 - ftime m flow" "tree_first m = Some f" "c = ftime m f"
    using over by (cases "a > 2 ^ 64 - 1 - ftime m flow"; cases "fq_tree m") (auto simp: c lift_time_def ftime_def tree_first_def)
  then show ?thesis
  proof cases
    case (3 f)
    then show ?thesis
      using a first [OF 3(2)] ftime_nonneg(2) [of m f] by auto
  qed (use a in auto)
qed

lemma increment_times:
  assumes "distinct (fq_flows m)" "flow \<in> set (fq_flows m)" "set (fq_tree m) \<subseteq> set (fq_flows m)" "flow \<notin> set (fq_tree m)"
    and min: "\<forall>g\<in>set (fq_tree m). ftime m flow \<le> ftime m g" "sorted_wrt (fq_before m) (fq_tree m)"
    and a: "0 \<le> a" "a < 2 ^ 64" and c: "c = uint (lift_time m flow (of_int a))"
  shows "ftime (increment_sent_flow flow (of_int a) m) flow = ftime m flow + a - c"
    and "\<And>g. g \<in> set (fq_tree m) \<Longrightarrow> ftime (increment_sent_flow flow (of_int a) m) g = ftime m g - c"
    and "\<And>g. g \<in> set (fq_flows m) \<Longrightarrow> g \<noteq> flow \<Longrightarrow> ftime (increment_sent_flow flow (of_int a) m) g = max 0 (ftime m g - c)"
proof -
  note b = lift_time_bounds [OF min a c]
  have ua: "uint (of_int a :: u64) = a"
    using a by (simp add: uint_word_of_int)
  let ?l = "lift_time m flow (of_int a)"
  have "uint (time_of m flow - ?l + of_int a) = (ftime m flow + a - c) mod 2 ^ 64"
    by (simp add: uint_word_ariths mod_simps ua c ftime_def) (simp add: algebra_simps)
  then show "ftime (increment_sent_flow flow (of_int a) m) flow = ftime m flow + a - c"
    using increment_time_of [OF assms(1,2), of "of_int a" flow] b by (simp add: ftime_def)
  show all: "ftime (increment_sent_flow flow (of_int a) m) g = max 0 (ftime m g - c)" if g: "g \<in> set (fq_flows m)" "g \<noteq> flow" for g
  proof (cases "?l \<le> time_of m g")
    case True
    then have "uint (time_of m g - ?l) = uint (time_of m g) - uint ?l"
      by (simp add: uint_minus_simple_alt [THEN iffD1])
    then show ?thesis
      using increment_time_of [OF assms(1,2), of "of_int a" g] g True by (simp add: ftime_def c word_le_def word_less_def)
  next
    case False
    then show ?thesis
      using increment_time_of [OF assms(1,2), of "of_int a" g] g by (simp add: ftime_def c word_le_def word_less_def)
  qed
  show "ftime (increment_sent_flow flow (of_int a) m) g = ftime m g - c" if "g \<in> set (fq_tree m)" for g
    using all [of g] b that assms(3,4) by auto
qed

subsection \<open>The operations keep the invariant\<close>

lemma schedule_inv:
  assumes "\<not> fq_fault m" "fq_links m" "fq_ordered m" "fq_packets m" "fq_sending m = None" "fq_previous m = None"
    "\<not> fq_freeing m" "\<not> fq_job m" "fq_tree m \<noteq> []"
  shows "fq_inv (schedule m)" "\<And>f. ftime (schedule m) f = ftime m f" "fq_work (schedule m) = fq_work m"
    "fq_packet_weight (schedule m) = fq_packet_weight m" "fq_mtu (schedule m) = fq_mtu m"
    "insert (the (fq_sending (schedule m))) (set (fq_tree (schedule m))) = set (fq_tree m)"
proof -
  obtain q rest where q: "fq_tree m = q # rest"
    using assms(9) by (cases "fq_tree m") auto
  have f: "q \<in> set (fq_flows m)" "fl_queued (fq_flow m q)" "q \<notin> set rest" "distinct rest"
    "set rest = {f \<in> set (fq_flows m). fl_queued (fq_flow m f)} - {q}"
    using assms(2) q by (auto simp: fq_links_def)
  define m' where "m' = schedule m"
  have m': "m' = m\<lparr>fq_tree := rest, fq_flow := (fq_flow m)(q := (fq_flow m q)\<lparr>fl_queued := False\<rparr>),
      fq_out := (fq_out m)(q := fq_out m q @ [fl_data (fq_flow m q)]), fq_sending := Some q,
      fq_sending_len := int (length (fl_data (fq_flow m q)))\<rparr>"
    using assms q f by (simp add: m'_def schedule_def Let_def upd_flow_def)
  have t: "ftime m' g = ftime m g" for g
    by (simp add: m' ftime_def)
  have "fq_links m'"
    using assms(2,6) f by (auto simp: fq_links_def m')
  moreover have "fq_ordered m'"
  proof -
    have "fq_tree m' = rest" "fq_sending m' = Some q" "fq_before m' = fq_before m"
      using t by (simp_all add: fun_eq_iff fq_before_def) (simp_all add: m')
    moreover have "ftime m q \<le> ftime m g" if "fq_before m q g" for g
      using that by (auto simp: fq_before_def)
    ultimately show ?thesis
      using assms(3) q t by (auto simp: fq_ordered_def)
  qed
  moreover have "fq_packets m'"
    using assms(4) f by (auto simp: fq_packets_def m')
  ultimately show "fq_inv (schedule m)"
    using assms(1,6,8) by (simp add: fq_inv_def fq_busy_def m'_def [symmetric]) (simp add: m')
  show "ftime (schedule m) g = ftime m g" for g
    using t by (simp add: m'_def)
  show "fq_work (schedule m) = fq_work m" "fq_packet_weight (schedule m) = fq_packet_weight m"
    "fq_mtu (schedule m) = fq_mtu m" "insert (the (fq_sending (schedule m))) (set (fq_tree (schedule m))) = set (fq_tree m)"
    unfolding m'_def [symmetric] by (simp_all add: m' q)
qed

lemma job_inv:
  assumes "fq_inv m" "fq_job m" "\<not> fq_freeing m"
  shows "fq_inv (schedule_job_handler (m\<lparr>fq_job := False\<rparr>))"
    "\<And>f. ftime (schedule_job_handler (m\<lparr>fq_job := False\<rparr>)) f = ftime m f"
    "fq_work (schedule_job_handler (m\<lparr>fq_job := False\<rparr>)) = fq_work m"
    "fq_packet_weight (schedule_job_handler (m\<lparr>fq_job := False\<rparr>)) = fq_packet_weight m"
    "fq_mtu (schedule_job_handler (m\<lparr>fq_job := False\<rparr>)) = fq_mtu m"
proof -
  define m1 where "m1 = m\<lparr>fq_job := False, fq_previous := None\<rparr>"
  have s: "fq_sending m = None"
    using assms by (auto simp: fq_inv_def fq_busy_def)
  have h: "schedule_job_handler (m\<lparr>fq_job := False\<rparr>) = (if fq_tree m1 \<noteq> [] then schedule m1 else m1)"
    using s assms(3) by (simp add: schedule_job_handler_def m1_def Let_def)
  have t: "ftime m1 f = ftime m f" for f
    by (simp add: ftime_def m1_def)
  have k: "\<not> fq_fault m1" "fq_links m1" "fq_packets m1" "fq_sending m1 = None" "fq_previous m1 = None"
    "\<not> fq_freeing m1" "\<not> fq_job m1" "fq_work m1 = fq_work m" "fq_packet_weight m1 = fq_packet_weight m" "fq_mtu m1 = fq_mtu m"
    using assms s by (auto simp: fq_inv_def fq_links_def fq_packets_def m1_def)
  have "fq_before m1 = fq_before m" "fq_tree m1 = fq_tree m"
    using t by (auto intro: fq_before_cong simp: m1_def)
  then have o: "fq_ordered m1"
    using assms(1) k(4) by (simp add: fq_inv_def fq_ordered_def)
  have "fq_inv m1" if "fq_tree m1 = []"
    using k o that by (simp add: fq_inv_def fq_busy_def)
  then show "fq_inv (schedule_job_handler (m\<lparr>fq_job := False\<rparr>))"
    "\<And>f. ftime (schedule_job_handler (m\<lparr>fq_job := False\<rparr>)) f = ftime m f"
    "fq_work (schedule_job_handler (m\<lparr>fq_job := False\<rparr>)) = fq_work m"
    "fq_packet_weight (schedule_job_handler (m\<lparr>fq_job := False\<rparr>)) = fq_packet_weight m"
    "fq_mtu (schedule_job_handler (m\<lparr>fq_job := False\<rparr>)) = fq_mtu m"
    using schedule_inv [OF k(1,2) o k(3-7)] k t by (auto simp: h)
qed

text \<open>A flow enters the tree.\<close>

definition enqueue :: "nat \<Rightarrow> byte list \<Rightarrow> fair_queue \<Rightarrow> fair_queue" where
  "enqueue flow data m =
     (let m = upd_flow flow (fl_data_update (\<lambda>_. data)) m;
          (tree, res) = tree_insert (compare_flows m) flow (fq_tree m);
          m = (fq_assert res m)\<lparr>fq_tree := tree\<rparr>
      in upd_flow flow (fl_queued_update (\<lambda>_. True)) m)"

lemma enqueue_ok:
  assumes "\<not> fq_fault m" "fq_links m" "fq_ordered m" "fq_packets m" "flow \<in> set (fq_flows m)" "\<not> fl_queued (fq_flow m flow)"
    "fq_sending m \<noteq> Some flow" "fq_previous m \<noteq> Some flow" "int (length data) \<le> fq_mtu m"
    and "\<forall>f. fq_sending m = Some f \<longrightarrow> ftime m f \<le> ftime m flow"
  defines "m' \<equiv> enqueue flow data (m\<lparr>fq_in := (fq_in m)(flow := fq_in m flow @ [data])\<rparr>)"
  shows "\<not> fq_fault m'" "fq_links m'" "fq_ordered m'" "fq_packets m'" "fq_sending m' = fq_sending m"
    "fq_previous m' = fq_previous m" "fq_job m' = fq_job m" "fq_freeing m' = fq_freeing m" "set (fq_tree m') = insert flow (set (fq_tree m))"
    "\<And>f. ftime m' f = ftime m f" "fq_work m' = fq_work m" "fq_packet_weight m' = fq_packet_weight m" "fq_mtu m' = fq_mtu m"
proof -
  define m1 where "m1 = upd_flow flow (fl_data_update (\<lambda>_. data)) (m\<lparr>fq_in := (fq_in m)(flow := fq_in m flow @ [data])\<rparr>)"
  obtain tree res where i: "tree_insert (compare_flows m1) flow (fq_tree m1) = (tree, res)"
    by fastforce
  have m': "m' = upd_flow flow (fl_queued_update (\<lambda>_. True)) ((fq_assert res m1)\<lparr>fq_tree := tree\<rparr>)"
    using i by (simp add: m'_def enqueue_def m1_def)
  have t1: "ftime m1 = ftime m"
    by (simp add: fun_eq_iff m1_def ftime_def upd_flow_def)
  have m1: "fq_tree m1 = fq_tree m" "fq_flow m1 = (fq_flow m)(flow := (fq_flow m flow)\<lparr>fl_data := data\<rparr>)"
    by (simp_all add: m1_def upd_flow_def)
  have n: "flow \<notin> set (fq_tree m)" "distinct (fq_tree m)"
    using assms(2,6) by (auto simp: fq_links_def)
  have tree: "res" "set tree = insert flow (set (fq_tree m))" "sorted_wrt (fq_before m) tree" "distinct tree"
    using tree_insert_sorted [OF i] n assms(3) fq_before_cong [OF t1] by (auto simp: m1 fq_ordered_def)
  have fl: "fq_flow m' = (fq_flow m)(flow := (fq_flow m flow)\<lparr>fl_data := data, fl_queued := True\<rparr>)"
    "fq_tree m' = tree" "fq_fault m' = fq_fault m" "fq_flows m' = fq_flows m" "fq_in m' = (fq_in m)(flow := fq_in m flow @ [data])"
    "fq_out m' = fq_out m" "fq_sending_len m' = fq_sending_len m"
    using tree(1) by (simp_all add: m' upd_flow_def m1_def)
  show same: "fq_sending m' = fq_sending m"
    "fq_previous m' = fq_previous m" "fq_job m' = fq_job m" "fq_freeing m' = fq_freeing m" "set (fq_tree m') = insert flow (set (fq_tree m))"
    "\<And>f. ftime m' f = ftime m f" "fq_work m' = fq_work m" "fq_packet_weight m' = fq_packet_weight m" "fq_mtu m' = fq_mtu m"
    using tree by (simp_all add: fl) (simp_all add: m' m1_def upd_flow_def ftime_def fq_assert_def)
  then have b: "fq_before m' = fq_before m"
    by (intro fq_before_cong) (simp add: fun_eq_iff)
  show "\<not> fq_fault m'"
    using assms(1) by (simp add: fl)
  show "fq_links m'"
    using assms(2,5,7,8) tree by (auto simp: fq_links_def same fl)
  show "fq_ordered m'"
    using assms(3,10) tree by (auto simp: fq_ordered_def same fl(2) b)
  show "fq_packets m'"
    using assms(4,6,9) by (auto simp: fq_packets_def same fl)
qed

lemma current_time_in: "get_current_time (m\<lparr>fq_in := x\<rparr>) = get_current_time m"
  by (cases "fq_sending m"; cases "fq_previous m"; cases "fq_tree m") (simp_all add: get_current_time_def tree_first_def)

lemma ghost_in:
  "upd_flow f u (m\<lparr>fq_in := x\<rparr>) = (upd_flow f u m)\<lparr>fq_in := x\<rparr>"
  "m\<lparr>fq_in := x, fq_previous := p\<rparr> = m\<lparr>fq_previous := p, fq_in := x\<rparr>"
  by (simp_all add: upd_flow_def)

text \<open>The state of the flow when it enters the tree.\<close>

definition raised :: "nat \<Rightarrow> fair_queue \<Rightarrow> fair_queue" where
  "raised flow m =
     (if fq_previous m = Some flow then m\<lparr>fq_previous := None\<rparr>
      else let now = get_current_time m in upd_flow flow (fl_time_update (\<lambda>t. max t now)) m)"

lemma input_handler_send_eq:
  assumes "fq_sending m \<noteq> Some flow" "\<not> fl_queued (fq_flow m flow)" "\<not> fq_freeing m"
    and m1: "m1 = raised flow m" and m2: "m2 = enqueue flow data (m1\<lparr>fq_in := (fq_in m1)(flow := fq_in m1 flow @ [data])\<rparr>)"
  shows "fq_input_handler_send flow data (m\<lparr>fq_in := (fq_in m)(flow := fq_in m flow @ [data])\<rparr>) =
    (if fq_sending m2 = None \<and> \<not> fq_job m2 then schedule m2 else m2)"
proof -
  have "fq_in m1 = fq_in m"
    by (simp add: m1 raised_def upd_flow_def Let_def)
  then have "m1\<lparr>fq_in := (fq_in m1)(flow := fq_in m1 flow @ [data])\<rparr> =
      raised flow (m\<lparr>fq_in := (fq_in m)(flow := fq_in m flow @ [data])\<rparr>)"
    by (simp add: m1 raised_def ghost_in current_time_in Let_def)
  then show ?thesis
    using assms(1-3) unfolding m2 by (simp add: fq_input_handler_send_def raised_def enqueue_def Let_def split_def)
qed

lemma fl_time_set: "fl_time_update u fl = fl\<lparr>fl_time := u (fl_time fl)\<rparr>"
  by (cases fl) simp

lemma current_time_le:
  assumes "fq_ordered m" "g \<in> set (fq_tree m)"
  shows "uint (get_current_time m) \<le> ftime m g"
proof -
  obtain q where q: "tree_first m = Some q" "ftime m q \<le> ftime m g"
    using assms by (cases "fq_tree m") (auto simp: fq_ordered_def tree_first_def fq_before_def)
  show ?thesis
  proof (cases "fq_sending m")
    case None
    then show ?thesis
      using q by (cases "fq_previous m") (auto simp: get_current_time_def ftime_def word_less_def)
  next
    case (Some f)
    then show ?thesis
      using assms by (simp add: fq_ordered_def get_current_time_def ftime_def)
  qed
qed

lemma raised_ok:
  assumes "fq_inv m" "flow \<in> set (fq_flows m)" "\<not> fl_queued (fq_flow m flow)" "fq_sending m \<noteq> Some flow"
  defines "m1 \<equiv> raised flow m"
  shows "\<not> fq_fault m1" "fq_links m1" "fq_ordered m1" "fq_packets m1" "flow \<in> set (fq_flows m1)" "\<not> fl_queued (fq_flow m1 flow)"
    "fq_sending m1 = fq_sending m" "fq_previous m1 \<noteq> Some flow" "fq_job m1 = fq_job m" "fq_freeing m1 = fq_freeing m" "fq_tree m1 = fq_tree m"
    "fq_mtu m1 = fq_mtu m" "fq_work m1 = fq_work m" "fq_packet_weight m1 = fq_packet_weight m"
    "fq_previous m1 = (if fq_previous m = Some flow then None else fq_previous m)"
    "\<forall>f. fq_sending m1 = Some f \<longrightarrow> ftime m1 f \<le> ftime m1 flow"
    "\<And>f. f \<noteq> flow \<Longrightarrow> ftime m1 f = ftime m f" "fq_previous m = Some flow \<Longrightarrow> ftime m1 flow = ftime m flow"
    "ftime m flow \<le> ftime m1 flow" "\<And>g. g \<in> set (fq_tree m) \<Longrightarrow> ftime m1 flow \<le> max (ftime m flow) (ftime m g)"
proof -
  have i: "\<not> fq_fault m" "fq_links m" "fq_busy m" "fq_ordered m" "fq_packets m"
    using assms(1) by (auto simp: fq_inv_def)
  have n: "flow \<notin> set (fq_tree m)"
    using i(2) assms(3) by (auto simp: fq_links_def)
  obtain t where fl: "fq_flow m1 = (fq_flow m)(flow := (fq_flow m flow)\<lparr>fl_time := t\<rparr>)"
    "fq_previous m = Some flow \<Longrightarrow> t = time_of m flow" "fq_previous m \<noteq> Some flow \<Longrightarrow> t = max (time_of m flow) (get_current_time m)"
    by (cases "fq_previous m = Some flow")
      (auto simp: m1_def raised_def upd_flow_def Let_def fl_time_set [of "\<lambda>t. max t (get_current_time m)"])
  show same: "fq_sending m1 = fq_sending m" "fq_previous m1 \<noteq> Some flow" "fq_job m1 = fq_job m" "fq_freeing m1 = fq_freeing m" "fq_tree m1 = fq_tree m"
    "fq_mtu m1 = fq_mtu m" "fq_work m1 = fq_work m" "fq_packet_weight m1 = fq_packet_weight m"
    "fq_previous m1 = (if fq_previous m = Some flow then None else fq_previous m)"
    by (simp_all add: m1_def raised_def upd_flow_def Let_def)
  have same2: "fq_flows m1 = fq_flows m" "fq_fault m1 = fq_fault m" "fq_in m1 = fq_in m" "fq_out m1 = fq_out m" "fq_sending_len m1 = fq_sending_len m"
    by (simp_all add: m1_def raised_def upd_flow_def Let_def)
  show other: "ftime m1 f = ftime m f" if "f \<noteq> flow" for f
    using that by (simp add: ftime_def fl(1))
  show "ftime m1 flow = ftime m flow" if "fq_previous m = Some flow"
    using that fl by (simp add: ftime_def)
  show "ftime m flow \<le> ftime m1 flow"
    using fl by (cases "fq_previous m = Some flow") (auto simp: ftime_def max_def word_le_def)
  show "ftime m1 flow \<le> max (ftime m flow) (ftime m g)" if "g \<in> set (fq_tree m)" for g
    using fl current_time_le [OF i(4) that] by (cases "fq_previous m = Some flow") (auto simp: ftime_def max_def word_le_def)
  show "\<not> fq_fault m1" "flow \<in> set (fq_flows m1)" "\<not> fl_queued (fq_flow m1 flow)"
    using i(1) assms(2,3) by (simp_all add: same2 fl)
  show "fq_links m1"
    using i(2) by (auto simp: fq_links_def same same2 fl(1))
  show "fq_packets m1"
    using i(5) by (auto simp: fq_packets_def same same2 fl(1))
  have "ftime m1 f \<le> ftime m1 flow" if "fq_sending m1 = Some f" for f
  proof -
    have "fq_previous m \<noteq> Some flow" "get_current_time m = time_of m f" "f \<noteq> flow"
      using that i(3) assms(4) by (auto simp: same fq_busy_def get_current_time_def)
    then show ?thesis
      using fl by (simp add: ftime_def max_def word_le_def)
  qed
  then show "\<forall>f. fq_sending m1 = Some f \<longrightarrow> ftime m1 f \<le> ftime m1 flow"
    by blast
  have eq: "ftime m1 g = ftime m g" if "g \<in> set (fq_tree m)" for g
    using that n by (intro other) auto
  have "sorted_wrt (fq_before m1) (fq_tree m)"
  proof (rule sorted_wrt_mono_rel)
    show "sorted_wrt (fq_before m) (fq_tree m)"
      using i(4) by (simp add: fq_ordered_def)
  qed (simp add: fq_before_def eq)
  moreover have "ftime m1 f \<le> ftime m1 g" if "fq_sending m = Some f" "g \<in> set (fq_tree m)" for f g
    using i(4) that assms(4) eq other [of f] by (auto simp: fq_ordered_def)
  ultimately show "fq_ordered m1"
    by (simp add: fq_ordered_def same)
qed

lemma send_inv:
  assumes "fq_inv m" "flow \<in> set (fq_flows m)" "\<not> fl_queued (fq_flow m flow)" "fq_sending m \<noteq> Some flow" "\<not> fq_freeing m"
    "int (length data) \<le> fq_mtu m"
  defines "m' \<equiv> fq_input_handler_send flow data (m\<lparr>fq_in := (fq_in m)(flow := fq_in m flow @ [data])\<rparr>)"
  shows "fq_inv m'" "fq_work m' = fq_work m" "fq_packet_weight m' = fq_packet_weight m" "fq_mtu m' = fq_mtu m"
    "\<And>f. f \<noteq> flow \<or> fq_previous m = Some flow \<Longrightarrow> ftime m' f = ftime m f"
    "ftime m flow \<le> ftime m' flow" "\<And>g. g \<in> set (fq_tree m) \<Longrightarrow> ftime m' flow \<le> max (ftime m flow) (ftime m g)"
proof -
  define m1 where "m1 = raised flow m"
  define m2 where "m2 = enqueue flow data (m1\<lparr>fq_in := (fq_in m1)(flow := fq_in m1 flow @ [data])\<rparr>)"
  note r = raised_ok [OF assms(1-4), folded m1_def]
  have e: "fq_sending m1 \<noteq> Some flow" "int (length data) \<le> fq_mtu m1"
    using assms(4,6) by (simp_all add: r)
  note f = r(7,9,10,12,13,14,15)
  note k = enqueue_ok [OF r(1-6) e(1) r(8) e(2) r(16), folded m2_def]
  have m': "m' = (if fq_sending m2 = None \<and> \<not> fq_job m2 then schedule m2 else m2)"
    unfolding m'_def by (rule input_handler_send_eq [OF assms(4,3,5) m1_def m2_def])
  have b: "fq_busy m"
    using assms(1) by (simp add: fq_inv_def)
  have "fq_tree m2 \<noteq> []"
    using k(9) by auto
  moreover have "\<not> fq_freeing m2"
    using assms(5) by (simp add: k(8) r(10))
  moreover have "fq_previous m2 = None" if "fq_sending m2 = None" "\<not> fq_job m2"
    using b that assms(5) by (auto simp: k(5-8) f fq_busy_def)
  ultimately have s: "fq_sending m2 = None \<Longrightarrow> \<not> fq_job m2 \<Longrightarrow> fq_inv (schedule m2)"
    "\<And>f. fq_sending m2 = None \<Longrightarrow> \<not> fq_job m2 \<Longrightarrow> ftime (schedule m2) f = ftime m2 f"
    "fq_sending m2 = None \<Longrightarrow> \<not> fq_job m2 \<Longrightarrow> fq_work (schedule m2) = fq_work m2 \<and>
      fq_packet_weight (schedule m2) = fq_packet_weight m2 \<and> fq_mtu (schedule m2) = fq_mtu m2"
    using schedule_inv [OF k(1-4)] by auto
  have "fq_inv m2" if "\<not> (fq_sending m2 = None \<and> \<not> fq_job m2)"
    using k(1-4) b that by (auto simp: fq_inv_def fq_busy_def k(5-8) f split: if_splits)
  then show "fq_inv m'"
    using s(1) by (auto simp: m')
  show "fq_work m' = fq_work m" "fq_packet_weight m' = fq_packet_weight m" "fq_mtu m' = fq_mtu m"
    using s(3) by (auto simp: m' k(11-13) f)
  show "ftime m flow \<le> ftime m' flow"
    using s(2) [of flow] r(19) by (auto simp: m' k(10))
  show "ftime m' flow \<le> max (ftime m flow) (ftime m g)" if "g \<in> set (fq_tree m)" for g
    using s(2) [of flow] r(20) [OF that] by (auto simp: m' k(10))
  show "ftime m' f = ftime m f" if "f \<noteq> flow \<or> fq_previous m = Some flow" for f
    using s(2) [of f] that r(17) [of f] r(18) by (cases "f = flow") (auto simp: m' k(10))
qed

lemma increment_other:
  "fq_sending (increment_sent_flow flow a m) = fq_sending m" "fq_previous (increment_sent_flow flow a m) = fq_previous m"
  "fq_tree (increment_sent_flow flow a m) = fq_tree m" "fq_flows (increment_sent_flow flow a m) = fq_flows m"
  "fq_freeing (increment_sent_flow flow a m) = fq_freeing m" "fq_job (increment_sent_flow flow a m) = fq_job m"
  "fq_packet_weight (increment_sent_flow flow a m) = fq_packet_weight m" "fq_mtu (increment_sent_flow flow a m) = fq_mtu m"
  "fq_sending_len (increment_sent_flow flow a m) = fq_sending_len m" "fq_in (increment_sent_flow flow a m) = fq_in m"
  "fq_out (increment_sent_flow flow a m) = fq_out m" "fq_work (increment_sent_flow flow a m) = fq_work m"
  "fl_queued (fq_flow (increment_sent_flow flow a m) f) = fl_queued (fq_flow m f)"
  "fl_data (fq_flow (increment_sent_flow flow a m) f) = fl_data (fq_flow m f)"
  by (simp_all add: increment_sent_flow_def Let_def fold_subtract_other upd_flow_def fq_assert_def)

lemma increment_fault:
  assumes "\<not> fq_fault m" "\<not> fl_queued (fq_flow m flow)" "fq_sending m = None" "distinct (fq_flows m)"
    and "\<And>f. f \<in> set (fq_flows m) \<Longrightarrow> fl_queued (fq_flow m f) \<Longrightarrow> lift_time m flow a \<le> time_of m f"
  shows "\<not> fq_fault (increment_sent_flow flow a m)"
proof -
  define c where "c = (case tree_first m of None \<Rightarrow> time_of m flow | Some f \<Rightarrow> time_of m f)"
  have "increment_sent_flow flow a m = upd_flow flow (fl_time_update (\<lambda>t. t + a))
      (if a > FAIRQUEUE_MAX_TIME - time_of m flow then fold (subtract_time flow c) (fq_flows m) m else m)"
    using assms(2,3) by (simp add: increment_sent_flow_def c_def)
  moreover have "\<not> fq_fault (fold (subtract_time flow c) (fq_flows m) m)" if "a > FAIRQUEUE_MAX_TIME - time_of m flow"
  proof -
    have "lift_time m flow a = c"
      using that by (simp add: lift_time_def c_def)
    then have "\<not> time_of m f < c" if "f \<in> set (fq_flows m)" "fl_queued (fq_flow m f)" for f
      using assms(5) [OF that] by simp
    then show ?thesis
      using assms(1) by (auto simp: fold_subtract_fault [OF assms(4)])
  qed
  ultimately show ?thesis
    using assms(1) by (simp add: upd_flow_def)
qed

text \<open>The state after the output is done, field by field.\<close>

lemma done_effect:
  assumes "fq_inv m" "fq_sending m = Some flow" "\<not> fq_freeing m"
  defines "m' \<equiv> fst (fq_output_handler_done (m\<lparr>fq_work := (fq_work m)(flow := fq_work m flow + fq_packet_weight m + fq_sending_len m)\<rparr>))"
  shows "fq_tree m' = fq_tree m" "fq_flows m' = fq_flows m" "fq_sending m' = None" "fq_previous m' = Some flow" "fq_job m'"
    "\<not> fq_fault m'" "fq_in m' = fq_in m" "fq_out m' = fq_out m" "fq_freeing m' = fq_freeing m"
    "\<And>f. fl_queued (fq_flow m' f) = fl_queued (fq_flow m f)" "\<And>f. fl_data (fq_flow m' f) = fl_data (fq_flow m f)"
    "fq_packet_weight m' = fq_packet_weight m" "fq_mtu m' = fq_mtu m"
    "fq_work m' = (fq_work m)(flow := fq_work m flow + fq_packet_weight m + fq_sending_len m)"
    "\<exists>c\<ge>0. ftime m' flow = ftime m flow + (fq_packet_weight m + fq_sending_len m) - c \<and>
       (\<forall>g\<in>set (fq_tree m). ftime m' g = ftime m g - c) \<and> (\<forall>g\<in>set (fq_flows m). g \<noteq> flow \<longrightarrow> ftime m' g = max 0 (ftime m g - c))"
proof -
  define a where "a = fq_packet_weight m + fq_sending_len m"
  define m1 where "m1 = m\<lparr>fq_work := (fq_work m)(flow := fq_work m flow + fq_packet_weight m + fq_sending_len m),
    fq_sending := None, fq_previous := Some flow\<rparr>"
  define m2 where "m2 = increment_sent_flow flow (of_int a) m1"
  have i: "\<not> fq_fault m" "fq_links m" "fq_busy m" "fq_ordered m" "fq_packets m"
    using assms(1) by (auto simp: fq_inv_def)
  have fl: "flow \<in> set (fq_flows m)" "\<not> fl_queued (fq_flow m flow)" "flow \<notin> set (fq_tree m)" "distinct (fq_flows m)"
    "set (fq_tree m) \<subseteq> set (fq_flows m)" "\<And>f. f \<in> set (fq_tree m) \<longleftrightarrow> f \<in> set (fq_flows m) \<and> fl_queued (fq_flow m f)"
    "fq_previous m = None" "\<not> fq_job m"
    using i(2,3) assms(2) by (auto simp: fq_links_def fq_busy_def)
  have a: "0 \<le> a" "a < 2 ^ 64"
    using i(5) assms(2) by (auto simp: fq_packets_def a_def)
  have m': "m' = upd_flow flow (fl_busy_update (\<lambda>_. False)) (m2\<lparr>fq_job := True\<rparr>)"
    using assms(2,3) fl by (simp add: m'_def fq_output_handler_done_def m2_def m1_def a_def Let_def)
  have t1: "ftime m1 = ftime m" "fq_before m1 = fq_before m" "ftime m' = ftime m2"
    by (simp_all add: fun_eq_iff ftime_def m1_def fq_before_def m' upd_flow_def)
  have m1: "fq_tree m1 = fq_tree m" "fq_flows m1 = fq_flows m" "fq_flow m1 = fq_flow m" "fq_sending m1 = None" "fq_fault m1 = fq_fault m"
    by (simp_all add: m1_def)
  define c where "c = uint (lift_time m1 flow (of_int a))"
  have min: "\<forall>g\<in>set (fq_tree m1). ftime m1 flow \<le> ftime m1 g" "sorted_wrt (fq_before m1) (fq_tree m1)"
    using i(4) assms(2) by (auto simp: fq_ordered_def t1 m1)
  have "\<not> fq_fault m2"
    unfolding m2_def using i(1) fl lift_time_bounds [OF min a c_def]
    by (intro increment_fault) (auto simp: m1 c_def word_le_def ftime_def)
  then show "fq_tree m' = fq_tree m" "fq_flows m' = fq_flows m" "fq_sending m' = None" "fq_previous m' = Some flow" "fq_job m'"
    "\<not> fq_fault m'" "fq_in m' = fq_in m" "fq_out m' = fq_out m" "fq_freeing m' = fq_freeing m"
    "\<And>f. fl_queued (fq_flow m' f) = fl_queued (fq_flow m f)" "\<And>f. fl_data (fq_flow m' f) = fl_data (fq_flow m f)"
    "fq_packet_weight m' = fq_packet_weight m" "fq_mtu m' = fq_mtu m"
    "fq_work m' = (fq_work m)(flow := fq_work m flow + fq_packet_weight m + fq_sending_len m)"
    by (simp_all add: m' upd_flow_def m2_def increment_other) (simp_all add: m1_def)
  have "0 \<le> c"
    by (simp add: c_def)
  then show "\<exists>c\<ge>0. ftime m' flow = ftime m flow + (fq_packet_weight m + fq_sending_len m) - c \<and>
       (\<forall>g\<in>set (fq_tree m). ftime m' g = ftime m g - c) \<and> (\<forall>g\<in>set (fq_flows m). g \<noteq> flow \<longrightarrow> ftime m' g = max 0 (ftime m g - c))"
    using increment_times [of m1 flow a c, folded m2_def, OF _ _ _ _ min a c_def] fl by (auto simp: m1 t1 a_def)
qed

lemma done_inv:
  assumes "fq_inv m" "fq_sending m = Some flow" "\<not> fq_freeing m"
  defines "m' \<equiv> fst (fq_output_handler_done (m\<lparr>fq_work := (fq_work m)(flow := fq_work m flow + fq_packet_weight m + fq_sending_len m)\<rparr>))"
  shows "fq_inv m'"
proof -
  note sel = done_effect [OF assms(1-3), folded m'_def]
  have i: "fq_links m" "fq_ordered m" "fq_packets m"
    using assms(1) by (auto simp: fq_inv_def)
  have fl: "flow \<in> set (fq_flows m)" "\<not> fl_queued (fq_flow m flow)"
    using i(1) assms(2) by (auto simp: fq_links_def)
  obtain c where c: "\<And>g. g \<in> set (fq_tree m) \<Longrightarrow> ftime m' g = ftime m g - c"
    using sel(15) by blast
  have "sorted_wrt (fq_before m') (fq_tree m)"
  proof (rule sorted_wrt_mono_rel)
    show "sorted_wrt (fq_before m) (fq_tree m)"
      using i(2) by (simp add: fq_ordered_def)
  qed (simp add: fq_before_def c)
  then have "fq_ordered m'"
    by (simp add: fq_ordered_def sel(1,3))
  moreover have "fq_links m'"
    using i(1) fl by (auto simp: fq_links_def sel(1-11))
  moreover have "fq_packets m'"
    using i(3) by (auto simp: fq_packets_def sel(1-13))
  ultimately show "fq_inv m'"
    using sel(6) by (simp add: fq_inv_def fq_busy_def sel(3-5))
qed

lemma sending_weight:
  assumes "fq_inv m" "fq_sending m = Some flow"
  shows "fq_packet_weight m + fq_sending_len m \<le> fq_packet_weight m + fq_mtu m" "0 < fq_packet_weight m + fq_sending_len m"
  using assms by (auto simp: fq_inv_def fq_packets_def)

lemma flow_init_inv:
  assumes "fq_inv m" "f \<notin> set (fq_flows m)" "\<not> fq_freeing m"
  shows "fq_inv (PacketPassFairQueueFlow_Init f m)" "\<And>g. g \<noteq> f \<Longrightarrow> ftime (PacketPassFairQueueFlow_Init f m) g = ftime m g"
proof -
  define m' where "m' = PacketPassFairQueueFlow_Init f m"
  have m': "m' = (upd_flow f (\<lambda>fl. fl\<lparr>fl_busy := False, fl_time := 0, fl_queued := False\<rparr>) m)\<lparr>fq_flows := fq_flows m @ [f],
      fq_in := (fq_in m)(f := []), fq_out := (fq_out m)(f := []), fq_work := (fq_work m)(f := 0)\<rparr>"
    using assms(3) by (simp add: m'_def PacketPassFairQueueFlow_Init_def upd_flow_def Let_def)
  have i: "\<not> fq_fault m" "fq_links m" "fq_busy m" "fq_ordered m" "fq_packets m"
    using assms(1) by (auto simp: fq_inv_def)
  have t: "ftime m' g = ftime m g" if "g \<noteq> f" for g
    using that by (simp add: m' ftime_def upd_flow_def)
  have eq: "ftime m' g = ftime m g" if "g \<in> set (fq_tree m)" for g
    using that i(2) assms(2) by (intro t) (auto simp: fq_links_def)
  have "sorted_wrt (fq_before m') (fq_tree m)"
  proof (rule sorted_wrt_mono_rel)
    show "sorted_wrt (fq_before m) (fq_tree m)"
      using i(4) by (simp add: fq_ordered_def)
  qed (simp add: fq_before_def eq)
  moreover have "ftime m' x \<le> ftime m' g" if "fq_sending m = Some x" "g \<in> set (fq_tree m)" for x g
  proof -
    have "x \<noteq> f"
      using that(1) i(2) assms(2) by (auto simp: fq_links_def)
    then show ?thesis
      using that i(4) eq t by (simp add: fq_ordered_def)
  qed
  ultimately have "fq_ordered m'"
    by (simp add: fq_ordered_def) (simp add: m' upd_flow_def)
  moreover have "fq_links m'" "fq_packets m'" "fq_busy m'" "\<not> fq_fault m'"
    using i assms(2) by (auto simp: fq_links_def fq_packets_def fq_busy_def m' upd_flow_def)
  ultimately show "fq_inv (PacketPassFairQueueFlow_Init f m)"
    by (simp add: fq_inv_def m'_def)
  show "ftime (PacketPassFairQueueFlow_Init f m) g = ftime m g" if "g \<noteq> f" for g
    using t [OF that] by (simp add: m'_def)
qed

lemma Flow_Free_eq:
  assumes "fq_freeing m \<or> fq_sending m \<noteq> Some f" "fl_queued (fq_flow m f) \<or> f \<notin> set (fq_tree m)"
  shows "PacketPassFairQueueFlow_Free f m =
    m\<lparr>fq_sending := if fq_sending m = Some f then None else fq_sending m,
      fq_previous := if fq_previous m = Some f then None else fq_previous m,
      fq_tree := remove1 f (fq_tree m), fq_flows := remove1 f (fq_flows m)\<rparr>"
proof -
  define m1 where "m1 = (if fq_sending m = Some f then m\<lparr>fq_sending := None\<rparr> else m)"
  define m2 where "m2 = (if fq_previous m1 = Some f then m1\<lparr>fq_previous := None\<rparr> else m1)"
  define m3 where "m3 = (if fl_queued (fq_flow m2 f) then m2\<lparr>fq_tree := remove1 f (fq_tree m2)\<rparr> else m2)"
  have 0: "fq_assert (fq_freeing m \<or> fq_sending m \<noteq> Some f) m = m"
    using assms(1) by simp
  have 1: "PacketPassFairQueueFlow_Free f m = m3\<lparr>fq_flows := remove1 f (fq_flows m3)\<rparr>"
    unfolding m3_def m2_def m1_def PacketPassFairQueueFlow_Free_def Let_def 0 by (rule refl)
  have e1: "m1 = m\<lparr>fq_sending := if fq_sending m = Some f then None else fq_sending m\<rparr>"
    by (simp add: m1_def)
  have e2: "m2 = m1\<lparr>fq_previous := if fq_previous m = Some f then None else fq_previous m\<rparr>"
    by (simp add: m2_def m1_def)
  have e3: "m3 = m2\<lparr>fq_tree := remove1 f (fq_tree m)\<rparr>"
    using assms(2) by (cases "fl_queued (fq_flow m f)") (simp_all add: m3_def e2 e1 remove1_idem)
  show ?thesis
    unfolding 1 e3 e2 e1 by simp
qed

lemma sorted_wrt_remove1: "sorted_wrt P xs \<Longrightarrow> sorted_wrt P (remove1 x xs)"
  by (induction xs) (auto dest: set_remove1_subset [THEN subsetD])

lemma flow_free_inv:
  assumes "fq_inv m" "f \<in> set (fq_flows m)" "fq_freeing m \<or> fq_sending m \<noteq> Some f"
  shows "fq_inv (PacketPassFairQueueFlow_Free f m)" "\<And>g. ftime (PacketPassFairQueueFlow_Free f m) g = ftime m g"
proof -
  define m' where "m' = PacketPassFairQueueFlow_Free f m"
  have i: "\<not> fq_fault m" "fq_links m" "fq_busy m" "fq_ordered m" "fq_packets m"
    using assms(1) by (auto simp: fq_inv_def)
  have tree: "fl_queued (fq_flow m f) \<or> f \<notin> set (fq_tree m)"
    using i(2) by (auto simp: fq_links_def)
  have sel: "fq_tree m' = remove1 f (fq_tree m)" "fq_flows m' = remove1 f (fq_flows m)" "fq_fault m' = fq_fault m"
    "fq_sending m' = (if fq_sending m = Some f then None else fq_sending m)"
    "fq_previous m' = (if fq_previous m = Some f then None else fq_previous m)" "fq_flow m' = fq_flow m"
    "fq_freeing m' = fq_freeing m" "fq_job m' = fq_job m" "fq_in m' = fq_in m" "fq_out m' = fq_out m" "fq_mtu m' = fq_mtu m"
    "fq_packet_weight m' = fq_packet_weight m" "fq_sending_len m' = fq_sending_len m"
    unfolding m'_def Flow_Free_eq [OF assms(3) tree] by simp_all
  note t = ftime_cong [OF sel(6)] fq_before_cong [OF ftime_cong [OF sel(6)]]
  have "sorted_wrt (fq_before m) (remove1 f (fq_tree m))"
    using i(4) by (simp add: fq_ordered_def sorted_wrt_remove1)
  then have "fq_ordered m'"
    using i(4) notin_set_remove1 by (fastforce simp: fq_ordered_def sel t)
  moreover have "fq_links m'"
    using i(2) by (auto simp: fq_links_def sel set_remove1_eq split: if_splits)
  moreover have "fq_packets m'"
    using i(2,5) by (auto simp: fq_links_def fq_packets_def sel set_remove1_eq split: if_splits)
  moreover have "fq_busy m'"
    using i(3) assms(3) by (auto simp: fq_busy_def sel split: if_splits)
  ultimately show "fq_inv (PacketPassFairQueueFlow_Free f m)" "\<And>g. ftime (PacketPassFairQueueFlow_Free f m) g = ftime m g"
    using i(1) t by (simp_all add: fq_inv_def sel m'_def [symmetric])
qed

lemma flag_inv:
  assumes "fq_inv m"
  shows "fq_inv (PacketPassFairQueue_PrepareFree m)" "ftime (PacketPassFairQueue_PrepareFree m) = ftime m"
    "fq_sending m = Some f \<Longrightarrow> \<not> fq_freeing m \<Longrightarrow> fq_inv (PacketPassFairQueueFlow_SetBusyHandler f m)"
    "ftime (PacketPassFairQueueFlow_SetBusyHandler f m) = ftime m"
proof -
  show t: "ftime (PacketPassFairQueue_PrepareFree m) = ftime m" "ftime (PacketPassFairQueueFlow_SetBusyHandler f m) = ftime m"
    by (simp_all add: fun_eq_iff ftime_def PacketPassFairQueue_PrepareFree_def PacketPassFairQueueFlow_SetBusyHandler_def
        upd_flow_def fq_assert_def)
  show "fq_inv (PacketPassFairQueue_PrepareFree m)"
    using assms t(1) fq_before_cong [OF t(1)] unfolding fq_inv_def fq_ordered_def
    by (auto simp: PacketPassFairQueue_PrepareFree_def fq_links_def fq_busy_def fq_packets_def)
  show "fq_inv (PacketPassFairQueueFlow_SetBusyHandler f m)" if "fq_sending m = Some f" "\<not> fq_freeing m"
    using assms that t(2) fq_before_cong [OF t(2)] unfolding fq_inv_def fq_ordered_def
    by (auto simp: PacketPassFairQueueFlow_SetBusyHandler_def fq_links_def fq_busy_def fq_packets_def upd_flow_def fq_assert_def)
qed

lemma fq_step_inv:
  assumes "fq_inv m" "fq_step m e = Some m'"
  shows "fq_inv m'"
  using assms send_inv(1) done_inv job_inv(1) flow_init_inv(1) flow_free_inv(1) flag_inv(1,3)
  by (cases e) (auto split: if_splits option.splits)

lemma fq_run_inv: "fq_inv m \<Longrightarrow> fq_run m es = Some m' \<Longrightarrow> fq_inv m'"
  by (induction es arbitrary: m) (auto split: option.splits dest: fq_step_inv)

lemma Init_inv:
  assumes "PacketPassFairQueue_Init mtu w = Some m" "0 \<le> mtu" "0 < w" "mtu < 2 ^ 31" "w < 2 ^ 31"
  shows "fq_inv m"
  using assms by (auto simp: PacketPassFairQueue_Init_def fq_inv_def fq_inv_defs split: if_splits)

subsection \<open>Sharing\<close>

definition fq_active :: "fair_queue \<Rightarrow> nat \<Rightarrow> bool" where
  "fq_active m f \<longleftrightarrow> f \<in> set (fq_tree m) \<or> fq_sending m = Some f \<or> fq_previous m = Some f"

lemma active_flow: "fq_inv m \<Longrightarrow> fq_active m f \<Longrightarrow> f \<in> set (fq_flows m)"
  by (auto simp: fq_inv_def fq_links_def fq_active_def)

text \<open>Both flows stay active during the events.\<close>

fun fq_share :: "fair_queue \<Rightarrow> fq_event list \<Rightarrow> nat \<Rightarrow> nat \<Rightarrow> bool" where
  "fq_share m [] f g \<longleftrightarrow> fq_active m f \<and> fq_active m g"
| "fq_share m (e # es) f g \<longleftrightarrow> fq_active m f \<and> fq_active m g \<and>
     (case fq_step m e of None \<Rightarrow> False | Some m' \<Rightarrow> fq_share m' es f g)"

lemma share_active: "fq_share m es f g \<Longrightarrow> fq_active m f \<and> fq_active m g"
  by (cases es) auto

text \<open>
  An event other than the completion of a packet changes a time only when an inactive flow
  comes back, and raises it at most to that of the flows which wait.
\<close>

lemma step_times:
  assumes "fq_inv m" "fq_step m e = Some m'" "f \<in> set (fq_flows m)" "e \<noteq> FqDone"
  shows "fq_work m' f = fq_work m f \<and> ftime m f \<le> ftime m' f \<and> (fq_active m f \<longrightarrow> ftime m' f = ftime m f) \<and>
    (\<forall>g\<in>set (fq_tree m). ftime m' f \<le> max (ftime m f) (ftime m g))"
proof (cases e)
  case (FqSend h d)
  then have e: "h \<in> set (fq_flows m)" "\<not> fl_queued (fq_flow m h)" "fq_sending m \<noteq> Some h" "\<not> fq_freeing m" "int (length d) \<le> fq_mtu m"
    "m' = fq_input_handler_send h d (m\<lparr>fq_in := (fq_in m)(h := fq_in m h @ [d])\<rparr>)"
    using assms(2) by (auto split: if_splits)
  have "\<not> fq_active m h \<or> fq_previous m = Some h"
    using assms(1) e(2,3) by (auto simp: fq_active_def fq_inv_def fq_links_def)
  then show ?thesis
    using send_inv(2,5,6,7) [OF assms(1) e(1-5), folded e(6)] by (cases "f = h") auto
next
  case FqJob
  then show ?thesis
    using assms(2) job_inv(2,3) [OF assms(1)] by (auto split: if_splits)
next
  case (FqFlowInit h)
  then have "h \<noteq> f" "\<not> fq_freeing m" "h \<notin> set (fq_flows m)" "m' = PacketPassFairQueueFlow_Init h m"
    using assms(2,3) by (auto split: if_splits)
  then show ?thesis
    using flow_init_inv(2) [OF assms(1)] by (simp add: PacketPassFairQueueFlow_Init_def upd_flow_def fq_assert_def Let_def)
next
  case (FqFlowFree h)
  then have h: "h \<in> set (fq_flows m)" "fq_freeing m \<or> fq_sending m \<noteq> Some h" "m' = PacketPassFairQueueFlow_Free h m"
    using assms(2) by (auto split: if_splits)
  have q: "fl_queued (fq_flow m h) \<or> h \<notin> set (fq_tree m)"
    using assms(1) by (auto simp: fq_inv_def fq_links_def)
  show ?thesis
    using flow_free_inv(2) [OF assms(1) h(1,2)] by (simp add: h(3)) (simp add: Flow_Free_eq [OF h(2) q])
next
  case (FqSetBusy h)
  then show ?thesis
    using assms(2) flag_inv(4) [OF assms(1), of h]
    by (auto simp: PacketPassFairQueueFlow_SetBusyHandler_def upd_flow_def fq_assert_def split: if_splits)
next
  case FqPrepareFree
  then show ?thesis
    using assms(2) flag_inv(2) [OF assms(1)] by (auto simp: PacketPassFairQueue_PrepareFree_def split: if_splits)
qed (use assms(4) in simp)

lemma step_config:
  assumes "fq_inv m" "fq_step m e = Some m'"
  shows "fq_packet_weight m' = fq_packet_weight m \<and> fq_mtu m' = fq_mtu m"
proof (cases e)
  case (FqFlowFree h)
  then have h: "fq_freeing m \<or> fq_sending m \<noteq> Some h" "m' = PacketPassFairQueueFlow_Free h m"
    using assms(2) by (auto split: if_splits)
  have q: "fl_queued (fq_flow m h) \<or> h \<notin> set (fq_tree m)"
    using assms(1) by (auto simp: fq_inv_def fq_links_def)
  show ?thesis
    unfolding h(2) Flow_Free_eq [OF h(1) q] by simp
qed (use assms(2) send_inv(3,4) [OF assms(1)] done_effect(12,13) [OF assms(1)] job_inv(4,5) [OF assms(1)] in
  \<open>auto simp: PacketPassFairQueueFlow_Init_def PacketPassFairQueueFlow_SetBusyHandler_def PacketPassFairQueue_PrepareFree_def
      upd_flow_def fq_assert_def Let_def split: if_splits option.splits\<close>)

text \<open>A completed packet moves its flow ahead of the others by its weight, starting from not ahead.\<close>

lemma step_share:
  assumes "fq_inv m" "fq_step m e = Some m'" "fq_active m f" "fq_active m g"
  shows "(fq_work m' f - fq_work m f) - (fq_work m' g - fq_work m g) = (ftime m' f - ftime m' g) - (ftime m f - ftime m g)"
    and "ftime m' f - ftime m' g \<le> max (ftime m f - ftime m g) (fq_packet_weight m + fq_mtu m)"
proof -
  have "(fq_work m' f - fq_work m f) - (fq_work m' g - fq_work m g) = (ftime m' f - ftime m' g) - (ftime m f - ftime m g) \<and>
    ftime m' f - ftime m' g \<le> max (ftime m f - ftime m g) (fq_packet_weight m + fq_mtu m)"
  proof (cases "e = FqDone")
    case True
    then obtain flow where flow: "fq_sending m = Some flow" "\<not> fq_freeing m"
      "m' = fst (fq_output_handler_done (m\<lparr>fq_work := (fq_work m)(flow := fq_work m flow + fq_packet_weight m + fq_sending_len m)\<rparr>))"
      using assms(2) by (auto split: option.splits if_splits)
    note d = done_effect [OF assms(1) flow(1,2), folded flow(3)]
    obtain c where c: "ftime m' flow = ftime m flow + (fq_packet_weight m + fq_sending_len m) - c"
      "\<And>g. g \<in> set (fq_tree m) \<Longrightarrow> ftime m' g = ftime m g - c"
      using d(15) by blast
    have o: "ftime m flow \<le> ftime m g" if "g \<in> set (fq_tree m)" for g
      using assms(1) flow(1) that by (auto simp: fq_inv_def fq_ordered_def)
    have a: "f = flow \<or> f \<in> set (fq_tree m)" "g = flow \<or> g \<in> set (fq_tree m)" "flow \<notin> set (fq_tree m)"
      using assms(1,3,4) flow(1) by (auto simp: fq_active_def fq_inv_def fq_busy_def fq_links_def)
    then show ?thesis
      using c o [of f] o [of g] d(14) sending_weight [OF assms(1) flow(1)] by (cases "f = flow"; cases "g = flow") auto
  next
    case False
    then show ?thesis
      using step_times [OF assms(1,2) _ False] active_flow [OF assms(1)] assms(3,4) by simp
  qed
  then show "(fq_work m' f - fq_work m f) - (fq_work m' g - fq_work m g) = (ftime m' f - ftime m' g) - (ftime m f - ftime m g)"
    "ftime m' f - ftime m' g \<le> max (ftime m f - ftime m g) (fq_packet_weight m + fq_mtu m)"
    by blast+
qed

lemma run_share:
  assumes "fq_inv m" "fq_run m es = Some m'" "fq_share m es f g"
  shows "(fq_work m' f - fq_work m f) - (fq_work m' g - fq_work m g) = (ftime m' f - ftime m' g) - (ftime m f - ftime m g) \<and>
    ftime m' f - ftime m' g \<le> max (ftime m f - ftime m g) (fq_packet_weight m + fq_mtu m)"
  using assms
proof (induction es arbitrary: m)
  case (Cons e es)
  then obtain m1 where m1: "fq_step m e = Some m1" "fq_run m1 es = Some m'" "fq_share m1 es f g" "fq_active m f" "fq_active m g"
    by (auto split: option.splits)
  show ?case
    using Cons.IH [OF fq_step_inv [OF Cons.prems(1) m1(1)] m1(2,3)] step_share [OF Cons.prems(1) m1(1,4,5)]
      step_config [OF Cons.prems(1) m1(1)] by linarith
qed auto

subsection \<open>Waiting\<close>

text \<open>The flow \<open>g\<close> waits in the tree and the flow \<open>f\<close> exists during the events.\<close>

fun fq_waits :: "fair_queue \<Rightarrow> fq_event list \<Rightarrow> nat \<Rightarrow> nat \<Rightarrow> bool" where
  "fq_waits m [] f g \<longleftrightarrow> True"
| "fq_waits m (e # es) f g \<longleftrightarrow> f \<in> set (fq_flows m) \<and> g \<in> set (fq_tree m) \<and>
     (case fq_step m e of None \<Rightarrow> False | Some m' \<Rightarrow> fq_waits m' es f g)"

lemma step_wait:
  assumes "fq_inv m" "fq_step m e = Some m'" "f \<in> set (fq_flows m)" "g \<in> set (fq_tree m)" "f \<noteq> g"
  shows "fq_work m' f - fq_work m f \<le> (ftime m' f - ftime m' g) - (ftime m f - ftime m g) \<and>
    ftime m' f - ftime m' g \<le> max (ftime m f - ftime m g) (fq_packet_weight m + fq_mtu m)"
proof (cases "e = FqDone")
  case True
  then obtain flow where flow: "fq_sending m = Some flow" "\<not> fq_freeing m"
    "m' = fst (fq_output_handler_done (m\<lparr>fq_work := (fq_work m)(flow := fq_work m flow + fq_packet_weight m + fq_sending_len m)\<rparr>))"
    using assms(2) by (auto split: option.splits if_splits)
  note d = done_effect(14,15) [OF assms(1) flow(1,2), folded flow(3)]
  obtain c where c: "0 \<le> c" "ftime m' flow = ftime m flow + (fq_packet_weight m + fq_sending_len m) - c"
    "ftime m' g = ftime m g - c" "f \<noteq> flow \<Longrightarrow> ftime m' f = max 0 (ftime m f - c)"
    using d(2) assms(3,4) by blast
  have o: "ftime m flow \<le> ftime m g" "flow \<noteq> g"
    using assms(1,4) flow(1) by (auto simp: fq_inv_def fq_ordered_def fq_links_def)
  show ?thesis
    using c o d(1) sending_weight [OF assms(1) flow(1)] ftime_nonneg(1) [of m' g] by (cases "f = flow") auto
next
  case False
  have g: "g \<in> set (fq_flows m)" "fq_active m g"
    using assms(1,4) by (auto simp: fq_inv_def fq_links_def fq_active_def)
  have w: "0 \<le> fq_packet_weight m + fq_mtu m"
    using assms(1) by (auto simp: fq_inv_def fq_packets_def)
  show ?thesis
    using step_times [OF assms(1,2,3) False] step_times [OF assms(1,2) g(1) False] g(2) assms(4) w by fastforce
qed

lemma run_wait:
  assumes "fq_inv m" "fq_run m es = Some m'" "fq_waits m es f g" "f \<noteq> g"
  shows "fq_work m' f - fq_work m f \<le> (ftime m' f - ftime m' g) - (ftime m f - ftime m g) \<and>
    ftime m' f - ftime m' g \<le> max (ftime m f - ftime m g) (fq_packet_weight m + fq_mtu m)"
  using assms
proof (induction es arbitrary: m)
  case (Cons e es)
  then obtain m1 where m1: "fq_step m e = Some m1" "fq_run m1 es = Some m'" "fq_waits m1 es f g" "f \<in> set (fq_flows m)" "g \<in> set (fq_tree m)"
    by (auto split: option.splits)
  show ?case
    using Cons.IH [OF fq_step_inv [OF Cons.prems(1) m1(1)] m1(2,3) assms(4)] step_wait [OF Cons.prems(1) m1(1,4,5) assms(4)]
      step_config [OF Cons.prems(1) m1(1)] by linarith
qed auto

subsection \<open>Packets under way\<close>

text \<open>A flow whose input is busy: its packet is queued or being sent.\<close>

definition fq_pending :: "fair_queue \<Rightarrow> nat \<Rightarrow> bool" where
  "fq_pending m f \<longleftrightarrow> fl_queued (fq_flow m f) \<or> fq_sending m = Some f"

definition fq_pending_after :: "fair_queue \<Rightarrow> fq_event \<Rightarrow> nat \<Rightarrow> bool" where
  "fq_pending_after m e f \<longleftrightarrow>
     (case e of FqSend h d \<Rightarrow> f = h \<or> fq_pending m f | FqDone \<Rightarrow> fq_pending m f \<and> fq_sending m \<noteq> Some f | _ \<Rightarrow> fq_pending m f)"

lemma schedule_pending:
  assumes "fq_links m" "fq_sending m = None" "fq_tree m \<noteq> []"
  shows "fq_pending (schedule m) f = fq_pending m f \<and> fq_flows (schedule m) = fq_flows m \<and> fq_freeing (schedule m) = fq_freeing m"
proof -
  obtain q rest where q: "fq_tree m = q # rest"
    using assms(3) by (cases "fq_tree m") auto
  then have "fl_queued (fq_flow m q)"
    using assms(1) by (auto simp: fq_links_def)
  then show ?thesis
    using assms(2) q by (auto simp: fq_pending_def schedule_def upd_flow_def fq_assert_def Let_def)
qed

lemma send_pending:
  assumes "fq_inv m" "flow \<in> set (fq_flows m)" "\<not> fl_queued (fq_flow m flow)" "fq_sending m \<noteq> Some flow" "\<not> fq_freeing m"
    "int (length data) \<le> fq_mtu m"
  defines "m' \<equiv> fq_input_handler_send flow data (m\<lparr>fq_in := (fq_in m)(flow := fq_in m flow @ [data])\<rparr>)"
  shows "fq_pending m' f \<longleftrightarrow> f = flow \<or> fq_pending m f" "fq_flows m' = fq_flows m" "fq_freeing m' = fq_freeing m"
proof -
  define m1 where "m1 = raised flow m"
  define m2 where "m2 = enqueue flow data (m1\<lparr>fq_in := (fq_in m1)(flow := fq_in m1 flow @ [data])\<rparr>)"
  note r = raised_ok [OF assms(1-4), folded m1_def]
  have e: "fq_sending m1 \<noteq> Some flow" "int (length data) \<le> fq_mtu m1"
    using assms(4,6) by (simp_all add: r)
  note k = enqueue_ok [OF r(1-6) e(1) r(8) e(2) r(16), folded m2_def]
  have m': "m' = (if fq_sending m2 = None \<and> \<not> fq_job m2 then schedule m2 else m2)"
    unfolding m'_def by (rule input_handler_send_eq [OF assms(4,3,5) m1_def m2_def])
  have "fq_tree m2 \<noteq> []"
    using k(9) by auto
  moreover have "fl_queued (fq_flow m2 f) \<longleftrightarrow> f = flow \<or> fl_queued (fq_flow m f)" "fq_flows m2 = fq_flows m"
    by (auto simp: m2_def m1_def enqueue_def raised_def upd_flow_def fq_assert_def split_def Let_def)
  ultimately show "fq_pending m' f \<longleftrightarrow> f = flow \<or> fq_pending m f" "fq_flows m' = fq_flows m" "fq_freeing m' = fq_freeing m"
    using schedule_pending [OF k(2)] by (auto simp: m' fq_pending_def k(5,8) r(7,10))
qed

lemma step_pending:
  assumes "fq_inv m" "fq_step m e = Some m'" "\<forall>h. e \<noteq> FqFlowInit h \<and> e \<noteq> FqFlowFree h \<and> e \<noteq> FqSetBusy h" "e \<noteq> FqPrepareFree"
  shows "fq_pending m' f = fq_pending_after m e f \<and> fq_flows m' = fq_flows m \<and> \<not> fq_freeing m'"
proof (cases e)
  case (FqSend h d)
  then have e: "h \<in> set (fq_flows m)" "\<not> fl_queued (fq_flow m h)" "fq_sending m \<noteq> Some h" "\<not> fq_freeing m" "int (length d) \<le> fq_mtu m"
    "m' = fq_input_handler_send h d (m\<lparr>fq_in := (fq_in m)(h := fq_in m h @ [d])\<rparr>)"
    using assms(2) by (auto split: if_splits)
  show ?thesis
    using send_pending [OF assms(1) e(1-5), folded e(6)] e(4) by (simp add: fq_pending_after_def FqSend)
next
  case FqDone
  then obtain flow where flow: "fq_sending m = Some flow" "\<not> fq_freeing m"
    "m' = fst (fq_output_handler_done (m\<lparr>fq_work := (fq_work m)(flow := fq_work m flow + fq_packet_weight m + fq_sending_len m)\<rparr>))"
    using assms(2) by (auto split: option.splits if_splits)
  have "\<not> fl_queued (fq_flow m flow)"
    using assms(1) flow(1) by (auto simp: fq_inv_def fq_links_def)
  then show ?thesis
    using done_effect [OF assms(1) flow(1,2), folded flow(3)] flow(1,2) by (auto simp: fq_pending_after_def fq_pending_def FqDone)
next
  case FqJob
  define m1 where "m1 = m\<lparr>fq_job := False, fq_previous := None\<rparr>"
  have s: "fq_job m" "\<not> fq_freeing m" "fq_sending m = None" "fq_links m"
    using FqJob assms(1,2) by (auto simp: fq_inv_def fq_busy_def split: if_splits)
  then have "m' = (if fq_tree m1 \<noteq> [] then schedule m1 else m1)" "fq_links m1" "fq_sending m1 = None"
    using FqJob assms(2) by (auto simp: schedule_job_handler_def m1_def fq_links_def Let_def)
  then show ?thesis
    using schedule_pending [of m1 f] s(2) by (auto simp: fq_pending_after_def FqJob fq_pending_def) (auto simp: m1_def)
qed (use assms(3,4) in auto)

subsection \<open>Properties\<close>

text \<open>The packet weight of the programs is 1, and the maximum transmission unit a non-negative \<open>int\<close>.\<close>

definition fq_start :: "int \<Rightarrow> int \<Rightarrow> bool" where
  "fq_start mtu w \<longleftrightarrow> 0 \<le> mtu \<and> mtu < 2 ^ 31 \<and> 0 < w \<and> w < 2 ^ 31"

lemma run_config:
  assumes "fq_inv m" "fq_run m es = Some m'"
  shows "fq_packet_weight m' = fq_packet_weight m \<and> fq_mtu m' = fq_mtu m"
  using assms
proof (induction es arbitrary: m)
  case (Cons e es)
  then obtain m1 where m1: "fq_step m e = Some m1" "fq_run m1 es = Some m'"
    by (auto split: option.splits)
  show ?case
    using Cons.IH [OF fq_step_inv [OF Cons.prems(1) m1(1)] m1(2)] step_config [OF Cons.prems(1) m1(1)] by simp
qed auto

lemma start_inv:
  assumes "fq_start mtu w" "PacketPassFairQueue_Init mtu w = Some m0" "fq_run m0 es = Some m"
  shows "fq_inv m" "fq_packet_weight m = w" "fq_mtu m = mtu"
proof -
  have "fq_inv m0" "fq_packet_weight m0 = w" "fq_mtu m0 = mtu"
    using Init_inv [OF assms(2)] assms(1,2) by (auto simp: fq_start_def PacketPassFairQueue_Init_def split: if_splits)
  then show "fq_inv m" "fq_packet_weight m = w" "fq_mtu m = mtu"
    using fq_run_inv [OF _ assms(3)] run_config [OF _ assms(3)] by auto
qed

text \<open>
  \<^bold>\<open>C21\<close>: Whatever the flows, the output and the scheduled job do after
  \<open>PacketPassFairQueue_Init\<close>, in any order the interface allows, no assertion of the fair
  queue fails; of each flow, the packets passed to the output followed by the queued one are
  the packets it handed over, in order; the flow whose packet is being sent comes before all
  queued ones in time; and while a flow is queued, a packet is being sent or the job that
  sends the next one is scheduled, unless the queue is being freed.
\<close>

theorem fair_queue_safe:
  assumes "fq_start mtu w" "PacketPassFairQueue_Init mtu w = Some m0" "fq_run m0 es = Some m"
  shows "\<not> fq_fault m \<and>
    (\<forall>f\<in>set (fq_flows m). fq_in m f = fq_out m f @ (if fl_queued (fq_flow m f) then [fl_data (fq_flow m f)] else [])) \<and>
    (\<forall>f g. fq_sending m = Some f \<and> g \<in> set (fq_tree m) \<longrightarrow> fl_time (fq_flow m f) \<le> fl_time (fq_flow m g)) \<and>
    (\<forall>f\<in>set (fq_flows m). fl_queued (fq_flow m f) \<and> \<not> fq_freeing m \<longrightarrow> fq_sending m \<noteq> None \<or> fq_job m)"
proof -
  have "fq_tree m \<noteq> []" if "f \<in> set (fq_flows m)" "fl_queued (fq_flow m f)" for f
  proof -
    have "f \<in> set (fq_tree m)"
      using start_inv(1) [OF assms] that by (simp add: fq_inv_def fq_links_def)
    then show ?thesis
      by auto
  qed
  then show ?thesis
    using start_inv(1) [OF assms]
    by (auto simp: fq_inv_def fq_busy_def fq_ordered_def fq_packets_def ftime_def word_le_def unsigned_minus_1_eq_mask mask_eq_exp_minus_1)
qed

definition fq_sample :: "fq_event list" where
  "fq_sample = [FqFlowInit 1, FqFlowInit 2, FqSend 1 [7, 8], FqSend 2 [9], FqDone, FqSend 1 [5], FqJob]"

definition fq_sample_start :: fair_queue where
  "fq_sample_start = the (PacketPassFairQueue_Init 10 1)"

lemma sample_start: "PacketPassFairQueue_Init 10 1 = Some fq_sample_start"
  by (simp add: fq_sample_start_def PacketPassFairQueue_Init_def word_le_def unsigned_minus_1_eq_mask mask_eq_exp_minus_1)

lemmas fq_eval = fq_sample_start_def PacketPassFairQueue_Init_def fq_input_handler_send_def fq_output_handler_done_def
  schedule_job_handler_def schedule_def PacketPassFairQueueFlow_Init_def get_current_time_def tree_first_def upd_flow_def
  fq_assert_def increment_sent_flow_def compare_flows_def B_COMPARE_def Let_def word_le_def word_less_def
  unsigned_minus_1_eq_mask mask_eq_exp_minus_1

theorem fair_queue_safe_witness:
  "\<exists>m. fq_run fq_sample_start fq_sample = Some m \<and> fq_sending m = Some 2 \<and> fq_tree m = [1] \<and> \<not> fq_fault m \<and>
     fq_in m 1 = fq_out m 1 @ [[5]] \<and> fq_sending m \<noteq> None"
proof -
  obtain m where m: "fq_run fq_sample_start fq_sample = Some m" "fq_sending m = Some 2" "fq_tree m = [1]" "fq_flows m = [1, 2]"
    "fl_queued (fq_flow m 1)" "fl_data (fq_flow m 1) = [5]"
    by (simp add: fq_sample_def fq_eval)
  have "fq_start 10 1"
    by (simp add: fq_start_def)
  then show ?thesis
    using fair_queue_safe [OF _ sample_start m(1)] m by auto
qed

text \<open>
  \<^bold>\<open>C19\<close>: Flows that stay active share the output: while two flows \<open>f\<close> and \<open>g\<close> are
  queued, being sent or just done, the weight of the packets of \<open>f\<close> that are completed (the
  packet weight plus the length of each) exceeds that of \<open>g\<close> by at most the weight of one
  packet of full size, plus what \<open>f\<close> was behind \<open>g\<close> in time at the beginning. The times are
  those of the code, with the subtraction that keeps them within 64 bits.
\<close>

theorem fair_queue_fair:
  assumes "fq_start mtu w" "PacketPassFairQueue_Init mtu w = Some m0" "fq_run m0 es0 = Some m"
    and "fq_run m es = Some m'" "fq_share m es f g"
  shows "(fq_work m' f - fq_work m f) - (fq_work m' g - fq_work m g) \<le>
    max 0 (w + mtu + uint (fl_time (fq_flow m g)) - uint (fl_time (fq_flow m f)))"
  using run_share [OF start_inv(1) [OF assms(1-3)] assms(4,5)] start_inv(2,3) [OF assms(1-3)]
  by (simp add: ftime_def max_def split: if_splits)

theorem fair_queue_fair_witness:
  "\<exists>m m'. fq_run fq_sample_start [FqFlowInit 1, FqFlowInit 2, FqSend 1 [7, 8], FqSend 2 [9]] = Some m \<and>
     fq_run m [FqDone, FqSend 1 [5], FqJob, FqDone] = Some m' \<and> fq_work m' 1 = 3 \<and> fq_work m' 2 = 2 \<and>
     (fq_work m' 1 - fq_work m 1) - (fq_work m' 2 - fq_work m 2) \<le> 11"
proof -
  obtain m where m: "fq_run fq_sample_start [FqFlowInit 1, FqFlowInit 2, FqSend 1 [7, 8], FqSend 2 [9]] = Some m"
    "fl_time (fq_flow m 1) = 0" "fl_time (fq_flow m 2) = 0"
    "fq_share m [FqDone, FqSend 1 [5], FqJob, FqDone] 1 2"
    "\<exists>m'. fq_run m [FqDone, FqSend 1 [5], FqJob, FqDone] = Some m' \<and> fq_work m' 1 = 3 \<and> fq_work m' 2 = 2"
    by (simp add: fq_eval fq_active_def)
  then obtain m' where m': "fq_run m [FqDone, FqSend 1 [5], FqJob, FqDone] = Some m'" "fq_work m' 1 = 3" "fq_work m' 2 = 2"
    by blast
  have "fq_start 10 1"
    by (simp add: fq_start_def)
  then show ?thesis
    using fair_queue_fair [OF _ sample_start m(1) m'(1) m(4)] m m' by auto
qed

text \<open>
  \<^bold>\<open>C20\<close>: A queued flow is not starved: while the flow \<open>g\<close> waits in the tree, any other
  flow \<open>f\<close>, whether it stays active or comes and goes, completes packets of a weight of at
  most one packet of full size plus what \<open>f\<close> was behind \<open>g\<close> in time when the waiting began.
\<close>

theorem fair_queue_no_starvation:
  assumes "fq_start mtu w" "PacketPassFairQueue_Init mtu w = Some m0" "fq_run m0 es0 = Some m"
    and "fq_run m es = Some m'" "fq_waits m es f g" "f \<noteq> g"
  shows "fq_work m' f - fq_work m f \<le>
    max 0 (w + mtu + uint (fl_time (fq_flow m g)) - uint (fl_time (fq_flow m f)))"
  using run_wait [OF start_inv(1) [OF assms(1-3)] assms(4-6)] start_inv(2,3) [OF assms(1-3)]
  by (simp add: ftime_def max_def split: if_splits)

theorem fair_queue_no_starvation_witness:
  "\<exists>m m'. fq_run fq_sample_start [FqFlowInit 1, FqFlowInit 2, FqSend 1 [7, 8], FqSend 2 [9]] = Some m \<and>
     fq_run m [FqDone, FqSend 1 [5], FqJob] = Some m' \<and> fq_sending m' = Some 2 \<and> fq_work m' 1 = 3 \<and>
     fq_work m' 1 - fq_work m 1 \<le> 11"
proof -
  obtain m where m: "fq_run fq_sample_start [FqFlowInit 1, FqFlowInit 2, FqSend 1 [7, 8], FqSend 2 [9]] = Some m"
    "fl_time (fq_flow m 1) = 0" "fl_time (fq_flow m 2) = 0"
    "fq_waits m [FqDone, FqSend 1 [5], FqJob] 1 2"
    "\<exists>m'. fq_run m [FqDone, FqSend 1 [5], FqJob] = Some m' \<and> fq_sending m' = Some 2 \<and> fq_work m' 1 = 3"
    by (simp add: fq_eval)
  then obtain m' where m': "fq_run m [FqDone, FqSend 1 [5], FqJob] = Some m'" "fq_sending m' = Some 2" "fq_work m' 1 = 3"
    by blast
  have "fq_start 10 1" "(1 :: nat) \<noteq> 2"
    by (simp_all add: fq_start_def)
  then show ?thesis
    using fair_queue_no_starvation [OF _ sample_start m(1) m'(1) m(4)] m m' by auto
qed

text \<open>
  When nothing is queued or being sent, \<open>get_current_time\<close> is 0 while the flows keep their
  times. A flow that had the queue to itself so pays for its past when another one appears.
\<close>

definition fq_alone :: "fair_queue \<Rightarrow> nat \<Rightarrow> bool" where
  "fq_alone m n \<longleftrightarrow> fq_flows m = [0, 1] \<and> fq_sending m = None \<and> fq_previous m = None \<and> fq_tree m = [] \<and> \<not> fq_job m \<and>
     \<not> fq_freeing m \<and> \<not> fl_queued (fq_flow m 0) \<and> \<not> fl_queued (fq_flow m 1) \<and> fl_time (fq_flow m 0) = of_nat n \<and>
     fl_time (fq_flow m 1) = 0 \<and> fq_packet_weight m = 1 \<and> fq_mtu m = 10 \<and> fq_work m 1 = 0"

lemma uint_small: "n < 2 ^ 32 \<Longrightarrow> uint (of_nat n :: u64) = int n"
  by (simp add: unsigned_of_nat take_bit_nat_eq_self)

lemma no_overflow:
  assumes "n < 2 ^ 32"
  shows "\<not> (- 1 - of_nat n :: u64) < 1"
proof
  assume "(- 1 - of_nat n :: u64) < 1"
  then have "- 1 = (of_nat n :: u64)"
    by simp
  then have "int n = uint (- 1 :: u64)"
    using uint_small [OF assms] by (simp only:)
  then show False
    using assms by (simp add: unsigned_minus_1_eq_mask mask_eq_exp_minus_1)
qed

lemma small_less:
  assumes "Suc k < n" "n < 2 ^ 32"
  shows "(of_nat k + 1 :: u64) < of_nat n"
proof -
  have "(of_nat (Suc k) :: u64) < of_nat n"
    using assms uint_small [OF assms(2)] uint_small [of "Suc k"] by (simp add: word_less_def)
  then show ?thesis
    by (simp add: add.commute)
qed

lemmas fq_rounds = fq_input_handler_send_def fq_output_handler_done_def schedule_job_handler_def schedule_def
  get_current_time_def tree_first_def upd_flow_def fq_assert_def increment_sent_flow_def compare_flows_def B_COMPARE_def Let_def

lemma alone_round:
  assumes "fq_alone m n" "n < 2 ^ 32"
  shows "\<exists>m'. fq_run m [FqSend 0 [], FqDone, FqJob] = Some m' \<and> fq_alone m' (Suc n)"
  using assms no_overflow [OF assms(2)] unfolding fq_alone_def by (simp add: fq_rounds)

definition fq_behind :: "fair_queue \<Rightarrow> nat \<Rightarrow> nat \<Rightarrow> bool" where
  "fq_behind m n k \<longleftrightarrow> fq_flows m = [0, 1] \<and> fq_sending m = Some 1 \<and> fq_sending_len m = 0 \<and> fq_previous m = None \<and>
     fq_tree m = [0] \<and> \<not> fq_job m \<and> \<not> fq_freeing m \<and> fl_queued (fq_flow m 0) \<and> \<not> fl_queued (fq_flow m 1) \<and>
     fl_time (fq_flow m 0) = of_nat n \<and> fl_time (fq_flow m 1) = of_nat k \<and> fq_packet_weight m = 1 \<and> fq_mtu m = 10 \<and>
     fq_work m 1 = int k"

lemma behind_round:
  assumes "fq_behind m n k" "n < 2 ^ 32" "Suc k < n"
  shows "\<exists>m'. fq_run m [FqDone, FqSend 1 [], FqJob] = Some m' \<and> fq_waits m [FqDone, FqSend 1 [], FqJob] 1 0 \<and> fq_behind m' n (Suc k)"
proof -
  note less = small_less [OF assms(3,2)] less_not_sym [OF small_less [OF assms(3,2)]]
  show ?thesis
    using assms no_overflow [of k] less unfolding fq_behind_def by (simp add: fq_rounds)
qed

lemma fq_run_append: "fq_run m (es @ es') = (case fq_run m es of None \<Rightarrow> None | Some m' \<Rightarrow> fq_run m' es')"
  by (induction es arbitrary: m) (auto split: option.splits)

lemma fq_waits_append: "fq_run m es = Some m' \<Longrightarrow> fq_waits m (es @ es') f g \<longleftrightarrow> fq_waits m es f g \<and> fq_waits m' es' f g"
  by (induction es arbitrary: m) (auto split: option.splits)

lemma alone_reach: "n < 2 ^ 32 \<Longrightarrow> \<exists>es m. fq_run fq_sample_start es = Some m \<and> fq_alone m n"
proof (induction n)
  case 0
  have "\<exists>m. fq_run fq_sample_start [FqFlowInit 0, FqFlowInit 1] = Some m \<and> fq_alone m 0"
    by (simp add: fq_eval fq_alone_def)
  then show ?case
    by blast
next
  case (Suc n)
  then obtain es m where m: "fq_run fq_sample_start es = Some m" "fq_alone m n"
    by auto
  obtain m' where "fq_run m [FqSend 0 [], FqDone, FqJob] = Some m'" "fq_alone m' (Suc n)"
    using alone_round [OF m(2)] Suc.prems by auto
  then have "fq_run fq_sample_start (es @ [FqSend 0 [], FqDone, FqJob]) = Some m' \<and> fq_alone m' (Suc n)"
    using m(1) unfolding fq_run_append by simp
  then show ?case
    by blast
qed

lemma behind_start: "fq_alone m n \<Longrightarrow> \<exists>m'. fq_run m [FqSend 1 [], FqSend 0 []] = Some m' \<and> fq_behind m' n 0"
  unfolding fq_alone_def fq_behind_def by (simp add: fq_rounds)

lemma behind_reach:
  assumes "fq_behind m n 0" "n < 2 ^ 32" "k < n"
  shows "\<exists>es m'. fq_run m es = Some m' \<and> fq_waits m es 1 0 \<and> fq_behind m' n k"
  using assms(3)
proof (induction k)
  case 0
  have "fq_run m [] = Some m \<and> fq_waits m [] 1 0 \<and> fq_behind m n 0"
    using assms by simp
  then show ?case
    by blast
next
  case (Suc k)
  then obtain es m1 where m1: "fq_run m es = Some m1" "fq_waits m es 1 0" "fq_behind m1 n k"
    by auto
  obtain m' where m': "fq_run m1 [FqDone, FqSend 1 [], FqJob] = Some m'" "fq_waits m1 [FqDone, FqSend 1 [], FqJob] 1 0"
    "fq_behind m' n (Suc k)"
    using behind_round [OF m1(3) assms(2) Suc.prems] by blast
  then have "fq_run m (es @ [FqDone, FqSend 1 [], FqJob]) = Some m' \<and> fq_waits m (es @ [FqDone, FqSend 1 [], FqJob]) 1 0"
    using m1(1,2) unfolding fq_run_append fq_waits_append [OF m1(1)] by simp
  then show ?case
    using m'(3) by blast
qed



end
