(* ===== verification/UdpGwClient.thy ===== *)
theory UdpGwClient
  imports UdpGwProto LinkedList TreeIndex FairQueue
begin

text \<open>
  The client of a UDP gateway: \<^verbatim>\<open>udpgw_client/UdpGwClient.c\<close>. A connection stands for a pair
  of addresses and has an identifier under which the gateway knows it. The client finds
  connections in two AVL trees, by the pair of addresses and by the identifier, and reuses
  the one that was not used for the longest time when there are too many.

  The trees are those of \<open>TreeIndex\<close>, the list of connections in the order of their use is that
  of \<open>LinkedList\<close>, and the messages of the connections and the keep-alive packets pass through
  the queue of \<open>FairQueue\<close>, all with their pointers. A connection is named by its address.

  An operation returns \<open>None\<close> when an assertion of the source fails or a loop does not end;
  the lemmas show that this never happens. What \<^verbatim>\<open>malloc\<close> and the flow elements around the
  client answer is a parameter of the operations. The message writer of a connection, which
  is part of its \<^verbatim>\<open>PacketProtoFlow\<close>, has a buffer or not (\<open>gc_out_have\<close>); the messages given to it are
  kept in \<open>gc_sent\<close>.
\<close>

subsection \<open>State\<close>

record conaddr =
  ca_local :: BAddr
  ca_remote :: BAddr

record gw_connection =
  gc_conaddr :: conaddr
  gc_first_flags :: byte
  gc_first_data :: "byte list"
  gc_conid :: u16
  gc_first_job :: bool
  gc_out_have :: bool
  gc_sent :: "byte list list"

record UdpGwClient =
  gw_udp_mtu :: int
  gw_max_connections :: int
  gw_udpgw_mtu :: int
  gw_pp_mtu :: int
  gw_by_conaddr :: BAVL
  gw_by_conid :: BAVL
  gw_list :: LinkedList1
  gw_num_connections :: int
  gw_next_conid :: int
  gw_queue :: fair_queue
  gw_keepalive_packet :: "byte list"
  gw_keepalive_sending :: bool
  gw_have_server :: bool
  gw_recv_if :: bool
  gw_recv_decoder :: bool
  gw_send_sender :: bool
  gw_connected :: bool
  gw_con :: "addr \<Rightarrow> gw_connection"

text \<open>The flow of the keep-alive packets is no connection; it is named by 0.\<close>

abbreviation (input) "keepalive_qflow \<equiv> (0 :: nat)"

definition upd_con :: "addr \<Rightarrow> (gw_connection \<Rightarrow> gw_connection) \<Rightarrow> UdpGwClient \<Rightarrow> UdpGwClient" where
  "upd_con con u cl = cl\<lparr>gw_con := (gw_con cl)(con := u (gw_con cl con))\<rparr>"

subsection \<open>Connections\<close>

definition uint16_comparator :: "u16 \<Rightarrow> u16 \<Rightarrow> int" where
  "uint16_comparator v1 v2 = B_COMPARE v1 v2"

definition conaddr_comparator :: "conaddr \<Rightarrow> conaddr \<Rightarrow> int" where
  "conaddr_comparator v1 v2 =
     (let r = BAddr_CompareOrder (ca_remote v1) (ca_remote v2)
      in if r \<noteq> 0 then r else BAddr_CompareOrder (ca_local v1) (ca_local v2))"

abbreviation (input) conaddr_of :: "UdpGwClient \<Rightarrow> addr \<Rightarrow> conaddr" where
  "conaddr_of cl \<equiv> \<lambda>con. gc_conaddr (gw_con cl con)"

abbreviation (input) conid_of :: "UdpGwClient \<Rightarrow> addr \<Rightarrow> u16" where
  "conid_of cl \<equiv> \<lambda>con. gc_conid (gw_con cl con)"

definition find_connection_by_conaddr :: "UdpGwClient \<Rightarrow> conaddr \<Rightarrow> addr option" where
  "find_connection_by_conaddr cl conaddr = BAVL_LookupExact conaddr_comparator (conaddr_of cl) (gw_by_conaddr cl) conaddr"

definition find_connection_by_conid :: "UdpGwClient \<Rightarrow> u16 \<Rightarrow> addr option" where
  "find_connection_by_conid cl conid = BAVL_LookupExact uint16_comparator (conid_of cl) (gw_by_conid cl) conid"

text \<open>The loop of \<open>find_unused_conid\<close>, which may not end.\<close>

partial_function (option) unused_conid_from :: "UdpGwClient \<Rightarrow> int \<Rightarrow> int option" where
  "unused_conid_from cl next_conid = do {
     con \<leftarrow> find_connection_by_conid cl (of_int next_conid);
     if con = NULL then Some next_conid
     else unused_conid_from cl (if next_conid = gw_max_connections cl - 1 then 0 else next_conid + 1)
   }"

definition find_unused_conid :: "UdpGwClient \<Rightarrow> (UdpGwClient \<times> u16) option" where
  "find_unused_conid cl = do {
     ASSERT (gw_num_connections cl < gw_max_connections cl);
     next_conid \<leftarrow> unused_conid_from cl (gw_next_conid cl);
     Some (cl\<lparr>gw_next_conid := next_conid\<rparr>, of_int next_conid)
   }"

definition insert_by_conaddr :: "UdpGwClient \<Rightarrow> addr \<Rightarrow> UdpGwClient option" where
  "insert_by_conaddr cl con = do {
     (tree, res, ref) \<leftarrow> BAVL_Insert conaddr_comparator (conaddr_of cl) (gw_by_conaddr cl) con;
     ASSERT res;
     Some (cl\<lparr>gw_by_conaddr := tree\<rparr>)
   }"

definition insert_by_conid :: "UdpGwClient \<Rightarrow> addr \<Rightarrow> UdpGwClient option" where
  "insert_by_conid cl con = do {
     (tree, res, ref) \<leftarrow> BAVL_Insert uint16_comparator (conid_of cl) (gw_by_conid cl) con;
     ASSERT res;
     Some (cl\<lparr>gw_by_conid := tree\<rparr>)
   }"

definition move_to_end :: "UdpGwClient \<Rightarrow> addr \<Rightarrow> UdpGwClient" where
  "move_to_end cl con = cl\<lparr>gw_list := LinkedList1_Append (LinkedList1_Remove (gw_list cl) con) con\<rparr>"

text \<open>
  \<open>con\<close> is the address \<^verbatim>\<open>malloc\<close> returns, or \<open>NULL\<close>, and \<open>flow_ok\<close> whether \<^verbatim>\<open>PacketProtoFlow_Init\<close>
  succeeds. The data of the first packet is read when the job runs, before the buffer it
  lies in is used again.
\<close>

definition connection_init :: "UdpGwClient \<Rightarrow> conaddr \<Rightarrow> byte \<Rightarrow> byte list \<Rightarrow> addr \<Rightarrow> bool \<Rightarrow> UdpGwClient option" where
  "connection_init cl conaddr flags data con flow_ok = do {
     ASSERT (gw_num_connections cl < gw_max_connections cl);
     other \<leftarrow> find_connection_by_conaddr cl conaddr;
     ASSERT (other = NULL);
     ASSERT (int (length data) \<le> gw_udp_mtu cl);
     if con = NULL then Some cl
     else do {
       let cl = upd_con con (\<lambda>c. c\<lparr>gc_conaddr := conaddr, gc_first_flags := flags, gc_first_data := data\<rparr>) cl;
       (cl, conid) \<leftarrow> find_unused_conid cl;
       let cl = upd_con con (\<lambda>c. c\<lparr>gc_conid := conid, gc_first_job := True\<rparr>) cl;
       let cl = cl\<lparr>gw_queue := PacketPassFairQueueFlow_Init con (gw_queue cl)\<rparr>;
       if \<not> flow_ok then
         Some (upd_con con (gc_first_job_update (\<lambda>_. False)) (cl\<lparr>gw_queue := PacketPassFairQueueFlow_Free con (gw_queue cl)\<rparr>))
       else do {
         let cl = upd_con con (\<lambda>c. c\<lparr>gc_out_have := False, gc_sent := []\<rparr>) cl;
         cl \<leftarrow> insert_by_conaddr cl con;
         cl \<leftarrow> insert_by_conid cl con;
         Some (cl\<lparr>gw_list := LinkedList1_Append (gw_list cl) con, gw_num_connections := gw_num_connections cl + 1\<rparr>)
       }
     }
   }"

definition connection_free :: "UdpGwClient \<Rightarrow> addr \<Rightarrow> UdpGwClient option" where
  "connection_free cl con = do {
     ASSERT (fq_freeing (gw_queue cl) \<or> fq_sending (gw_queue cl) \<noteq> Some con);
     let cl = cl\<lparr>gw_num_connections := gw_num_connections cl - 1, gw_list := LinkedList1_Remove (gw_list cl) con\<rparr>;
     tree \<leftarrow> BAVL_Remove (gw_by_conid cl) con;
     let cl = cl\<lparr>gw_by_conid := tree\<rparr>;
     tree \<leftarrow> BAVL_Remove (gw_by_conaddr cl) con;
     let cl = cl\<lparr>gw_by_conaddr := tree, gw_queue := PacketPassFairQueueFlow_Free con (gw_queue cl)\<rparr>;
     Some (upd_con con (gc_first_job_update (\<lambda>_. False)) cl)
   }"

text \<open>The assertion on the length of the message is that of \<^verbatim>\<open>BufferWriter_EndPacket\<close>.\<close>

definition connection_send :: "UdpGwClient \<Rightarrow> addr \<Rightarrow> byte \<Rightarrow> byte list \<Rightarrow> UdpGwClient option" where
  "connection_send cl con flags data = do {
     ASSERT (int (length data) \<le> gw_udp_mtu cl);
     let c = gw_con cl con;
     if \<not> gc_out_have c then Some cl
     else do {
       let remote = ca_remote (gc_conaddr c);
       let flags = (if BAddr_type remote = 2 then flags OR UDPGW_CLIENT_FLAG_IPV6 else flags);
       let out = udpgw_header_bytes (ltoh8 flags) (ltoh16 (gc_conid c)) @ udpgw_addr_bytes remote @ data;
       ASSERT (int (length out) \<le> gw_udpgw_mtu cl);
       Some (upd_con con (\<lambda>c. c\<lparr>gc_out_have := False, gc_sent := gc_sent c @ [out]\<rparr>) cl)
     }
   }"

definition connection_first_job_handler :: "UdpGwClient \<Rightarrow> addr \<Rightarrow> UdpGwClient option" where
  "connection_first_job_handler cl con =
     connection_send cl con (UDPGW_CLIENT_FLAG_REBIND OR gc_first_flags (gw_con cl con)) (gc_first_data (gw_con cl con))"

definition reuse_connection :: "UdpGwClient \<Rightarrow> conaddr \<Rightarrow> (UdpGwClient \<times> addr) option" where
  "reuse_connection cl conaddr = do {
     other \<leftarrow> find_connection_by_conaddr cl conaddr;
     ASSERT (other = NULL);
     ASSERT (gw_num_connections cl > 0);
     let con = LinkedList1_GetFirst (gw_list cl);
     tree \<leftarrow> BAVL_Remove (gw_by_conaddr cl) con;
     let cl = upd_con con (gc_conaddr_update (\<lambda>_. conaddr)) (cl\<lparr>gw_by_conaddr := tree\<rparr>);
     cl \<leftarrow> insert_by_conaddr cl con;
     Some (cl, con)
   }"

subsection \<open>Interface\<close>

text \<open>\<open>mem\<close> is the memory of the nodes before, of no importance; the result is \<open>None\<close> when the initialization fails.\<close>

definition UdpGwClient_Init :: "UdpGwClient \<Rightarrow> int \<Rightarrow> int \<Rightarrow> UdpGwClient option" where
  "UdpGwClient_Init mem udp_mtu max_connections = do {
     ASSERT (udp_mtu \<ge> 0 \<and> udpgw_compute_mtu udp_mtu \<ge> 0 \<and> udpgw_compute_mtu udp_mtu \<le> 65535 \<and> max_connections > 0);
     let udpgw_mtu = udpgw_compute_mtu udp_mtu;
     let pp_mtu = udpgw_mtu + 2;
     queue \<leftarrow> PacketPassFairQueue_Init pp_mtu 1;
     let queue = PacketPassFairQueueFlow_Init keepalive_qflow queue;
     Some (mem\<lparr>gw_udp_mtu := udp_mtu,
            gw_max_connections := (if max_connections > UINT16_MAX + 1 then UINT16_MAX + 1 else max_connections),
            gw_udpgw_mtu := udpgw_mtu, gw_pp_mtu := pp_mtu, gw_by_conaddr := BAVL_Init (gw_by_conaddr mem),
            gw_by_conid := BAVL_Init (gw_by_conid mem), gw_list := LinkedList1_Init (gw_list mem), gw_num_connections := 0,
            gw_next_conid := 0, gw_queue := queue,
            gw_keepalive_packet := bytes16 3 @ udpgw_header_bytes UDPGW_CLIENT_FLAG_KEEPALIVE 0,
            gw_keepalive_sending := False, gw_have_server := False\<rparr>)
   }"

definition free_server :: "UdpGwClient \<Rightarrow> UdpGwClient option" where
  "free_server cl = do {
     ASSERT (gw_connected cl);
     let cl = cl\<lparr>gw_connected := False\<rparr>;
     ASSERT (gw_send_sender cl);
     let cl = cl\<lparr>gw_send_sender := False\<rparr>;
     ASSERT (gw_recv_decoder cl);
     let cl = cl\<lparr>gw_recv_decoder := False\<rparr>;
     ASSERT (gw_recv_if cl);
     Some (cl\<lparr>gw_recv_if := False\<rparr>)
   }"

text \<open>The loop that frees the connections may not end.\<close>

partial_function (option) free_connections :: "UdpGwClient \<Rightarrow> UdpGwClient option" where
  "free_connections cl =
     (if LinkedList1_IsEmpty (gw_list cl) then Some cl
      else do {
        cl \<leftarrow> connection_free cl (LinkedList1_GetFirst (gw_list cl));
        free_connections cl
      })"

definition UdpGwClient_Free :: "UdpGwClient \<Rightarrow> UdpGwClient option" where
  "UdpGwClient_Free cl = do {
     let cl = cl\<lparr>gw_queue := PacketPassFairQueue_PrepareFree (gw_queue cl)\<rparr>;
     cl \<leftarrow> free_connections cl;
     cl \<leftarrow> (if gw_have_server cl then free_server cl else Some cl);
     let cl = cl\<lparr>gw_queue := PacketPassFairQueueFlow_Free keepalive_qflow (gw_queue cl)\<rparr>;
     let cl = cl\<lparr>gw_queue := PacketPassFairQueue_Free (gw_queue cl)\<rparr>;
     ASSERT (\<not> fq_fault (gw_queue cl));
     Some cl
   }"

definition UdpGwClient_SubmitPacket ::
  "UdpGwClient \<Rightarrow> BAddr \<Rightarrow> BAddr \<Rightarrow> bool \<Rightarrow> byte list \<Rightarrow> addr \<Rightarrow> bool \<Rightarrow> UdpGwClient option" where
  "UdpGwClient_SubmitPacket cl local_addr remote_addr is_dns data mem flow_ok = do {
     ASSERT (BAddr_type local_addr \<in> {1, 2} \<and> BAddr_type remote_addr \<in> {1, 2} \<and> int (length data) \<le> gw_udp_mtu cl);
     let conaddr = \<lparr>ca_local = local_addr, ca_remote = remote_addr\<rparr>;
     con \<leftarrow> find_connection_by_conaddr cl conaddr;
     let flags = (if is_dns then UDPGW_CLIENT_FLAG_DNS else 0);
     (cl, con, flags) \<leftarrow>
       (if con = NULL \<and> gw_num_connections cl = gw_max_connections cl
        then do { (cl, con) \<leftarrow> reuse_connection cl conaddr; Some (cl, con, flags OR UDPGW_CLIENT_FLAG_REBIND) }
        else Some (cl, con, flags));
     if con = NULL then connection_init cl conaddr flags data mem flow_ok
     else connection_send (move_to_end cl con) con flags data
   }"

definition UdpGwClient_ConnectServer :: "UdpGwClient \<Rightarrow> bool \<Rightarrow> (UdpGwClient \<times> bool) option" where
  "UdpGwClient_ConnectServer cl decoder_ok = do {
     ASSERT (\<not> gw_have_server cl);
     let cl = cl\<lparr>gw_recv_if := True\<rparr>;
     if \<not> decoder_ok then Some (cl\<lparr>gw_recv_if := False\<rparr>, False)
     else Some (cl\<lparr>gw_recv_decoder := True, gw_send_sender := True, gw_connected := True, gw_have_server := True\<rparr>, True)
   }"

definition UdpGwClient_DisconnectServer :: "UdpGwClient \<Rightarrow> UdpGwClient option" where
  "UdpGwClient_DisconnectServer cl = do {
     ASSERT (gw_have_server cl);
     cl \<leftarrow> free_server cl;
     Some (cl\<lparr>gw_have_server := False\<rparr>)
   }"

subsection \<open>Handlers\<close>

text \<open>The second component is what is passed to the user: the two addresses and the data.\<close>

definition recv_interface_handler_send :: "UdpGwClient \<Rightarrow> byte list \<Rightarrow> (UdpGwClient \<times> (BAddr \<times> BAddr \<times> byte list) option) option" where
  "recv_interface_handler_send cl data = do {
     ASSERT (gw_have_server cl \<and> int (length data) \<le> gw_udpgw_mtu cl);
     if length data < 3 then Some (cl, None)
     else do {
       let flags = ltoh8 (data ! 0);
       let conid = ltoh16 (mem16 (data ! 1) (data ! 2));
       case udpgw_read_addr (flags AND UDPGW_CLIENT_FLAG_IPV6 \<noteq> 0) (drop 3 data) of
         None \<Rightarrow> Some (cl, None)
       | Some (remote_addr, data) \<Rightarrow>
           if int (length data) > gw_udp_mtu cl then Some (cl, None)
           else do {
             con \<leftarrow> find_connection_by_conid cl conid;
             if con = NULL then Some (cl, None)
             else if BAddr_CompareOrder (ca_remote (conaddr_of cl con)) remote_addr \<noteq> 0 then Some (cl, None)
             else Some (move_to_end cl con, Some (ca_local (conaddr_of cl con), ca_remote (conaddr_of cl con), data))
           }
     }
   }"

definition send_monitor_handler :: "UdpGwClient \<Rightarrow> UdpGwClient option" where
  "send_monitor_handler cl =
     (if gw_keepalive_sending cl then Some cl
      else do {
        queue \<leftarrow> fq_step (gw_queue cl) (FqSend keepalive_qflow (gw_keepalive_packet cl));
        Some (cl\<lparr>gw_queue := queue, gw_keepalive_sending := True\<rparr>)
      })"

definition keepalive_if_handler_done :: "UdpGwClient \<Rightarrow> UdpGwClient option" where
  "keepalive_if_handler_done cl = do {
     ASSERT (gw_keepalive_sending cl);
     Some (cl\<lparr>gw_keepalive_sending := False\<rparr>)
   }"

text \<open>
  An event of the queue. When the output is done with a packet of the keep-alive flow, the
  job that this schedules calls \<open>keepalive_if_handler_done\<close> before anything else happens.
\<close>

definition queue_event :: "UdpGwClient \<Rightarrow> fq_event \<Rightarrow> UdpGwClient option" where
  "queue_event cl e = do {
     queue \<leftarrow> fq_step (gw_queue cl) e;
     let keepalive = (e = FqDone \<and> fq_sending (gw_queue cl) = Some keepalive_qflow);
     let cl = cl\<lparr>gw_queue := queue\<rparr>;
     if keepalive then keepalive_if_handler_done cl else Some cl
   }"

subsection \<open>Events\<close>

datatype gw_event =
    GwSubmit BAddr BAddr bool "byte list" addr bool
  | GwReceive "byte list"
  | GwFirstJob addr
  | GwBuffer addr
  | GwMonitor
  | GwQueue fq_event
  | GwConnect bool
  | GwDisconnect

text \<open>
  What can happen: packets come from the device and from the gateway, a pending first job
  runs, the writer of a connection gets a buffer, nothing was sent for a while, the queue
  does its work, and the connection to the gateway comes and goes. The live connections
  are the flows of the queue besides the keep-alive flow.
\<close>

definition gw_live :: "UdpGwClient \<Rightarrow> addr \<Rightarrow> bool" where
  "gw_live cl con \<longleftrightarrow> con \<noteq> NULL \<and> con \<in> set (fq_flows (gw_queue cl))"

fun queue_enabled :: "UdpGwClient \<Rightarrow> fq_event \<Rightarrow> bool" where
  "queue_enabled cl (FqSend con d) \<longleftrightarrow> gw_live cl con \<and> fq_step (gw_queue cl) (FqSend con d) \<noteq> None"
| "queue_enabled cl FqDone \<longleftrightarrow> fq_step (gw_queue cl) FqDone \<noteq> None"
| "queue_enabled cl FqJob \<longleftrightarrow> fq_step (gw_queue cl) FqJob \<noteq> None"
| "queue_enabled cl e \<longleftrightarrow> False"

fun gw_enabled :: "UdpGwClient \<Rightarrow> gw_event \<Rightarrow> bool" where
  "gw_enabled cl (GwSubmit l r dns data mem ok) \<longleftrightarrow>
     BAddr_is_ip l \<and> BAddr_is_ip r \<and> int (length data) \<le> gw_udp_mtu cl \<and> \<not> gw_live cl mem"
| "gw_enabled cl (GwReceive data) \<longleftrightarrow> gw_have_server cl \<and> int (length data) \<le> gw_udpgw_mtu cl"
| "gw_enabled cl (GwFirstJob con) \<longleftrightarrow> gw_live cl con \<and> gc_first_job (gw_con cl con)"
| "gw_enabled cl (GwBuffer con) \<longleftrightarrow> gw_live cl con \<and> \<not> gc_out_have (gw_con cl con)"
| "gw_enabled cl GwMonitor \<longleftrightarrow> True"
| "gw_enabled cl (GwQueue e) \<longleftrightarrow> queue_enabled cl e"
| "gw_enabled cl (GwConnect ok) \<longleftrightarrow> \<not> gw_have_server cl"
| "gw_enabled cl GwDisconnect \<longleftrightarrow> gw_have_server cl"

fun gw_step :: "UdpGwClient \<Rightarrow> gw_event \<Rightarrow> UdpGwClient option" where
  "gw_step cl (GwSubmit l r dns data mem ok) = UdpGwClient_SubmitPacket cl l r dns data mem ok"
| "gw_step cl (GwReceive data) = do { (cl, up) \<leftarrow> recv_interface_handler_send cl data; Some cl }"
| "gw_step cl (GwFirstJob con) = connection_first_job_handler (upd_con con (gc_first_job_update (\<lambda>_. False)) cl) con"
| "gw_step cl (GwBuffer con) = Some (upd_con con (gc_out_have_update (\<lambda>_. True)) cl)"
| "gw_step cl GwMonitor = send_monitor_handler cl"
| "gw_step cl (GwQueue e) = queue_event cl e"
| "gw_step cl (GwConnect ok) = do { (cl, res) \<leftarrow> UdpGwClient_ConnectServer cl ok; Some cl }"
| "gw_step cl GwDisconnect = UdpGwClient_DisconnectServer cl"

fun gw_exec :: "UdpGwClient \<Rightarrow> gw_event list \<Rightarrow> UdpGwClient option" where
  "gw_exec cl [] = Some cl"
| "gw_exec cl (e # es) = do { cl \<leftarrow> gw_step cl e; gw_exec cl es }"

fun gw_possible :: "UdpGwClient \<Rightarrow> gw_event list \<Rightarrow> bool" where
  "gw_possible cl [] \<longleftrightarrow> True"
| "gw_possible cl (e # es) \<longleftrightarrow> gw_enabled cl e \<and> (case gw_step cl e of None \<Rightarrow> True | Some cl' \<Rightarrow> gw_possible cl' es)"

subsection \<open>The tables\<close>

lemma conaddr_comparator_lex:
  "conaddr_comparator a b = B_COMPARE_COMBINE (BAddr_CompareOrder (ca_remote a) (ca_remote b)) (BAddr_CompareOrder (ca_local a) (ca_local b))"
  by (simp add: conaddr_comparator_def B_COMPARE_COMBINE_def Let_def)

interpretation by_conaddr: cmp_order conaddr_comparator
proof -
  have "cmp_order (\<lambda>a b. conaddr_comparator a b)"
    unfolding conaddr_comparator_lex
    by (intro cmp_order_combine cmp_order_pullback [where c = BAddr_CompareOrder and f = ca_remote]
        cmp_order_pullback [where c = BAddr_CompareOrder and f = ca_local] baddr.cmp_order_axioms)
  then show "cmp_order conaddr_comparator" .
qed

interpretation by_conid: cmp_order uint16_comparator
proof -
  have "cmp_order (\<lambda>a b. uint16_comparator a b)"
    unfolding uint16_comparator_def by (rule bcompare.cmp_order_axioms)
  then show "cmp_order uint16_comparator" .
qed

lemma uint16_comparator_0 [simp]: "uint16_comparator a b = 0 \<longleftrightarrow> a = b"
  by (simp add: uint16_comparator_def)

definition conaddr_ip :: "conaddr \<Rightarrow> bool" where
  "conaddr_ip a \<longleftrightarrow> BAddr_is_ip (ca_local a) \<and> BAddr_is_ip (ca_remote a)"

lemma conaddr_comparator_0: "conaddr_ip a \<Longrightarrow> conaddr_comparator a b = 0 \<longleftrightarrow> a = b"
  by (cases a; cases b) (auto simp: conaddr_ip_def conaddr_comparator_def BAddr_CompareOrder_eq_0_iff Let_def)

text \<open>
  The invariant, in the list \<open>cs\<close> of the connections in the order of their use: the tables and
  the list hold the same connections, the identifiers are in range, the configuration does
  not change, the flows of the queue are those of the connections and the keep-alive
  flow, and the parts that belong to a server exist when there is one.
\<close>

definition gw_tables :: "UdpGwClient \<Rightarrow> addr list \<Rightarrow> bool" where
  "gw_tables cl cs \<longleftrightarrow> ll_rep (gw_list cl) cs \<and> indexes conaddr_comparator (conaddr_of cl) (gw_by_conaddr cl) (set cs) \<and>
     indexes uint16_comparator (conid_of cl) (gw_by_conid cl) (set cs) \<and> gw_num_connections cl = int (length cs)"

definition gw_ids :: "UdpGwClient \<Rightarrow> addr list \<Rightarrow> bool" where
  "gw_ids cl cs \<longleftrightarrow> int (length cs) \<le> gw_max_connections cl \<and> 0 \<le> gw_next_conid cl \<and> gw_next_conid cl < gw_max_connections cl \<and>
     gw_max_connections cl \<le> 65536 \<and>
     (\<forall>c\<in>set cs. uint (conid_of cl c) < gw_max_connections cl \<and> conaddr_ip (conaddr_of cl c) \<and>
        int (length (gc_first_data (gw_con cl c))) \<le> gw_udp_mtu cl)"

definition gw_config :: "UdpGwClient \<Rightarrow> bool" where
  "gw_config cl \<longleftrightarrow> 0 \<le> gw_udp_mtu cl \<and> gw_udpgw_mtu cl = gw_udp_mtu cl + 22 \<and> gw_pp_mtu cl = gw_udpgw_mtu cl + 2 \<and>
     fq_mtu (gw_queue cl) = gw_pp_mtu cl \<and> length (gw_keepalive_packet cl) = 5"

definition gw_flows :: "UdpGwClient \<Rightarrow> addr list \<Rightarrow> bool" where
  "gw_flows cl cs \<longleftrightarrow> fq_inv (gw_queue cl) \<and> set (fq_flows (gw_queue cl)) = insert keepalive_qflow (set cs)"

definition gw_keepalive :: "UdpGwClient \<Rightarrow> bool" where
  "gw_keepalive cl \<longleftrightarrow> \<not> fq_freeing (gw_queue cl) \<and> (gw_keepalive_sending cl \<longleftrightarrow> fq_pending (gw_queue cl) keepalive_qflow)"

definition gw_server :: "UdpGwClient \<Rightarrow> bool" where
  "gw_server cl \<longleftrightarrow> (gw_have_server cl \<longrightarrow> gw_recv_if cl \<and> gw_recv_decoder cl \<and> gw_send_sender cl \<and> gw_connected cl)"

definition gw_inv :: "UdpGwClient \<Rightarrow> addr list \<Rightarrow> bool" where
  "gw_inv cl cs \<longleftrightarrow> gw_tables cl cs \<and> gw_ids cl cs \<and> gw_config cl \<and> gw_flows cl cs \<and> gw_keepalive cl \<and> gw_server cl"

lemma tables_nodes: "gw_tables cl cs \<Longrightarrow> distinct cs \<and> NULL \<notin> set cs"
  using linked.rep_nodes by (auto simp: gw_tables_def)

lemma live_iff: "gw_inv cl cs \<Longrightarrow> gw_live cl con \<longleftrightarrow> con \<in> set cs"
  using tables_nodes [of cl cs] unfolding gw_inv_def gw_live_def gw_flows_def by (metis insert_iff)

lemma find_by_conaddr:
  assumes "gw_tables cl cs" "conaddr_ip a"
  obtains "find_connection_by_conaddr cl a = Some NULL" "\<forall>c\<in>set cs. conaddr_of cl c \<noteq> a"
  | c where "find_connection_by_conaddr cl a = Some c" "c \<in> set cs" "c \<noteq> NULL" "conaddr_of cl c = a"
proof -
  have "indexes conaddr_comparator (conaddr_of cl) (gw_by_conaddr cl) (set cs)"
    using assms(1) by (simp add: gw_tables_def)
  then show ?thesis
    using that conaddr_comparator_0 [OF assms(2)] unfolding find_connection_by_conaddr_def
    by (cases rule: by_conaddr.index_lookup [where k = a]) fastforce+
qed

lemma find_by_conid:
  assumes "gw_tables cl cs"
  obtains "find_connection_by_conid cl i = Some NULL" "\<forall>c\<in>set cs. conid_of cl c \<noteq> i"
  | c where "find_connection_by_conid cl i = Some c" "c \<in> set cs" "c \<noteq> NULL" "conid_of cl c = i"
proof -
  have "indexes uint16_comparator (conid_of cl) (gw_by_conid cl) (set cs)"
    using assms(1) by (simp add: gw_tables_def)
  then show ?thesis
    using that unfolding find_connection_by_conid_def
    by (cases rule: by_conid.index_lookup [where k = i]) fastforce+
qed

lemma conaddr_unique:
  assumes "gw_tables cl cs" "c \<in> set cs" "d \<in> set cs" "conaddr_of cl c = conaddr_of cl d"
  shows "c = d"
  using assms by_conaddr.index_inj [of "conaddr_of cl" "gw_by_conaddr cl" "set cs" c d] by (simp add: gw_tables_def)

lemma conid_unique:
  assumes "gw_tables cl cs" "c \<in> set cs" "d \<in> set cs" "conid_of cl c = conid_of cl d"
  shows "c = d"
  using assms by_conid.index_inj [of "conid_of cl" "gw_by_conid cl" "set cs" c d] by (simp add: gw_tables_def)

lemma tables_cong:
  assumes "gw_list cl' = gw_list cl" "gw_by_conaddr cl' = gw_by_conaddr cl" "gw_by_conid cl' = gw_by_conid cl"
    "gw_num_connections cl' = gw_num_connections cl"
    "\<forall>c\<in>set cs. conaddr_of cl' c = conaddr_of cl c \<and> conid_of cl' c = conid_of cl c"
  shows "gw_tables cl' cs = gw_tables cl cs"
  using assms index_cong [of "set cs" "conaddr_of cl'" "conaddr_of cl"] index_cong [of "set cs" "conid_of cl'" "conid_of cl"]
  by (simp add: gw_tables_def)

lemma upd_con_fields [simp]:
  "gw_list (upd_con con u cl) = gw_list cl" "gw_by_conaddr (upd_con con u cl) = gw_by_conaddr cl"
  "gw_by_conid (upd_con con u cl) = gw_by_conid cl" "gw_num_connections (upd_con con u cl) = gw_num_connections cl"
  "gw_max_connections (upd_con con u cl) = gw_max_connections cl" "gw_next_conid (upd_con con u cl) = gw_next_conid cl"
  "gw_queue (upd_con con u cl) = gw_queue cl" "gw_udp_mtu (upd_con con u cl) = gw_udp_mtu cl"
  "gw_udpgw_mtu (upd_con con u cl) = gw_udpgw_mtu cl" "gw_con (upd_con con u cl) = (gw_con cl)(con := u (gw_con cl con))"
  "gw_config (upd_con con u cl) = gw_config cl" "gw_flows (upd_con con u cl) cs = gw_flows cl cs" "gw_server (upd_con con u cl) = gw_server cl"
  "gw_keepalive (upd_con con u cl) = gw_keepalive cl"
  by (simp_all add: upd_con_def gw_config_def gw_flows_def gw_server_def gw_keepalive_def)

subsection \<open>Unused identifiers\<close>

lemma diff_mod:
  assumes "0 \<le> a" "a < (n :: int)" "0 \<le> b" "b < n"
  shows "(a - b) mod n = (if b \<le> a then a - b else a - b + n)"
proof (cases "b \<le> a")
  case False
  have "(a - b) mod n = (a - b + n) mod n"
    by simp
  also have "\<dots> = a - b + n"
    using False assms by (intro mod_pos_pos_trivial) auto
  finally show ?thesis
    using False by simp
qed (use assms in simp)

lemma cyclic_step:
  assumes "0 \<le> i" "i < (n :: int)" "0 \<le> u" "u < n" "i \<noteq> u"
  defines "j \<equiv> if i = n - 1 then 0 else i + 1"
  shows "nat ((u - j) mod n) < nat ((u - i) mod n) \<and> 0 \<le> j \<and> j < n"
  using assms diff_mod [of u n i] diff_mod [of u n j] by auto

lemma unused_exists:
  assumes "int (length cs) < (n :: int)" "n \<le> 65536"
  shows "\<exists>u. 0 \<le> u \<and> u < n \<and> (\<forall>c\<in>set cs. conid_of cl c \<noteq> of_int u)"
proof -
  let ?used = "(\<lambda>c. uint (conid_of cl c)) ` set cs"
  have "card ?used \<le> length cs"
    using card_image_le [of "set cs"] card_length [of cs] by (meson List.finite_set le_trans)
  then have "card ?used < card {0..<n}"
    using assms(1) by simp
  then have "\<not> {0..<n} \<subseteq> ?used"
    using card_mono [of ?used "{0..<n}"] by auto
  then obtain u where u: "0 \<le> u" "u < n" "u \<notin> ?used"
    unfolding subset_iff by auto
  then have "uint (of_int u :: u16) = u"
    using assms(2) by (simp add: unsigned_of_int take_bit_int_eq_self)
  then show ?thesis
    using u by (intro exI [of _ u]) force
qed

text \<open>
  The search comes to an unused identifier: it goes round the identifiers, and as there
  are fewer connections than identifiers one of them is not used.
\<close>

lemma unused_conid_from_ok:
  assumes "gw_tables cl cs" "int (length cs) < gw_max_connections cl" "gw_max_connections cl \<le> 65536"
    "0 \<le> i" "i < gw_max_connections cl"
  shows "\<exists>j. unused_conid_from cl i = Some j \<and> 0 \<le> j \<and> j < gw_max_connections cl \<and> (\<forall>c\<in>set cs. conid_of cl c \<noteq> of_int j)"
proof -
  obtain u where u: "0 \<le> u" "u < gw_max_connections cl" "\<forall>c\<in>set cs. conid_of cl c \<noteq> of_int u"
    using unused_exists [OF assms(2,3)] by blast
  show ?thesis
    using assms(4,5)
  proof (induction "nat ((u - i) mod gw_max_connections cl)" arbitrary: i rule: less_induct)
    case less
    from assms(1) show ?case
    proof (cases rule: find_by_conid [where i = "of_int i"])
      case 1
      then show ?thesis
        using less.prems by (subst unused_conid_from.simps) simp
    next
      case (2 c)
      let ?j = "if i = gw_max_connections cl - 1 then 0 else i + 1"
      have "i \<noteq> u"
        using 2 u(3) by auto
      then have "nat ((u - ?j) mod gw_max_connections cl) < nat ((u - i) mod gw_max_connections cl)" "0 \<le> ?j" "?j < gw_max_connections cl"
        using cyclic_step [OF less.prems u(1,2)] by blast+
      then have "\<exists>j. unused_conid_from cl ?j = Some j \<and> 0 \<le> j \<and> j < gw_max_connections cl \<and> (\<forall>c\<in>set cs. conid_of cl c \<noteq> of_int j)"
        by (rule less.hyps)
      then show ?thesis
        using 2 by (subst unused_conid_from.simps) simp
    qed
  qed
qed

lemma find_unused_conid_ok:
  assumes "gw_tables cl cs" "gw_ids cl cs" "int (length cs) < gw_max_connections cl"
  shows "\<exists>i. find_unused_conid cl = Some (cl\<lparr>gw_next_conid := uint i\<rparr>, i) \<and> uint i < gw_max_connections cl \<and> (\<forall>c\<in>set cs. conid_of cl c \<noteq> i)"
proof -
  obtain j where j: "unused_conid_from cl (gw_next_conid cl) = Some j" "0 \<le> j" "j < gw_max_connections cl"
    "\<forall>c\<in>set cs. conid_of cl c \<noteq> of_int j"
    using unused_conid_from_ok [OF assms(1,3), of "gw_next_conid cl"] assms(2) by (auto simp: gw_ids_def)
  moreover have "uint (of_int j :: u16) = j"
    using j assms(2) by (simp add: gw_ids_def unsigned_of_int take_bit_int_eq_self)
  moreover have "gw_num_connections cl < gw_max_connections cl"
    using assms(1,3) by (simp add: gw_tables_def)
  ultimately show ?thesis
    by (intro exI [of _ "of_int j"]) (simp add: find_unused_conid_def)
qed

subsection \<open>Operations on the tables\<close>

lemma move_to_end_ok:
  assumes "gw_tables cl cs" "c \<in> set cs"
  shows "gw_tables (move_to_end cl c) (remove1 c cs @ [c])"
proof -
  have "set (remove1 c cs @ [c]) = set cs" "length (remove1 c cs @ [c]) = length cs"
    using assms tables_nodes by (auto simp: length_remove1 dest: length_pos_if_in_set)
  then show ?thesis
    using assms linked.rep_touch [of "gw_list cl" cs c] by (simp add: gw_tables_def move_to_end_def)
qed

lemma insert_by_conaddr_ok:
  assumes "indexes conaddr_comparator (conaddr_of cl) (gw_by_conaddr cl) A" "con \<notin> A" "con \<noteq> NULL"
    "conaddr_ip (conaddr_of cl con)" "\<forall>a\<in>A. conaddr_of cl a \<noteq> conaddr_of cl con"
  shows "\<exists>t. insert_by_conaddr cl con = Some (cl\<lparr>gw_by_conaddr := t\<rparr>) \<and> indexes conaddr_comparator (conaddr_of cl) t (insert con A)"
proof -
  have "\<forall>a\<in>A. conaddr_comparator (conaddr_of cl con) (conaddr_of cl a) \<noteq> 0"
    using assms(4,5) by (auto simp: conaddr_comparator_0)
  then show ?thesis
    using by_conaddr.index_insert [OF assms(1-3)] by (auto simp: insert_by_conaddr_def)
qed

lemma insert_by_conid_ok:
  assumes "indexes uint16_comparator (conid_of cl) (gw_by_conid cl) A" "con \<notin> A" "con \<noteq> NULL" "\<forall>a\<in>A. conid_of cl a \<noteq> conid_of cl con"
  shows "\<exists>t. insert_by_conid cl con = Some (cl\<lparr>gw_by_conid := t\<rparr>) \<and> indexes uint16_comparator (conid_of cl) t (insert con A)"
proof -
  have "\<forall>a\<in>A. uint16_comparator (conid_of cl con) (conid_of cl a) \<noteq> 0"
    using assms(4) by auto
  then show ?thesis
    using by_conid.index_insert [OF assms(1-3)] by (auto simp: insert_by_conid_def)
qed

subsection \<open>Operations keep the invariant\<close>

text \<open>The table of the connections in the order of their use.\<close>

definition gw_table :: "UdpGwClient \<Rightarrow> addr list \<Rightarrow> (conaddr \<times> u16) list" where
  "gw_table cl cs = map (\<lambda>c. (conaddr_of cl c, conid_of cl c)) cs"

lemma length_gw_table [simp]: "length (gw_table cl cs) = length cs"
  by (simp add: gw_table_def)

lemma inv_upd_con:
  assumes "\<And>x. gc_conaddr (u x) = gc_conaddr x \<and> gc_conid (u x) = gc_conid x \<and> gc_first_data (u x) = gc_first_data x"
  shows "gw_inv (upd_con con u cl) cs = gw_inv cl cs" "gw_table (upd_con con u cl) cs = gw_table cl cs"
proof -
  have "gw_tables (upd_con con u cl) cs = gw_tables cl cs"
    by (rule tables_cong) (simp_all add: assms)
  then show "gw_inv (upd_con con u cl) cs = gw_inv cl cs"
    by (auto simp: gw_inv_def gw_ids_def assms)
  show "gw_table (upd_con con u cl) cs = gw_table cl cs"
    by (simp add: gw_table_def assms)
qed

definition gw_message :: "conaddr \<Rightarrow> u16 \<Rightarrow> byte \<Rightarrow> byte list \<Rightarrow> byte list" where
  "gw_message a conid flags data =
     udpgw_header_bytes (if BAddr_type (ca_remote a) = 2 then flags OR UDPGW_CLIENT_FLAG_IPV6 else flags) conid @
     udpgw_addr_bytes (ca_remote a) @ data"

lemma connection_send_eq:
  assumes "gw_inv cl cs" "c \<in> set cs" "int (length data) \<le> gw_udp_mtu cl"
  shows "connection_send cl c flags data =
    Some (if gc_out_have (gw_con cl c)
      then upd_con c (\<lambda>x. x\<lparr>gc_out_have := False, gc_sent := gc_sent x @ [gw_message (conaddr_of cl c) (conid_of cl c) flags data]\<rparr>) cl
      else cl)"
proof -
  have ip: "BAddr_is_ip (ca_remote (conaddr_of cl c))" and mtu: "gw_udpgw_mtu cl = gw_udp_mtu cl + 22"
    using assms(1,2) by (auto simp: gw_inv_def gw_ids_def gw_config_def conaddr_ip_def)
  have "int (length (gw_message (conaddr_of cl c) (conid_of cl c) flags data)) \<le> gw_udpgw_mtu cl" for flags
    using length_udpgw_addr_bytes [OF ip] assms(3) mtu by (simp add: gw_message_def)
  then show ?thesis
    using assms(3) by (auto simp: connection_send_def gw_message_def byteorder_defs Let_def)
qed

lemma connection_send_inv:
  assumes "gw_inv cl cs" "c \<in> set cs" "int (length data) \<le> gw_udp_mtu cl"
  shows "\<exists>cl'. connection_send cl c flags data = Some cl' \<and> gw_inv cl' cs \<and> gw_table cl' cs = gw_table cl cs"
  using assms(1) unfolding connection_send_eq [OF assms] by (auto simp: inv_upd_con)

lemma move_to_end_inv:
  assumes "gw_inv cl cs" "c \<in> set cs"
  shows "gw_inv (move_to_end cl c) (remove1 c cs @ [c])" "gw_table (move_to_end cl c) xs = gw_table cl xs"
    "gw_udp_mtu (move_to_end cl c) = gw_udp_mtu cl"
proof -
  have "set (remove1 c cs @ [c]) = set cs" "length (remove1 c cs @ [c]) = length cs"
    using assms tables_nodes by (auto simp: gw_inv_def length_remove1 dest: length_pos_if_in_set)
  then show "gw_inv (move_to_end cl c) (remove1 c cs @ [c])"
    using assms move_to_end_ok [of cl cs c] unfolding gw_inv_def
    by (simp add: gw_ids_def gw_config_def gw_flows_def gw_keepalive_def gw_server_def) (simp add: move_to_end_def)
  show "gw_table (move_to_end cl c) xs = gw_table cl xs" "gw_udp_mtu (move_to_end cl c) = gw_udp_mtu cl"
    by (simp_all add: gw_table_def move_to_end_def)
qed

lemma reuse_connection_ok:
  assumes "gw_inv cl (c # cs)" "conaddr_ip a" "find_connection_by_conaddr cl a = Some NULL" "\<forall>d\<in>set (c # cs). conaddr_of cl d \<noteq> a"
  shows "\<exists>cl'. reuse_connection cl a = Some (cl', c) \<and> gw_inv cl' (c # cs) \<and> gw_udp_mtu cl' = gw_udp_mtu cl \<and>
    gw_table cl' (c # cs) = (a, conid_of cl c) # gw_table cl cs \<and> gw_con cl' c = (gw_con cl c)\<lparr>gc_conaddr := a\<rparr>"
proof -
  have tb: "gw_tables cl (c # cs)" and c: "c \<notin> set cs" "c \<noteq> NULL"
    using assms(1) tables_nodes [of cl "c # cs"] by (auto simp: gw_inv_def)
  have first: "LinkedList1_GetFirst (gw_list cl) = c" and num: "gw_num_connections cl > 0"
    using tb linked.rep_first [of "gw_list cl" "c # cs"] by (auto simp: gw_tables_def)
  obtain t where t: "BAVL_Remove (gw_by_conaddr cl) c = Some t" "indexes conaddr_comparator (conaddr_of cl) t (set cs)"
    using by_conaddr.index_remove [of "conaddr_of cl" "gw_by_conaddr cl" "set (c # cs)" c] tb c(1) by (auto simp: gw_tables_def)
  define cl1 where "cl1 = upd_con c (gc_conaddr_update (\<lambda>_. a)) (cl\<lparr>gw_by_conaddr := t\<rparr>)"
  have cl1: "\<And>d. conaddr_of cl1 d = (if d = c then a else conaddr_of cl d)" "\<And>d. conid_of cl1 d = conid_of cl d" "gw_by_conaddr cl1 = t"
    by (auto simp: cl1_def)
  have "\<forall>d\<in>set cs. conaddr_of cl1 d = conaddr_of cl d"
    using c(1) by (auto simp: cl1)
  from index_cong [OF this] have idx: "indexes conaddr_comparator (conaddr_of cl1) (gw_by_conaddr cl1) (set cs)"
    using t(2) cl1(3) by simp
  have "conaddr_ip (conaddr_of cl1 c)" "\<forall>d\<in>set cs. conaddr_of cl1 d \<noteq> conaddr_of cl1 c"
    using assms(2,4) c(1) by (auto simp: cl1(1))
  from insert_by_conaddr_ok [OF idx c this] obtain t' where t': "insert_by_conaddr cl1 c = Some (cl1\<lparr>gw_by_conaddr := t'\<rparr>)"
    "indexes conaddr_comparator (conaddr_of cl1) t' (set (c # cs))"
    by auto
  define cl' where "cl' = cl1\<lparr>gw_by_conaddr := t'\<rparr>"
  have "reuse_connection cl a = Some (cl', c)"
    using assms(3) num first t(1) t'(1) by (simp add: reuse_connection_def cl1_def cl'_def Let_def)
  moreover have "gw_tables cl' (c # cs)"
    using tb t'(2) cl1(2) by (simp add: gw_tables_def cl'_def) (simp add: cl1_def)
  moreover have "gw_ids cl' (c # cs)" "gw_config cl'" "gw_flows cl' (c # cs)" "gw_keepalive cl'" "gw_server cl'" "gw_udp_mtu cl' = gw_udp_mtu cl"
    using assms(1,2) by (auto simp: gw_inv_def gw_ids_def gw_config_def gw_flows_def gw_keepalive_def gw_server_def cl'_def cl1_def upd_con_def)
  moreover have "gw_table cl' (c # cs) = (a, conid_of cl c) # gw_table cl cs"
    using c(1) cl1 by (auto simp: gw_table_def cl'_def)
  moreover have "gw_con cl' c = (gw_con cl c)\<lparr>gc_conaddr := a\<rparr>"
    by (simp add: cl'_def cl1_def)
  ultimately show ?thesis
    by (auto simp: gw_inv_def)
qed

lemma queue_flow_init:
  assumes "fq_inv q" "con \<notin> set (fq_flows q)" "\<not> fq_freeing q"
  defines "q' \<equiv> PacketPassFairQueueFlow_Init con q"
  shows "fq_inv q'" "set (fq_flows q') = insert con (set (fq_flows q))" "\<not> fq_freeing q'" "fq_mtu q' = fq_mtu q"
    "f \<noteq> con \<Longrightarrow> fq_pending q' f = fq_pending q f" "\<not> fq_pending q' con"
proof -
  show "fq_inv q'"
    unfolding q'_def by (rule flow_init_inv(1) [OF assms(1-3)])
  have "fq_sending q \<noteq> Some con"
    using assms(1,2) by (auto simp: fq_inv_def fq_links_def)
  then show "set (fq_flows q') = insert con (set (fq_flows q))" "\<not> fq_freeing q'" "fq_mtu q' = fq_mtu q"
    "f \<noteq> con \<Longrightarrow> fq_pending q' f = fq_pending q f" "\<not> fq_pending q' con"
    using assms(3) by (auto simp: q'_def PacketPassFairQueueFlow_Init_def upd_flow_def fq_assert_def fq_pending_def Let_def)
qed

lemma queue_flow_free:
  assumes "fq_inv q" "con \<in> set (fq_flows q)" "fq_freeing q \<or> fq_sending q \<noteq> Some con"
  defines "q' \<equiv> PacketPassFairQueueFlow_Free con q"
  shows "fq_inv q'" "set (fq_flows q') = set (fq_flows q) - {con}" "fq_freeing q' = fq_freeing q" "fq_mtu q' = fq_mtu q"
    "f \<noteq> con \<Longrightarrow> fq_pending q' f = fq_pending q f"
proof -
  show "fq_inv q'"
    unfolding q'_def by (rule flow_free_inv(1) [OF assms(1-3)])
  have "fl_queued (fq_flow q con) \<or> con \<notin> set (fq_tree q)" "distinct (fq_flows q)"
    using assms(1) by (auto simp: fq_inv_def fq_links_def)
  then show "set (fq_flows q') = set (fq_flows q) - {con}" "fq_freeing q' = fq_freeing q" "fq_mtu q' = fq_mtu q"
    "f \<noteq> con \<Longrightarrow> fq_pending q' f = fq_pending q f"
    using Flow_Free_eq [OF assms(3)] by (auto simp: q'_def fq_pending_def)
qed

lemma inv_upd_new:
  assumes "con \<notin> set cs"
  shows "gw_inv (upd_con con u cl) cs = gw_inv cl cs" "gw_table (upd_con con u cl) cs = gw_table cl cs"
proof -
  have "gw_tables (upd_con con u cl) cs = gw_tables cl cs"
    by (rule tables_cong) (use assms in auto)
  moreover have "gw_ids (upd_con con u cl) cs = gw_ids cl cs"
    using assms by (auto simp: gw_ids_def)
  ultimately show "gw_inv (upd_con con u cl) cs = gw_inv cl cs"
    by (simp add: gw_inv_def)
  show "gw_table (upd_con con u cl) cs = gw_table cl cs"
    using assms by (auto simp: gw_table_def)
qed

text \<open>The new connection up to the point where its flow exists.\<close>

definition new_connection :: "UdpGwClient \<Rightarrow> conaddr \<Rightarrow> byte \<Rightarrow> byte list \<Rightarrow> addr \<Rightarrow> u16 \<Rightarrow> UdpGwClient" where
  "new_connection cl a flags data con i =
     (upd_con con (\<lambda>c. c\<lparr>gc_conid := i, gc_first_job := True\<rparr>)
       ((upd_con con (\<lambda>c. c\<lparr>gc_conaddr := a, gc_first_flags := flags, gc_first_data := data\<rparr>) cl)\<lparr>gw_next_conid := uint i\<rparr>))
     \<lparr>gw_queue := PacketPassFairQueueFlow_Init con (gw_queue cl)\<rparr>"

lemma new_connection_ok:
  fixes a flags data
  assumes "gw_inv cl cs" "con \<notin> set cs" "con \<noteq> NULL" "uint i < gw_max_connections cl"
  defines "cl1 \<equiv> new_connection cl a flags data con i"
  shows "gw_tables cl1 cs" "gw_ids cl1 cs" "gw_config cl1" "gw_flows cl1 (cs @ [con])" "gw_keepalive cl1" "gw_server cl1"
    "gw_table cl1 cs = gw_table cl cs" "conaddr_of cl1 con = a" "conid_of cl1 con = i" "gc_first_data (gw_con cl1 con) = data"
    "\<forall>c\<in>set cs. conaddr_of cl1 c = conaddr_of cl c \<and> conid_of cl1 c = conid_of cl c"
    "fq_sending (gw_queue cl1) \<noteq> Some con" "gw_udp_mtu cl1 = gw_udp_mtu cl" "gw_max_connections cl1 = gw_max_connections cl"
proof -
  have q: "fq_inv (gw_queue cl)" "con \<notin> set (fq_flows (gw_queue cl))" "\<not> fq_freeing (gw_queue cl)"
    using assms(1-3) by (auto simp: gw_inv_def gw_flows_def gw_keepalive_def)
  note q' = queue_flow_init [OF q]
  show other: "\<forall>c\<in>set cs. conaddr_of cl1 c = conaddr_of cl c \<and> conid_of cl1 c = conid_of cl c"
    using assms(2) by (auto simp: cl1_def new_connection_def)
  have "gw_tables cl1 cs = gw_tables cl cs"
    by (rule tables_cong) (use other in \<open>auto simp: cl1_def new_connection_def\<close>)
  then show "gw_tables cl1 cs"
    using assms(1) by (simp add: gw_inv_def)
  show "gw_ids cl1 cs" "gw_config cl1" "gw_server cl1"
    using assms(1,2,4) q'(4) by (auto simp: gw_inv_def gw_ids_def gw_config_def gw_server_def cl1_def new_connection_def upd_con_def)
  show "gw_flows cl1 (cs @ [con])" "gw_keepalive cl1"
    using assms(1,3) q' by (auto simp: gw_inv_def gw_flows_def gw_keepalive_def cl1_def new_connection_def upd_con_def)
  show "gw_table cl1 cs = gw_table cl cs"
    using other by (simp add: gw_table_def)
  show "conaddr_of cl1 con = a" "conid_of cl1 con = i" "gc_first_data (gw_con cl1 con) = data" "gw_udp_mtu cl1 = gw_udp_mtu cl"
    "gw_max_connections cl1 = gw_max_connections cl"
    by (simp_all add: cl1_def new_connection_def)
  show "fq_sending (gw_queue cl1) \<noteq> Some con"
    using q'(6) by (simp add: cl1_def new_connection_def fq_pending_def)
qed

lemma connection_init_eq:
  assumes "gw_inv cl cs" "con \<notin> set cs" "con \<noteq> NULL" "int (length cs) < gw_max_connections cl"
    "find_connection_by_conaddr cl a = Some NULL" "int (length data) \<le> gw_udp_mtu cl"
  shows "\<exists>i. uint i < gw_max_connections cl \<and> (\<forall>c\<in>set cs. conid_of cl c \<noteq> i) \<and>
    connection_init cl a flags data con flow_ok =
      (let cl = new_connection cl a flags data con i in
       if \<not> flow_ok then
         Some (upd_con con (gc_first_job_update (\<lambda>_. False)) (cl\<lparr>gw_queue := PacketPassFairQueueFlow_Free con (gw_queue cl)\<rparr>))
       else do {
         cl \<leftarrow> insert_by_conaddr (upd_con con (\<lambda>c. c\<lparr>gc_out_have := False, gc_sent := []\<rparr>) cl) con;
         cl \<leftarrow> insert_by_conid cl con;
         Some (cl\<lparr>gw_list := LinkedList1_Append (gw_list cl) con, gw_num_connections := gw_num_connections cl + 1\<rparr>)
       })"
proof -
  define cl1 where "cl1 = upd_con con (\<lambda>c. c\<lparr>gc_conaddr := a, gc_first_flags := flags, gc_first_data := data\<rparr>) cl"
  have "gw_inv cl1 cs"
    unfolding cl1_def inv_upd_new(1) [OF assms(2)] by (rule assms(1))
  then obtain i where i: "find_unused_conid cl1 = Some (cl1\<lparr>gw_next_conid := uint i\<rparr>, i)" "uint i < gw_max_connections cl1"
    "\<forall>c\<in>set cs. conid_of cl1 c \<noteq> i"
    using find_unused_conid_ok [of cl1 cs] assms(4) by (auto simp: gw_inv_def cl1_def)
  have "conid_of cl c \<noteq> i" if "c \<in> set cs" for c
    using i(3) that assms(2) by (cases "c = con") (auto simp: cl1_def)
  moreover have "gw_num_connections cl < gw_max_connections cl"
    using assms(1,4) by (simp add: gw_inv_def gw_tables_def)
  ultimately show ?thesis
    using i(2) assms(3,5,6) i(1) [unfolded cl1_def]
    by (intro exI [of _ i]) (simp add: connection_init_def new_connection_def cl1_def Let_def upd_con_def)
qed

lemma connection_init_failed:
  fixes a flags data
  assumes "gw_inv cl cs" "con \<notin> set cs" "con \<noteq> NULL" "uint i < gw_max_connections cl"
  defines "cl1 \<equiv> new_connection cl a flags data con i"
  defines "cl' \<equiv> upd_con con (gc_first_job_update (\<lambda>_. False)) (cl1\<lparr>gw_queue := PacketPassFairQueueFlow_Free con (gw_queue cl1)\<rparr>)"
  shows "gw_inv cl' cs" "gw_table cl' cs = gw_table cl cs"
proof -
  note n = new_connection_ok [OF assms(1-4), of a flags data, folded cl1_def]
  have q: "fq_inv (gw_queue cl1)" "con \<in> set (fq_flows (gw_queue cl1))"
    using n(4) by (auto simp: gw_flows_def)
  note q' = queue_flow_free [OF q disjI2 [OF n(12)]]
  have t: "gw_tables (cl1\<lparr>gw_queue := q\<rparr>) cs = gw_tables cl1 cs" for q
    by (rule tables_cong) auto
  have "gw_inv (cl1\<lparr>gw_queue := PacketPassFairQueueFlow_Free con (gw_queue cl1)\<rparr>) cs"
    using n q' assms(2,3) by (auto simp: gw_inv_def t) (auto simp: gw_ids_def gw_config_def gw_flows_def gw_keepalive_def gw_server_def)
  then show "gw_inv cl' cs" "gw_table cl' cs = gw_table cl cs"
    using n(7) by (auto simp: cl'_def inv_upd_con gw_table_def)
qed

lemma connection_init_done:
  fixes flags
  assumes "gw_inv cl cs" "con \<notin> set cs" "con \<noteq> NULL" "uint i < gw_max_connections cl"
    "\<forall>c\<in>set cs. conid_of cl c \<noteq> i" "conaddr_ip a" "\<forall>c\<in>set cs. conaddr_of cl c \<noteq> a" "int (length data) \<le> gw_udp_mtu cl"
    "int (length cs) < gw_max_connections cl"
  defines "cl1 \<equiv> upd_con con (\<lambda>c. c\<lparr>gc_out_have := False, gc_sent := []\<rparr>) (new_connection cl a flags data con i)"
  shows "\<exists>cl'. do {
      cl \<leftarrow> insert_by_conaddr cl1 con;
      cl \<leftarrow> insert_by_conid cl con;
      Some (cl\<lparr>gw_list := LinkedList1_Append (gw_list cl) con, gw_num_connections := gw_num_connections cl + 1\<rparr>)
    } = Some cl' \<and> gw_inv cl' (cs @ [con]) \<and> gw_table cl' (cs @ [con]) = gw_table cl cs @ [(a, i)] \<and>
    gw_con cl' con = gw_con cl1 con"
proof -
  note n = new_connection_ok [OF assms(1-4), of a flags data]
  have c1: "conaddr_of cl1 con = a" "conid_of cl1 con = i" "\<forall>c\<in>set cs. conaddr_of cl1 c = conaddr_of cl c \<and> conid_of cl1 c = conid_of cl c"
    using n(8,9,11) assms(2) by (auto simp: cl1_def)
  have "gw_tables cl1 cs"
    using n(1) assms(2) unfolding cl1_def by (subst tables_cong [of _ "new_connection cl a flags data con i"]) auto
  then have t: "ll_rep (gw_list cl1) cs" "indexes conaddr_comparator (conaddr_of cl1) (gw_by_conaddr cl1) (set cs)"
    "indexes uint16_comparator (conid_of cl1) (gw_by_conid cl1) (set cs)" "gw_num_connections cl1 = int (length cs)"
    by (auto simp: gw_tables_def)
  have "conaddr_ip (conaddr_of cl1 con)" "\<forall>c\<in>set cs. conaddr_of cl1 c \<noteq> conaddr_of cl1 con"
    using c1 assms(6,7) by auto
  from insert_by_conaddr_ok [OF t(2) assms(2,3) this] obtain t1 where
    t1: "insert_by_conaddr cl1 con = Some (cl1\<lparr>gw_by_conaddr := t1\<rparr>)" "indexes conaddr_comparator (conaddr_of cl1) t1 (insert con (set cs))"
    by blast
  have "\<forall>c\<in>set cs. conid_of cl1 c \<noteq> conid_of cl1 con"
    using c1 assms(5) by auto
  with t(3) have "\<exists>t. insert_by_conid (cl1\<lparr>gw_by_conaddr := t1\<rparr>) con = Some (cl1\<lparr>gw_by_conaddr := t1, gw_by_conid := t\<rparr>) \<and>
      indexes uint16_comparator (conid_of cl1) t (insert con (set cs))"
    using insert_by_conid_ok [of "cl1\<lparr>gw_by_conaddr := t1\<rparr>" "set cs" con] assms(2,3) by simp
  then obtain t2 where t2: "insert_by_conid (cl1\<lparr>gw_by_conaddr := t1\<rparr>) con = Some (cl1\<lparr>gw_by_conaddr := t1, gw_by_conid := t2\<rparr>)"
    "indexes uint16_comparator (conid_of cl1) t2 (insert con (set cs))"
    by blast
  define cl' where "cl' = cl1\<lparr>gw_by_conaddr := t1, gw_by_conid := t2, gw_list := LinkedList1_Append (gw_list cl1) con,
    gw_num_connections := gw_num_connections cl1 + 1\<rparr>"
  have "gw_tables cl' (cs @ [con])"
    using t t1(2) t2(2) linked.rep_append [OF t(1) assms(2,3)] by (simp add: gw_tables_def cl'_def)
  moreover have "gw_ids cl' (cs @ [con])"
    using n(2,8,9,10,13,14) assms(4,6,8,9) assms(2) by (auto simp: gw_ids_def cl'_def cl1_def)
  moreover have "gw_config cl'" "gw_flows cl' (cs @ [con])" "gw_keepalive cl'" "gw_server cl'"
    using n(3-6) by (simp_all add: cl'_def cl1_def gw_config_def gw_flows_def gw_keepalive_def gw_server_def upd_con_def)
  moreover have "gw_table cl' (cs @ [con]) = gw_table cl cs @ [(a, i)]"
    using c1 by (simp add: gw_table_def cl'_def)
  moreover have "gw_con cl' con = gw_con cl1 con"
    by (simp add: cl'_def)
  ultimately show ?thesis
    using t1(1) t2(1) by (auto simp: gw_inv_def cl'_def)
qed

end
