(* ===== verification/UdpGwCorrect.thy ===== *)
theory UdpGwCorrect
  imports UdpGwClient
begin

text \<open>
  What the client of the UDP gateway guarantees: its connections are a table that forgets
  the least recently used pair of addresses, packets are sent under the identifier of their
  pair and answers come back to it, and the client can be freed at any time.
\<close>

subsection \<open>Packets from the device\<close>

text \<open>
  The specification: a table of pairs of addresses with their identifiers, the least
  recently used first. A packet of a known pair moves it to the end; otherwise the first
  entry changes its pair when the table is full, and if not a new entry with the identifier
  \<open>new\<close> is added, unless there is no memory for it (\<open>None\<close>).
\<close>

definition lru_submit :: "int \<Rightarrow> (conaddr \<times> u16) list \<Rightarrow> conaddr \<Rightarrow> u16 option \<Rightarrow> (conaddr \<times> u16) list" where
  "lru_submit n tbl a new =
     (case map_of tbl a of
        Some i \<Rightarrow> remove1 (a, i) tbl @ [(a, i)]
      | None \<Rightarrow>
          if int (length tbl) = n then tl tbl @ [(a, snd (hd tbl))]
          else case new of None \<Rightarrow> tbl | Some i \<Rightarrow> tbl @ [(a, i)])"

text \<open>
  What becomes of the packet: an existing connection sends it, if it has a buffer, with the
  flag that announces a new pair when it was reused; a new one keeps it for its first job.
\<close>

definition gw_submitted :: "UdpGwClient \<Rightarrow> UdpGwClient \<Rightarrow> addr \<Rightarrow> conaddr \<Rightarrow> byte \<Rightarrow> byte list \<Rightarrow> bool" where
  "gw_submitted cl cl' c a flags data \<longleftrightarrow> conaddr_of cl' c = a \<and>
     (if gw_live cl c then
        let flags = (if conaddr_of cl c = a then flags else flags OR UDPGW_CLIENT_FLAG_REBIND) in
        gc_sent (gw_con cl' c) = gc_sent (gw_con cl c) @
          (if gc_out_have (gw_con cl c) then [gw_message a (conid_of cl c) flags data] else [])
      else gc_sent (gw_con cl' c) = [] \<and> gc_first_job (gw_con cl' c) \<and> gc_first_flags (gw_con cl' c) = flags \<and>
        gc_first_data (gw_con cl' c) = data)"

lemma map_remove1_inj: "inj_on f (set xs) \<Longrightarrow> x \<in> set xs \<Longrightarrow> map f (remove1 x xs) = remove1 (f x) (map f xs)"
  by (induction xs) (auto simp: inj_on_def)

lemma table_inj: "gw_tables cl cs \<Longrightarrow> inj_on (\<lambda>c. (conaddr_of cl c, conid_of cl c)) (set cs)"
  using conaddr_unique by (auto simp: inj_on_def)

lemma map_of_table:
  assumes "gw_tables cl cs"
  shows "c \<in> set cs \<Longrightarrow> map_of (gw_table cl cs) (conaddr_of cl c) = Some (conid_of cl c)"
    and "\<forall>c\<in>set cs. conaddr_of cl c \<noteq> a \<Longrightarrow> map_of (gw_table cl cs) a = None"
proof -
  have "distinct (map (conaddr_of cl) cs)"
    using conaddr_unique [OF assms] tables_nodes [OF assms] by (auto simp: distinct_map inj_on_def)
  then have "distinct (map fst (gw_table cl cs))"
    by (simp add: gw_table_def comp_def)
  then show "c \<in> set cs \<Longrightarrow> map_of (gw_table cl cs) (conaddr_of cl c) = Some (conid_of cl c)"
    by (intro map_of_is_SomeI) (auto simp: gw_table_def)
  show "\<forall>c\<in>set cs. conaddr_of cl c \<noteq> a \<Longrightarrow> map_of (gw_table cl cs) a = None"
    by (auto simp: map_of_eq_None_iff gw_table_def)
qed

lemma send_existing:
  assumes "gw_inv cl cs" "c \<in> set cs" "int (length data) \<le> gw_udp_mtu cl"
  shows "\<exists>cl'. connection_send (move_to_end cl c) c flags data = Some cl' \<and> gw_inv cl' (remove1 c cs @ [c]) \<and>
    gw_table cl' (remove1 c cs @ [c]) = remove1 (conaddr_of cl c, conid_of cl c) (gw_table cl cs) @ [(conaddr_of cl c, conid_of cl c)] \<and>
    gw_con cl' c = (if gc_out_have (gw_con cl c) then (gw_con cl c)\<lparr>gc_out_have := False, gc_sent := gc_sent (gw_con cl c) @
      [gw_message (conaddr_of cl c) (conid_of cl c) flags data]\<rparr> else gw_con cl c)"
proof -
  define cl1 where "cl1 = move_to_end cl c"
  have m: "gw_inv cl1 (remove1 c cs @ [c])" "\<And>xs. gw_table cl1 xs = gw_table cl xs" "gw_udp_mtu cl1 = gw_udp_mtu cl" "gw_con cl1 = gw_con cl"
    using move_to_end_inv [OF assms(1,2)] by (simp_all add: cl1_def move_to_end_def)
  have "gw_table cl (remove1 c cs @ [c]) = remove1 (conaddr_of cl c, conid_of cl c) (gw_table cl cs) @ [(conaddr_of cl c, conid_of cl c)]"
    using map_remove1_inj [OF table_inj assms(2)] assms(1) by (simp add: gw_table_def gw_inv_def)
  moreover have "c \<in> set (remove1 c cs @ [c])"
    by simp
  ultimately show ?thesis
    using m connection_send_eq [OF m(1), of c data flags] assms(3) by (auto simp: cl1_def [symmetric] inv_upd_con)
qed

lemma submit_found:
  assumes "gw_inv cl cs" "c \<in> set cs" "find_connection_by_conaddr cl a = Some c" "c \<noteq> NULL" "conaddr_of cl c = a"
    "BAddr_is_ip l" "BAddr_is_ip r" "int (length data) \<le> gw_udp_mtu cl" "a = \<lparr>ca_local = l, ca_remote = r\<rparr>"
  shows "\<exists>cl'. UdpGwClient_SubmitPacket cl l r dns data mem ok = Some cl' \<and> gw_inv cl' (remove1 c cs @ [c]) \<and>
    gw_table cl' (remove1 c cs @ [c]) = lru_submit n (gw_table cl cs) a new \<and>
    gw_submitted cl cl' c a (if dns then UDPGW_CLIENT_FLAG_DNS else 0) data"
proof -
  have ty: "BAddr_type l \<in> {1, 2}" "BAddr_type r \<in> {1, 2}"
    using assms(6,7) by (cases l; cases r; simp)+
  have "map_of (gw_table cl cs) a = Some (conid_of cl c)"
    using map_of_table(1) [of cl cs c] assms(1,2,5) by (simp add: gw_inv_def)
  then have l: "lru_submit n (gw_table cl cs) a new = remove1 (a, conid_of cl c) (gw_table cl cs) @ [(a, conid_of cl c)]"
    by (simp add: lru_submit_def)
  define flags :: byte where "flags = (if dns then UDPGW_CLIENT_FLAG_DNS else 0)"
  have "UdpGwClient_SubmitPacket cl l r dns data mem ok = connection_send (move_to_end cl c) c flags data"
    using ty assms(3,4,8,9) by (simp add: UdpGwClient_SubmitPacket_def Let_def flags_def)
  then show ?thesis
    using send_existing [OF assms(1,2,8), of flags] assms(2,5) l by (auto simp: gw_submitted_def flags_def live_iff [OF assms(1)])
qed

lemma submit_reused:
  assumes "gw_inv cl cs" "find_connection_by_conaddr cl a = Some NULL" "\<forall>c\<in>set cs. conaddr_of cl c \<noteq> a"
    "int (length cs) = gw_max_connections cl"
    "BAddr_is_ip l" "BAddr_is_ip r" "int (length data) \<le> gw_udp_mtu cl" "a = \<lparr>ca_local = l, ca_remote = r\<rparr>"
  shows "\<exists>cl'. UdpGwClient_SubmitPacket cl l r dns data mem ok = Some cl' \<and> gw_inv cl' (tl cs @ [hd cs]) \<and>
    gw_table cl' (tl cs @ [hd cs]) = lru_submit (gw_max_connections cl) (gw_table cl cs) a new \<and>
    gw_submitted cl cl' (hd cs) a (if dns then UDPGW_CLIENT_FLAG_DNS else 0) data"
proof -
  have ty: "BAddr_type l \<in> {1, 2}" "BAddr_type r \<in> {1, 2}" and ip: "conaddr_ip a"
    using assms(5,6,8) by (cases l; cases r; simp add: conaddr_ip_def)+
  have "cs \<noteq> []"
    using assms(1,4) by (auto simp: gw_inv_def gw_ids_def)
  then obtain c cs' where cs: "cs = c # cs'"
    by (cases cs) auto
  have "c \<noteq> NULL"
    using assms(1) tables_nodes [of cl cs] by (auto simp: gw_inv_def cs)
  obtain cl1 where r: "reuse_connection cl a = Some (cl1, c)" "gw_inv cl1 cs" "gw_udp_mtu cl1 = gw_udp_mtu cl"
    "gw_table cl1 cs = (a, conid_of cl c) # gw_table cl cs'"
    "gw_con cl1 c = (gw_con cl c)\<lparr>gc_conaddr := a\<rparr>"
    using reuse_connection_ok [of cl c cs' a] assms(1-3) ip by (auto simp: cs)
  define flags :: byte where "flags = (if dns then UDPGW_CLIENT_FLAG_DNS else 0)"
  have "UdpGwClient_SubmitPacket cl l r dns data mem ok = connection_send (move_to_end cl1 c) c (flags OR UDPGW_CLIENT_FLAG_REBIND) data"
    using ty assms(1,2,4,7,8) r(1) \<open>c \<noteq> NULL\<close> by (simp add: UdpGwClient_SubmitPacket_def Let_def flags_def gw_inv_def gw_tables_def)
  moreover have "map_of (gw_table cl cs) a = None"
    using map_of_table(2) [of cl cs a] assms(1,3) by (simp add: gw_inv_def)
  then have "lru_submit (gw_max_connections cl) (gw_table cl cs) a new = gw_table cl cs' @ [(a, conid_of cl c)]"
    using assms(4) by (simp add: lru_submit_def gw_table_def cs)
  ultimately show ?thesis
    using send_existing [OF r(2), of c data "flags OR UDPGW_CLIENT_FLAG_REBIND"] assms(3,7) r(3-5)
    by (auto simp: gw_submitted_def flags_def live_iff [OF assms(1) [unfolded cs]] cs)
qed

lemma submit_new:
  assumes "gw_inv cl cs" "find_connection_by_conaddr cl a = Some NULL" "\<forall>c\<in>set cs. conaddr_of cl c \<noteq> a"
    "int (length cs) < gw_max_connections cl" "mem \<notin> set cs"
    "BAddr_is_ip l" "BAddr_is_ip r" "int (length data) \<le> gw_udp_mtu cl" "a = \<lparr>ca_local = l, ca_remote = r\<rparr>"
  shows "\<exists>cl' cs' new. UdpGwClient_SubmitPacket cl l r dns data mem ok = Some cl' \<and> gw_inv cl' cs' \<and>
    gw_table cl' cs' = lru_submit (gw_max_connections cl) (gw_table cl cs) a new \<and>
    (new = None \<longleftrightarrow> mem = NULL \<or> \<not> ok) \<and> (\<forall>i. new = Some i \<longrightarrow> uint i < gw_max_connections cl \<and> i \<notin> snd ` set (gw_table cl cs)) \<and>
    (mem \<noteq> NULL \<and> ok \<longrightarrow> cs' = cs @ [mem] \<and> gw_submitted cl cl' mem a (if dns then UDPGW_CLIENT_FLAG_DNS else 0) data)"
proof -
  have ty: "BAddr_type l \<in> {1, 2}" "BAddr_type r \<in> {1, 2}" and ip: "conaddr_ip a"
    using assms(6,7,9) by (cases l; cases r; simp add: conaddr_ip_def)+
  define flags :: byte where "flags = (if dns then UDPGW_CLIENT_FLAG_DNS else 0)"
  have num: "gw_num_connections cl = int (length cs)"
    using assms(1) by (simp add: gw_inv_def gw_tables_def)
  have s: "UdpGwClient_SubmitPacket cl l r dns data mem ok = connection_init cl a flags data mem ok"
    using ty assms(2,4,8,9) num by (simp add: UdpGwClient_SubmitPacket_def Let_def flags_def)
  have "map_of (gw_table cl cs) a = None"
    using map_of_table(2) [of cl cs a] assms(1,3) by (simp add: gw_inv_def)
  then have lru: "lru_submit (gw_max_connections cl) (gw_table cl cs) a new = gw_table cl cs @ (case new of None \<Rightarrow> [] | Some i \<Rightarrow> [(a, i)])" for new
    using assms(4) by (auto simp: lru_submit_def gw_table_def split: option.splits)
  show ?thesis
  proof (cases "mem = NULL")
    case True
    then have "connection_init cl a flags data mem ok = Some cl"
      using assms(2,4,8) num by (simp add: connection_init_def)
    then show ?thesis
      using s assms(1) True lru [of None] by (intro exI [of _ cl] exI [of _ cs] exI [of _ None]) simp
  next
    case False
    obtain i where i: "uint i < gw_max_connections cl" "\<forall>c\<in>set cs. conid_of cl c \<noteq> i"
      and eq: "connection_init cl a flags data mem ok =
        (let cl = new_connection cl a flags data mem i in
         if \<not> ok then
           Some (upd_con mem (gc_first_job_update (\<lambda>_. False)) (cl\<lparr>gw_queue := PacketPassFairQueueFlow_Free mem (gw_queue cl)\<rparr>))
         else do {
           cl \<leftarrow> insert_by_conaddr (upd_con mem (\<lambda>c. c\<lparr>gc_out_have := False, gc_sent := []\<rparr>) cl) mem;
           cl \<leftarrow> insert_by_conid cl mem;
           Some (cl\<lparr>gw_list := LinkedList1_Append (gw_list cl) mem, gw_num_connections := gw_num_connections cl + 1\<rparr>)
         })"
      using connection_init_eq [OF assms(1,5) False assms(4,2,8)] by blast
    show ?thesis
    proof (cases ok)
      case False
      then show ?thesis
        using connection_init_failed [OF assms(1,5) \<open>mem \<noteq> NULL\<close> i(1), of a flags data] s eq lru [of None] \<open>mem \<noteq> NULL\<close>
        by (intro exI [of _ cs] exI [of _ None] exI) (auto simp: Let_def)
    next
      case True
      have "i \<notin> snd ` set (gw_table cl cs)"
        using i(2) by (auto simp: gw_table_def)
      moreover obtain cl' where cl': "connection_init cl a flags data mem ok = Some cl'" "gw_inv cl' (cs @ [mem])"
        "gw_table cl' (cs @ [mem]) = gw_table cl cs @ [(a, i)]"
        "gw_con cl' mem = gw_con (upd_con mem (\<lambda>c. c\<lparr>gc_out_have := False, gc_sent := []\<rparr>) (new_connection cl a flags data mem i)) mem"
        using connection_init_done [OF assms(1,5) False i ip assms(3,8,4), of flags] eq True by (auto simp: Let_def)
      moreover have "gw_submitted cl cl' mem a flags data"
        using assms(5) cl'(4) by (simp add: gw_submitted_def new_connection_def live_iff [OF assms(1)])
      ultimately show ?thesis
        using s lru [of "Some i"] False True i(1) unfolding flags_def [symmetric]
        by (intro exI [of _ cl'] exI [of _ "cs @ [mem]"] exI [of _ "Some i"]) simp
    qed
  qed
qed

subsection \<open>Packets from the gateway\<close>

definition message_conid :: "byte list \<Rightarrow> u16" where
  "message_conid data = mem16 (data ! 1) (data ! 2)"

text \<open>A packet is dropped, or belongs to a connection, which then was the last one to be used.\<close>

lemma receive_cases:
  assumes "gw_inv cl cs" "gw_have_server cl" "int (length data) \<le> gw_udpgw_mtu cl"
  obtains "recv_interface_handler_send cl data = Some (cl, None)"
  | c d where "recv_interface_handler_send cl data = Some (move_to_end cl c, Some (ca_local (conaddr_of cl c), ca_remote (conaddr_of cl c), d))"
    "c \<in> set cs" "conid_of cl c = message_conid data" "int (length d) \<le> gw_udp_mtu cl"
    "udpgw_read_addr (data ! 0 AND UDPGW_CLIENT_FLAG_IPV6 \<noteq> 0) (drop 3 data) = Some (ca_remote (conaddr_of cl c), d)"
proof (cases "length data < 3 \<or> udpgw_read_addr (data ! 0 AND UDPGW_CLIENT_FLAG_IPV6 \<noteq> 0) (drop 3 data) = None")
  case True
  then have "recv_interface_handler_send cl data = Some (cl, None)"
    using assms(2,3) by (auto simp: recv_interface_handler_send_def byteorder_defs Let_def)
  then show ?thesis
    by (rule that(1))
next
  case False
  then obtain remote d where d: "udpgw_read_addr (data ! 0 AND UDPGW_CLIENT_FLAG_IPV6 \<noteq> 0) (drop 3 data) = Some (remote, d)" "\<not> length data < 3"
    by fastforce
  let ?body = "\<lambda>con. if con = NULL then Some (cl, None)
      else if BAddr_CompareOrder (ca_remote (conaddr_of cl con)) remote \<noteq> 0 then Some (cl, None)
      else Some (move_to_end cl con, Some (ca_local (conaddr_of cl con), ca_remote (conaddr_of cl con), d))"
  have eq: "recv_interface_handler_send cl data = (if int (length d) > gw_udp_mtu cl then Some (cl, None)
      else find_connection_by_conid cl (message_conid data) \<bind> ?body)"
    using assms(2,3) d by (simp add: recv_interface_handler_send_def message_conid_def byteorder_defs Let_def)
  have "gw_tables cl cs"
    using assms(1) by (simp add: gw_inv_def)
  then show ?thesis
  proof (cases rule: find_by_conid [where i = "message_conid data"])
    case 1
    then show ?thesis
      using eq that(1) by (simp split: if_splits)
  next
    case (2 c)
    then have "BAddr_is_ip (ca_remote (conaddr_of cl c))"
      using assms(1) by (auto simp: gw_inv_def gw_ids_def conaddr_ip_def)
    then show ?thesis
      using eq that 2 d(1) by (auto simp: BAddr_CompareOrder_eq_0_iff split: if_splits)
  qed
qed

text \<open>What names a connection by its identifier and its remote address reaches the user with the addresses of the connection.\<close>

lemma receive_delivers:
  assumes "gw_inv cl cs" "gw_have_server cl" "int (length data) \<le> gw_udpgw_mtu cl" "3 \<le> length data" "c \<in> set cs"
    "conid_of cl c = message_conid data" "int (length d) \<le> gw_udp_mtu cl"
    "udpgw_read_addr (data ! 0 AND UDPGW_CLIENT_FLAG_IPV6 \<noteq> 0) (drop 3 data) = Some (ca_remote (conaddr_of cl c), d)"
  shows "recv_interface_handler_send cl data = Some (move_to_end cl c, Some (ca_local (conaddr_of cl c), ca_remote (conaddr_of cl c), d))"
proof -
  have ip: "BAddr_is_ip (ca_remote (conaddr_of cl c))" and tb: "gw_tables cl cs"
    using assms(1,5) by (auto simp: gw_inv_def gw_ids_def conaddr_ip_def)
  have "find_connection_by_conid cl (message_conid data) = Some c" "c \<noteq> NULL"
    using find_by_conid [OF tb, of "message_conid data"] conid_unique [OF tb] assms(5,6) by metis+
  then show ?thesis
    using assms(2-4,7,8) BAddr_CompareOrder_eq_0_iff [OF ip]
    by (simp add: recv_interface_handler_send_def message_conid_def byteorder_defs Let_def)
qed

lemma receive_message:
  assumes "gw_inv cl cs" "gw_have_server cl" "c \<in> set cs" "int (length d) \<le> gw_udp_mtu cl" "flags AND UDPGW_CLIENT_FLAG_IPV6 = 0"
  shows "recv_interface_handler_send cl (gw_message (conaddr_of cl c) (conid_of cl c) flags d) =
    Some (move_to_end cl c, Some (ca_local (conaddr_of cl c), ca_remote (conaddr_of cl c), d))"
proof -
  let ?m = "gw_message (conaddr_of cl c) (conid_of cl c) flags d" and ?r = "ca_remote (conaddr_of cl c)"
  have ip: "BAddr_is_ip ?r" and mtu: "gw_udpgw_mtu cl = gw_udp_mtu cl + 22"
    using assms(1,3) by (auto simp: gw_inv_def gw_ids_def gw_config_def conaddr_ip_def)
  have len: "int (length ?m) \<le> gw_udpgw_mtu cl"
    using length_udpgw_addr_bytes [OF ip] assms(4) mtu by (simp add: gw_message_def)
  have m: "message_conid ?m = conid_of cl c" "drop 3 ?m = udpgw_addr_bytes ?r @ d" "3 \<le> length ?m"
    "?m ! 0 AND UDPGW_CLIENT_FLAG_IPV6 \<noteq> 0 \<longleftrightarrow> BAddr_type ?r = 2"
    using assms(5) by (simp_all add: message_conid_def gw_message_def udpgw_header_bytes_def bytes16_def bit.conj_disj_distrib2)
  show ?thesis
    using receive_delivers [OF assms(1,2) len m(3) assms(3), of d] m assms(4) udpgw_read_addr_bytes [OF ip, of d] by simp
qed

subsection \<open>The other events\<close>

lemma queue_step_inv:
  assumes "gw_inv cl cs" "fq_step (gw_queue cl) e = Some q" "\<forall>h. e \<noteq> FqFlowInit h \<and> e \<noteq> FqFlowFree h \<and> e \<noteq> FqSetBusy h" "e \<noteq> FqPrepareFree"
    "ka = fq_pending_after (gw_queue cl) e keepalive_qflow"
  shows "gw_inv (cl\<lparr>gw_queue := q, gw_keepalive_sending := ka\<rparr>) cs" "gw_table (cl\<lparr>gw_queue := q, gw_keepalive_sending := ka\<rparr>) cs = gw_table cl cs"
proof -
  have fq: "fq_inv (gw_queue cl)"
    using assms(1) by (simp add: gw_inv_def gw_flows_def)
  have "gw_tables (cl\<lparr>gw_queue := q, gw_keepalive_sending := ka\<rparr>) cs = gw_tables cl cs"
    by (rule tables_cong) auto
  then show "gw_inv (cl\<lparr>gw_queue := q, gw_keepalive_sending := ka\<rparr>) cs"
    using assms(1,5) fq_step_inv [OF fq assms(2)] step_config [OF fq assms(2)] step_pending [OF fq assms(2-4)]
    by (simp add: gw_inv_def gw_ids_def gw_config_def gw_flows_def gw_keepalive_def gw_server_def)
  show "gw_table (cl\<lparr>gw_queue := q, gw_keepalive_sending := ka\<rparr>) cs = gw_table cl cs"
    by (simp add: gw_table_def)
qed

lemma monitor_ok:
  assumes "gw_inv cl cs"
  shows "\<exists>cl'. send_monitor_handler cl = Some cl' \<and> gw_inv cl' cs \<and> gw_table cl' cs = gw_table cl cs"
proof (cases "gw_keepalive_sending cl")
  case False
  let ?e = "FqSend keepalive_qflow (gw_keepalive_packet cl)"
  have "fq_step (gw_queue cl) ?e \<noteq> None"
    using assms False by (auto simp: gw_inv_def gw_flows_def gw_keepalive_def gw_config_def fq_pending_def)
  then obtain q where q: "fq_step (gw_queue cl) ?e = Some q"
    by blast
  show ?thesis
    using queue_step_inv [OF assms q] False q by (simp add: send_monitor_handler_def fq_pending_after_def del: fq_step.simps)
qed (use assms in \<open>simp add: send_monitor_handler_def\<close>)

lemma queue_event_ok:
  assumes "gw_inv cl cs" "queue_enabled cl e"
  shows "\<exists>cl'. queue_event cl e = Some cl' \<and> gw_inv cl' cs \<and> gw_table cl' cs = gw_table cl cs"
proof -
  obtain q where q: "fq_step (gw_queue cl) e = Some q" and e: "\<forall>h. e \<noteq> FqFlowInit h \<and> e \<noteq> FqFlowFree h \<and> e \<noteq> FqSetBusy h" "e \<noteq> FqPrepareFree"
    using assms(2) by (cases e) (auto simp del: fq_step.simps)
  have ka: "gw_keepalive_sending cl = fq_pending (gw_queue cl) keepalive_qflow"
    using assms(1) by (simp add: gw_inv_def gw_keepalive_def)
  have live: "h \<noteq> keepalive_qflow" if "e = FqSend h d" for h d
    using assms(2) that by (simp add: gw_live_def del: fq_step.simps)
  define finished where "finished \<longleftrightarrow> e = FqDone \<and> fq_sending (gw_queue cl) = Some keepalive_qflow"
  have "\<not> fl_queued (fq_flow (gw_queue cl) keepalive_qflow)" if "finished"
    using assms(1) that by (auto simp: gw_inv_def gw_flows_def fq_inv_def fq_links_def finished_def)
  then have after: "fq_pending_after (gw_queue cl) e keepalive_qflow = (gw_keepalive_sending cl \<and> \<not> finished)"
    using live ka e by (cases e) (auto simp: fq_pending_after_def fq_pending_def finished_def)
  have "queue_event cl e = Some (cl\<lparr>gw_queue := q, gw_keepalive_sending := gw_keepalive_sending cl \<and> \<not> finished\<rparr>)"
    using q ka by (cases finished) (auto simp: queue_event_def keepalive_if_handler_done_def finished_def fq_pending_def Let_def simp del: fq_step.simps)
  then show ?thesis
    using queue_step_inv [OF assms(1) q e, OF after [symmetric]] by simp
qed

subsection \<open>Runs\<close>

text \<open>The events as the specification sees them, for tables of \<open>n\<close> entries.\<close>

definition lru_full :: "int \<Rightarrow> (conaddr \<times> u16) list \<Rightarrow> conaddr \<Rightarrow> bool" where
  "lru_full n tbl a \<longleftrightarrow> a \<in> fst ` set tbl \<or> int (length tbl) = n"

fun lru_step :: "int \<Rightarrow> (conaddr \<times> u16) list \<Rightarrow> gw_event \<Rightarrow> (conaddr \<times> u16) list \<Rightarrow> bool" where
  "lru_step n tbl (GwSubmit l r dns data mem ok) tbl' \<longleftrightarrow>
     (\<exists>new. tbl' = lru_submit n tbl \<lparr>ca_local = l, ca_remote = r\<rparr> new \<and>
        (\<not> lru_full n tbl \<lparr>ca_local = l, ca_remote = r\<rparr> \<longrightarrow> (new = None \<longleftrightarrow> mem = NULL \<or> \<not> ok) \<and>
           (\<forall>i. new = Some i \<longrightarrow> uint i < n \<and> i \<notin> snd ` set tbl)))"
| "lru_step n tbl (GwReceive data) tbl' \<longleftrightarrow>
     tbl' = tbl \<or> (\<exists>a. (a, message_conid data) \<in> set tbl \<and> tbl' = remove1 (a, message_conid data) tbl @ [(a, message_conid data)])"
| "lru_step n tbl _ tbl' \<longleftrightarrow> tbl' = tbl"

fun lru_run :: "int \<Rightarrow> (conaddr \<times> u16) list \<Rightarrow> gw_event list \<Rightarrow> (conaddr \<times> u16) list \<Rightarrow> bool" where
  "lru_run n tbl [] tbl' \<longleftrightarrow> tbl' = tbl"
| "lru_run n tbl (e # es) tbl' \<longleftrightarrow> (\<exists>t. lru_step n tbl e t \<and> lru_run n t es tbl')"

lemma submit_ok:
  assumes "gw_inv cl cs" "gw_enabled cl (GwSubmit l r dns data mem ok)"
  shows "\<exists>cl' cs'. UdpGwClient_SubmitPacket cl l r dns data mem ok = Some cl' \<and> gw_inv cl' cs' \<and>
    lru_step (gw_max_connections cl) (gw_table cl cs) (GwSubmit l r dns data mem ok) (gw_table cl' cs') \<and>
    (lru_full (gw_max_connections cl) (gw_table cl cs) \<lparr>ca_local = l, ca_remote = r\<rparr> \<or> mem \<noteq> NULL \<and> ok \<longrightarrow>
       (\<exists>c\<in>set cs'. gw_submitted cl cl' c \<lparr>ca_local = l, ca_remote = r\<rparr> (if dns then UDPGW_CLIENT_FLAG_DNS else 0) data))"
proof -
  define a where "a = \<lparr>ca_local = l, ca_remote = r\<rparr>"
  have e: "BAddr_is_ip l" "BAddr_is_ip r" "int (length data) \<le> gw_udp_mtu cl" "mem \<notin> set cs" and ip: "conaddr_ip a"
    using assms live_iff [OF assms(1)] by (auto simp: a_def conaddr_ip_def)
  have tb: "gw_tables cl cs"
    using assms(1) by (simp add: gw_inv_def)
  have full: "lru_full n (gw_table cl cs) a \<longleftrightarrow> (\<exists>c\<in>set cs. conaddr_of cl c = a) \<or> int (length cs) = n" for n
    by (auto simp: lru_full_def gw_table_def image_image)
  from find_by_conaddr [OF tb ip] consider
      (found) c where "find_connection_by_conaddr cl a = Some c" "c \<in> set cs" "c \<noteq> NULL" "conaddr_of cl c = a"
    | (reused) "find_connection_by_conaddr cl a = Some NULL" "\<forall>c\<in>set cs. conaddr_of cl c \<noteq> a" "int (length cs) = gw_max_connections cl"
    | (new) "find_connection_by_conaddr cl a = Some NULL" "\<forall>c\<in>set cs. conaddr_of cl c \<noteq> a" "int (length cs) < gw_max_connections cl"
    using assms(1) by (metis gw_ids_def gw_inv_def order_le_imp_less_or_eq)
  then show ?thesis
  proof cases
    case found
    obtain cl' where "UdpGwClient_SubmitPacket cl l r dns data mem ok = Some cl'" "gw_inv cl' (remove1 c cs @ [c])"
      "gw_table cl' (remove1 c cs @ [c]) = lru_submit (gw_max_connections cl) (gw_table cl cs) a None"
      "gw_submitted cl cl' c a (if dns then UDPGW_CLIENT_FLAG_DNS else 0) data"
      using submit_found [OF assms(1) found(2,1,3,4) e(1-3) a_def] by blast
    then show ?thesis
      using full found(2,4) unfolding a_def [symmetric]
      by (intro exI [of _ cl'] exI [of _ "remove1 c cs @ [c]"]) (auto simp: a_def [symmetric] intro: exI [of _ None])
  next
    case reused
    obtain cl' where "UdpGwClient_SubmitPacket cl l r dns data mem ok = Some cl'" "gw_inv cl' (tl cs @ [hd cs])"
      "gw_table cl' (tl cs @ [hd cs]) = lru_submit (gw_max_connections cl) (gw_table cl cs) a None"
      "gw_submitted cl cl' (hd cs) a (if dns then UDPGW_CLIENT_FLAG_DNS else 0) data"
      using submit_reused [OF assms(1) reused e(1-3) a_def] by blast
    then show ?thesis
      using full reused(3) unfolding a_def [symmetric]
      by (intro exI [of _ cl'] exI [of _ "tl cs @ [hd cs]"]) (auto simp: a_def [symmetric] intro: exI [of _ None])
  next
    case new
    from submit_new [OF assms(1) new e(4,1,2,3) a_def, of dns ok] obtain cl' cs' i where
      s: "UdpGwClient_SubmitPacket cl l r dns data mem ok = Some cl'" "gw_inv cl' cs'"
        "gw_table cl' cs' = lru_submit (gw_max_connections cl) (gw_table cl cs) a i" "i = None \<longleftrightarrow> mem = NULL \<or> \<not> ok"
        "\<forall>j. i = Some j \<longrightarrow> uint j < gw_max_connections cl \<and> j \<notin> snd ` set (gw_table cl cs)"
        "mem \<noteq> NULL \<and> ok \<longrightarrow> cs' = cs @ [mem] \<and> gw_submitted cl cl' mem a (if dns then UDPGW_CLIENT_FLAG_DNS else 0) data"
      by blast
    moreover have "\<not> lru_full (gw_max_connections cl) (gw_table cl cs) a"
      using new(2,3) full by auto
    ultimately show ?thesis
      unfolding a_def [symmetric] lru_step.simps by (intro exI [of _ cl'] exI [of _ cs']) auto
  qed
qed

lemma receive_ok:
  assumes "gw_inv cl cs" "gw_enabled cl (GwReceive data)"
  shows "\<exists>cl' cs'. gw_step cl (GwReceive data) = Some cl' \<and> gw_inv cl' cs' \<and>
    lru_step (gw_max_connections cl) (gw_table cl cs) (GwReceive data) (gw_table cl' cs')"
proof -
  have e: "gw_have_server cl" "int (length data) \<le> gw_udpgw_mtu cl"
    using assms(2) by auto
  from assms(1) e show ?thesis
  proof (cases rule: receive_cases)
    case 1
    then show ?thesis
      using assms(1) by (intro exI [of _ cl] exI [of _ cs]) simp
  next
    case (2 c d)
    have "gw_table cl (remove1 c cs @ [c]) = remove1 (conaddr_of cl c, conid_of cl c) (gw_table cl cs) @ [(conaddr_of cl c, conid_of cl c)]"
      using map_remove1_inj [OF table_inj 2(2)] assms(1) by (simp add: gw_table_def gw_inv_def)
    moreover have "(conaddr_of cl c, conid_of cl c) \<in> set (gw_table cl cs)"
      using 2(2) by (simp add: gw_table_def)
    ultimately show ?thesis
      using move_to_end_inv [OF assms(1) 2(2)] 2(1,3)
      by (intro exI [of _ "move_to_end cl c"] exI [of _ "remove1 c cs @ [c]"]) auto
  qed
qed

lemma server_ok:
  assumes "gw_inv cl cs"
  shows "\<not> gw_have_server cl \<Longrightarrow> \<exists>cl' res. UdpGwClient_ConnectServer cl ok = Some (cl', res) \<and> gw_inv cl' cs \<and> gw_table cl' cs = gw_table cl cs"
    and "gw_have_server cl \<Longrightarrow> \<exists>cl'. free_server cl = Some cl' \<and> gw_inv (cl'\<lparr>gw_have_server := False\<rparr>) cs \<and>
      gw_table (cl'\<lparr>gw_have_server := False\<rparr>) cs = gw_table cl cs \<and> gw_queue cl' = gw_queue cl \<and> gw_list cl' = gw_list cl \<and>
      gw_num_connections cl' = gw_num_connections cl"
proof -
  show "\<not> gw_have_server cl \<Longrightarrow> \<exists>cl' res. UdpGwClient_ConnectServer cl ok = Some (cl', res) \<and> gw_inv cl' cs \<and> gw_table cl' cs = gw_table cl cs"
    using assms by (auto simp: UdpGwClient_ConnectServer_def gw_inv_def gw_tables_def gw_ids_def gw_config_def gw_flows_def
        gw_keepalive_def gw_server_def gw_table_def Let_def)
  assume h: "gw_have_server cl"
  then have "free_server cl = Some (cl\<lparr>gw_connected := False, gw_send_sender := False, gw_recv_decoder := False, gw_recv_if := False\<rparr>)"
    using assms by (simp add: free_server_def gw_inv_def gw_server_def Let_def)
  then show "\<exists>cl'. free_server cl = Some cl' \<and> gw_inv (cl'\<lparr>gw_have_server := False\<rparr>) cs \<and>
      gw_table (cl'\<lparr>gw_have_server := False\<rparr>) cs = gw_table cl cs \<and> gw_queue cl' = gw_queue cl \<and> gw_list cl' = gw_list cl \<and>
      gw_num_connections cl' = gw_num_connections cl"
    using assms by (simp add: gw_inv_def gw_tables_def gw_ids_def gw_config_def gw_flows_def gw_keepalive_def gw_server_def gw_table_def)
qed

lemma gw_step_ok:
  assumes "gw_inv cl cs" "gw_enabled cl e"
  shows "\<exists>cl' cs'. gw_step cl e = Some cl' \<and> gw_inv cl' cs' \<and> lru_step (gw_max_connections cl) (gw_table cl cs) e (gw_table cl' cs')"
proof (cases e)
  case (GwSubmit l r dns data mem ok)
  then show ?thesis
    using submit_ok [of cl cs l r dns data mem ok] assms by (auto simp del: lru_step.simps gw_enabled.simps)
next
  case (GwReceive data)
  then show ?thesis
    using receive_ok assms by blast
next
  case (GwFirstJob con)
  then have c: "con \<in> set cs" "int (length (gc_first_data (gw_con cl con))) \<le> gw_udp_mtu cl"
    using assms live_iff [OF assms(1)] by (auto simp: gw_inv_def gw_ids_def)
  define cl1 where "cl1 = upd_con con (gc_first_job_update (\<lambda>_. False)) cl"
  have "gw_inv cl1 cs" "gw_table cl1 cs = gw_table cl cs"
    using assms(1) by (simp_all add: cl1_def inv_upd_con)
  then show ?thesis
    using connection_send_inv [of cl1 cs con "gc_first_data (gw_con cl con)"] c
    by (fastforce simp: GwFirstJob connection_first_job_handler_def cl1_def)
next
  case (GwBuffer con)
  then show ?thesis
    using assms(1) by (intro exI [of _ "upd_con con (gc_out_have_update (\<lambda>_. True)) cl"] exI [of _ cs]) (simp add: inv_upd_con)
next
  case GwDisconnect
  then show ?thesis
    using server_ok(2) [OF assms(1)] assms(2) by (fastforce simp: UdpGwClient_DisconnectServer_def)
next
  case (GwConnect ok)
  then show ?thesis
    using server_ok(1) [OF assms(1), of ok] assms(2) by fastforce
next
  case (GwQueue q)
  then show ?thesis
    using queue_event_ok [OF assms(1)] assms(2) by fastforce
qed (use monitor_ok [OF assms(1)] in fastforce)

text \<open>The limits do not change.\<close>

lemma connection_limits:
  "connection_send cl c flags data = Some cl' \<Longrightarrow> gw_max_connections cl' = gw_max_connections cl"
  "connection_init cl a flags data mem ok = Some cl' \<Longrightarrow> gw_max_connections cl' = gw_max_connections cl"
  "reuse_connection cl a = Some (cl', c) \<Longrightarrow> gw_max_connections cl' = gw_max_connections cl"
  by (auto simp: connection_send_def connection_init_def reuse_connection_def insert_by_conaddr_def insert_by_conid_def
      find_unused_conid_def bind_eq_Some_conv Let_def split: if_splits)

lemma gw_step_limits:
  assumes "gw_step cl e = Some cl'"
  shows "gw_max_connections cl' = gw_max_connections cl"
proof (cases e)
  case (GwSubmit l r dns data mem ok)
  then show ?thesis
    using assms by (auto simp: UdpGwClient_SubmitPacket_def bind_eq_Some_conv Let_def move_to_end_def split: if_splits dest!: connection_limits)
next
  case (GwReceive data)
  then show ?thesis
    using assms by (auto simp: recv_interface_handler_send_def bind_eq_Some_conv Let_def move_to_end_def split: if_splits option.splits)
next
  case (GwFirstJob con)
  then show ?thesis
    using assms by (auto simp: connection_first_job_handler_def dest!: connection_limits)
qed (use assms in \<open>auto simp: send_monitor_handler_def queue_event_def keepalive_if_handler_done_def UdpGwClient_ConnectServer_def
    UdpGwClient_DisconnectServer_def free_server_def bind_eq_Some_conv Let_def simp del: fq_step.simps split: if_splits\<close>)

lemma gw_run_ok:
  assumes "gw_inv cl cs" "gw_possible cl es"
  shows "\<exists>cl' cs'. gw_exec cl es = Some cl' \<and> gw_inv cl' cs' \<and> lru_run (gw_max_connections cl) (gw_table cl cs) es (gw_table cl' cs') \<and>
    gw_max_connections cl' = gw_max_connections cl"
  using assms
proof (induction es arbitrary: cl cs)
  case (Cons e es)
  then obtain cl1 cs1 where s: "gw_step cl e = Some cl1" "gw_inv cl1 cs1"
    "lru_step (gw_max_connections cl) (gw_table cl cs) e (gw_table cl1 cs1)" "gw_possible cl1 es"
    using gw_step_ok [of cl cs e] by fastforce
  then show ?case
    using Cons.IH [OF s(2,4)] gw_step_limits [OF s(1)] by auto
qed auto

lemma gw_Init_ok:
  assumes "UdpGwClient_Init mem mtu n = Some cl" "mtu \<le> INT_MAX"
  shows "gw_inv cl []" "gw_max_connections cl = min n 65536" "gw_udp_mtu cl = mtu"
proof -
  obtain q where q: "0 \<le> mtu" "0 \<le> udpgw_compute_mtu mtu" "udpgw_compute_mtu mtu \<le> 65535" "0 < n"
    "PacketPassFairQueue_Init (udpgw_compute_mtu mtu + 2) 1 = Some q"
    "cl = mem\<lparr>gw_udp_mtu := mtu, gw_max_connections := (if n > UINT16_MAX + 1 then UINT16_MAX + 1 else n),
            gw_udpgw_mtu := udpgw_compute_mtu mtu, gw_pp_mtu := udpgw_compute_mtu mtu + 2, gw_by_conaddr := BAVL_Init (gw_by_conaddr mem),
            gw_by_conid := BAVL_Init (gw_by_conid mem), gw_list := LinkedList1_Init (gw_list mem), gw_num_connections := 0,
            gw_next_conid := 0, gw_queue := PacketPassFairQueueFlow_Init keepalive_qflow q,
            gw_keepalive_packet := bytes16 3 @ udpgw_header_bytes UDPGW_CLIENT_FLAG_KEEPALIVE 0,
            gw_keepalive_sending := False, gw_have_server := False\<rparr>"
    using assms(1) by (auto simp: UdpGwClient_Init_def ASSERT_def bind_eq_Some_conv Let_def split: if_splits)
  have iq: "fq_inv q" "fq_flows q = []" "\<not> fq_freeing q" "fq_mtu q = udpgw_compute_mtu mtu + 2"
    using Init_inv [OF q(5)] q(1-5) by (auto simp: PacketPassFairQueue_Init_def split: if_splits)
  note q' = queue_flow_init [OF iq(1) _ iq(3), of keepalive_qflow]
  have "udpgw_compute_mtu mtu = mtu + 22"
    using udpgw_compute_mtu_eq [of mtu] q(1,2) assms(2) by (auto split: if_splits)
  then show "gw_inv cl []"
    using q(1,4) q' iq by (auto simp: gw_inv_def gw_tables_def gw_ids_def gw_config_def gw_flows_def gw_keepalive_def gw_server_def q(6)
        index_Init LinkedList1_Init_ok fq_pending_def)
  show "gw_max_connections cl = min n 65536" "gw_udp_mtu cl = mtu"
    by (auto simp: q(6))
qed

subsection \<open>The end\<close>

lemma connection_free_ok:
  assumes "gw_tables cl (c # cs)" "gw_flows cl (c # cs)" "fq_freeing (gw_queue cl)"
  shows "\<exists>cl'. connection_free cl c = Some cl' \<and> gw_tables cl' cs \<and> gw_flows cl' cs \<and> fq_freeing (gw_queue cl') \<and>
    gw_server cl' = gw_server cl \<and> gw_have_server cl' = gw_have_server cl"
proof -
  have t: "ll_rep (gw_list cl) ([] @ c # cs)" "indexes conaddr_comparator (conaddr_of cl) (gw_by_conaddr cl) (set (c # cs))"
    "indexes uint16_comparator (conid_of cl) (gw_by_conid cl) (set (c # cs))" "gw_num_connections cl = int (length (c # cs))"
    using assms(1) by (auto simp: gw_tables_def)
  have c: "c \<notin> set cs" "c \<noteq> NULL"
    using tables_nodes [OF assms(1)] by auto
  then have d: "set (c # cs) - {c} = set cs"
    by auto
  obtain t1 where t1: "BAVL_Remove (gw_by_conid cl) c = Some t1" "indexes uint16_comparator (conid_of cl) t1 (set cs)"
    using by_conid.index_remove [OF t(3), of c] unfolding d by auto
  obtain t2 where t2: "BAVL_Remove (gw_by_conaddr cl) c = Some t2" "indexes conaddr_comparator (conaddr_of cl) t2 (set cs)"
    using by_conaddr.index_remove [OF t(2), of c] unfolding d by auto
  have q: "fq_inv (gw_queue cl)" "c \<in> set (fq_flows (gw_queue cl))" "fq_freeing (gw_queue cl) \<or> fq_sending (gw_queue cl) \<noteq> Some c"
    using assms(2,3) by (auto simp: gw_flows_def)
  note q' = queue_flow_free [OF q]
  define cl1 where "cl1 = cl\<lparr>gw_num_connections := gw_num_connections cl - 1, gw_list := LinkedList1_Remove (gw_list cl) c,
    gw_by_conid := t1, gw_by_conaddr := t2, gw_queue := PacketPassFairQueueFlow_Free c (gw_queue cl)\<rparr>"
  define cl' where "cl' = upd_con c (gc_first_job_update (\<lambda>_. False)) cl1"
  have "connection_free cl c = Some cl'"
    using t1(1) t2(1) assms(3) by (simp add: connection_free_def cl'_def cl1_def Let_def)
  moreover have "gw_tables cl1 cs"
    using t t1(2) t2(2) linked.rep_remove [OF t(1)] by (simp add: gw_tables_def cl1_def)
  then have "gw_tables cl' cs"
    unfolding cl'_def by (subst tables_cong [of _ cl1]) auto
  moreover have "gw_flows cl1 cs" "fq_freeing (gw_queue cl1)" "gw_server cl1 = gw_server cl" "gw_have_server cl1 = gw_have_server cl"
    using q'(1-3) assms(2,3) c by (auto simp: cl1_def gw_flows_def gw_server_def)
  then have "gw_flows cl' cs" "fq_freeing (gw_queue cl')" "gw_server cl' = gw_server cl" "gw_have_server cl' = gw_have_server cl"
    by (simp_all add: cl'_def) (simp add: upd_con_def)
  ultimately show ?thesis
    by blast
qed

lemma free_connections_ok:
  assumes "gw_tables cl cs" "gw_flows cl cs" "fq_freeing (gw_queue cl)"
  shows "\<exists>cl'. free_connections cl = Some cl' \<and> gw_tables cl' [] \<and> gw_flows cl' [] \<and> fq_freeing (gw_queue cl') \<and>
    gw_server cl' = gw_server cl \<and> gw_have_server cl' = gw_have_server cl"
  using assms
proof (induction cs arbitrary: cl)
  case Nil
  then have "LinkedList1_IsEmpty (gw_list cl)"
    using LinkedList1_ends_ok(1) by (auto simp: gw_tables_def)
  then show ?case
    using Nil by (subst free_connections.simps) simp
next
  case (Cons c cs)
  have "ll_rep (gw_list cl) (c # cs)"
    using Cons.prems(1) by (simp add: gw_tables_def)
  then have "\<not> LinkedList1_IsEmpty (gw_list cl)" "LinkedList1_GetFirst (gw_list cl) = c"
    using LinkedList1_ends_ok [of "gw_list cl" "c # cs"] by auto
  then show ?case
    using connection_free_ok [OF Cons.prems] Cons.IH by (subst free_connections.simps) fastforce
qed

lemma queue_free_ok:
  assumes "fq_inv q" "set (fq_flows q) = {keepalive_qflow}" "fq_freeing q"
  defines "q' \<equiv> PacketPassFairQueue_Free (PacketPassFairQueueFlow_Free keepalive_qflow q)"
  shows "\<not> fq_fault q'" "fq_flows q' = []" "\<not> fq_job q'"
proof -
  define q1 where "q1 = PacketPassFairQueueFlow_Free keepalive_qflow q"
  have "fq_inv q1" "fq_flows q1 = []"
    using queue_flow_free(1,2) [OF assms(1), of keepalive_qflow] assms(2,3) by (auto simp: q1_def)
  then have f: "\<not> fq_fault q1" "fq_tree q1 = []" "\<And>f. fq_sending q1 \<noteq> Some f \<and> fq_previous q1 \<noteq> Some f"
    by (auto simp: fq_inv_def fq_links_def)
  have "fq_sending q1 = None" "fq_previous q1 = None"
    using f(3) by (meson not_None_eq)+
  then show "\<not> fq_fault q'" "fq_flows q' = []" "\<not> fq_job q'"
    using \<open>fq_flows q1 = []\<close> f(1,2) by (simp_all add: q'_def q1_def [symmetric] PacketPassFairQueue_Free_def fq_assert_def)
qed

lemma gw_Free_ok:
  assumes "gw_inv cl cs"
  shows "\<exists>cl'. UdpGwClient_Free cl = Some cl' \<and> LinkedList1_IsEmpty (gw_list cl') \<and> gw_num_connections cl' = 0 \<and>
    BAVL_IsEmpty (gw_by_conaddr cl') \<and> BAVL_IsEmpty (gw_by_conid cl') \<and> fq_flows (gw_queue cl') = [] \<and>
    (gw_have_server cl \<longrightarrow> \<not> gw_recv_if cl' \<and> \<not> gw_recv_decoder cl' \<and> \<not> gw_send_sender cl' \<and> \<not> gw_connected cl')"
proof -
  define cl1 where "cl1 = cl\<lparr>gw_queue := PacketPassFairQueue_PrepareFree (gw_queue cl)\<rparr>"
  have "gw_tables cl1 cs = gw_tables cl cs"
    by (rule tables_cong) (auto simp: cl1_def)
  then have c1: "gw_tables cl1 cs" "gw_flows cl1 cs" "fq_freeing (gw_queue cl1)" "gw_server cl1" "gw_have_server cl1 = gw_have_server cl"
    using assms flag_inv(1) [of "gw_queue cl"]
    by (simp_all add: gw_inv_def gw_flows_def cl1_def gw_server_def) (simp_all add: PacketPassFairQueue_PrepareFree_def)
  obtain cl2 where c2: "free_connections cl1 = Some cl2" "gw_tables cl2 []" "gw_flows cl2 []" "fq_freeing (gw_queue cl2)"
    "gw_server cl2" "gw_have_server cl2 = gw_have_server cl"
    using free_connections_ok [OF c1(1-3)] c1(4,5) by auto
  define cl3 where "cl3 = (if gw_have_server cl
    then cl2\<lparr>gw_connected := False, gw_send_sender := False, gw_recv_decoder := False, gw_recv_if := False\<rparr> else cl2)"
  have c3: "(if gw_have_server cl2 then free_server cl2 else Some cl2) = Some cl3" "gw_queue cl3 = gw_queue cl2"
    using c2(5,6) by (simp_all add: cl3_def free_server_def gw_server_def Let_def)
  have "fq_inv (gw_queue cl2)" "set (fq_flows (gw_queue cl2)) = {keepalive_qflow}"
    using c2(3) by (simp_all add: gw_flows_def)
  note q = queue_free_ok [OF this c2(4)]
  define cl' where "cl' = cl3\<lparr>gw_queue := PacketPassFairQueue_Free (PacketPassFairQueueFlow_Free keepalive_qflow (gw_queue cl2))\<rparr>"
  have "UdpGwClient_Free cl = Some cl'"
    using c2(1) c3 q(1) by (simp add: UdpGwClient_Free_def cl1_def [symmetric] cl'_def Let_def)
  moreover have "ll_rep (gw_list cl2) []" "gw_num_connections cl2 = 0" "BAVL_IsEmpty (gw_by_conaddr cl2)" "BAVL_IsEmpty (gw_by_conid cl2)"
    using c2(2) index_empty by (auto simp: gw_tables_def)
  ultimately show ?thesis
    using q(2) LinkedList1_ends_ok(1) by (auto simp: cl'_def cl3_def)
qed

subsection \<open>Properties\<close>

text \<open>A run that is used to show that the properties apply: three packets of different pairs in a table of two.\<close>

declare unused_conid_from.simps [code] free_connections.simps [code]

definition gw_blank :: UdpGwClient where
  "gw_blank = \<lparr>gw_udp_mtu = 0, gw_max_connections = 0, gw_udpgw_mtu = 0, gw_pp_mtu = 0, gw_by_conaddr = example_tree,
     gw_by_conid = example_tree, gw_list = \<lparr>ll_p = (\<lambda>_. 0), ll_n = (\<lambda>_. 0), ll_first = 0, ll_last = 0\<rparr>, gw_num_connections = 0,
     gw_next_conid = 0, gw_queue = fq_sample_start, gw_keepalive_packet = [], gw_keepalive_sending = False, gw_have_server = False,
     gw_recv_if = False, gw_recv_decoder = False, gw_send_sender = False, gw_connected = False,
     gw_con = (\<lambda>_. \<lparr>gc_conaddr = \<lparr>ca_local = BAddr_None, ca_remote = BAddr_None\<rparr>, gc_first_flags = 0, gc_first_data = [], gc_conid = 0,
       gc_first_job = False, gc_out_have = False, gc_sent = []\<rparr>)\<rparr>"

definition gw_sample :: "gw_event list" where
  "gw_sample = [GwConnect True, GwSubmit (BAddr_IPv4 1 2) (BAddr_IPv4 3 4) False [1, 2, 3] 7 True, GwBuffer 7, GwFirstJob 7,
     GwSubmit (BAddr_IPv4 1 5) (BAddr_IPv4 3 4) True [1] 9 True, GwBuffer 7,
     GwSubmit (BAddr_IPv4 1 6) (BAddr_IPv4 3 4) True [1] 11 True, GwMonitor, GwQueue FqDone]"


lemma gw_sample_runs:
  "(case UdpGwClient_Init gw_blank 100 2 of None \<Rightarrow> False | Some cl0 \<Rightarrow> gw_possible cl0 gw_sample \<and>
     (case gw_exec cl0 gw_sample of None \<Rightarrow> False
      | Some cl \<Rightarrow> gw_num_connections cl = 2 \<and> gw_have_server cl \<and> gw_live cl 7 \<and> gw_udp_mtu cl = 100 \<and>
          gw_con cl 7 = \<lparr>gc_conaddr = \<lparr>ca_local = BAddr_IPv4 1 6, ca_remote = BAddr_IPv4 3 4\<rparr>, gc_first_flags = 0,
            gc_first_data = [1, 2, 3], gc_conid = 0, gc_first_job = False, gc_out_have = False,
            gc_sent = [[2, 0, 0, 3, 0, 0, 0, 4, 0, 1, 2, 3], [6, 0, 0, 3, 0, 0, 0, 4, 0, 1]]\<rparr>))"
  by code_simp

lemma gw_sample_run:
  obtains cl0 cl where "UdpGwClient_Init gw_blank 100 2 = Some cl0" "gw_possible cl0 gw_sample" "gw_exec cl0 gw_sample = Some cl"
    "gw_num_connections cl = 2" "gw_have_server cl" "gw_live cl 7" "gw_udp_mtu cl = 100"
    "gc_conaddr (gw_con cl 7) = \<lparr>ca_local = BAddr_IPv4 1 6, ca_remote = BAddr_IPv4 3 4\<rparr>" "gc_conid (gw_con cl 7) = 0"
  using gw_sample_runs by (auto split: option.splits)

text \<open>
  \<^bold>\<open>C12\<close>: the client implements a table of connections that forgets the least recently used
  one: whatever comes from the device, the gateway, the queue and the memory allocation
  after \<open>UdpGwClient_Init\<close>, no assertion fails, no loop runs forever, and the list and the two
  trees hold the table of the specification, in which each pair of addresses and each
  identifier occurs once.
\<close>

theorem udpgw_refines_lru:
  assumes "UdpGwClient_Init mem mtu n = Some cl0" "mtu \<le> INT_MAX" "gw_possible cl0 es"
  shows "\<exists>cl cs. gw_exec cl0 es = Some cl \<and> ll_rep (gw_list cl) cs \<and> lru_run (min n 65536) [] es (gw_table cl cs) \<and>
    int (length cs) \<le> min n 65536 \<and> distinct (map fst (gw_table cl cs)) \<and> distinct (map snd (gw_table cl cs)) \<and>
    indexes conaddr_comparator (\<lambda>c. gc_conaddr (gw_con cl c)) (gw_by_conaddr cl) (set cs) \<and>
    indexes uint16_comparator (\<lambda>c. gc_conid (gw_con cl c)) (gw_by_conid cl) (set cs) \<and> \<not> fq_fault (gw_queue cl)"
proof -
  note i = gw_Init_ok [OF assms(1,2)]
  obtain cl cs where r: "gw_exec cl0 es = Some cl" "gw_inv cl cs" "lru_run (min n 65536) [] es (gw_table cl cs)"
    "gw_max_connections cl = min n 65536"
    using gw_run_ok [OF i(1) assms(3)] i(2) by (auto simp: gw_table_def)
  have tb: "gw_tables cl cs"
    using r(2) by (simp add: gw_inv_def)
  have "inj_on (conaddr_of cl) (set cs)" "inj_on (conid_of cl) (set cs)" "distinct cs"
    using conaddr_unique [OF tb] conid_unique [OF tb] tables_nodes [OF tb] by (auto simp: inj_on_def)
  then have "distinct (map fst (gw_table cl cs))" "distinct (map snd (gw_table cl cs))"
    by (simp_all add: gw_table_def comp_def distinct_map)
  then show ?thesis
    using r tb by (auto simp: gw_inv_def gw_tables_def gw_ids_def gw_flows_def fq_inv_def)
qed


theorem udpgw_refines_lru_witness:
  "\<exists>cl0 cl cs. UdpGwClient_Init gw_blank 100 2 = Some cl0 \<and> gw_exec cl0 gw_sample = Some cl \<and> ll_rep (gw_list cl) cs \<and>
     lru_run 2 [] gw_sample (gw_table cl cs) \<and> gw_num_connections cl = 2"
proof -
  obtain cl0 cl where r: "UdpGwClient_Init gw_blank 100 2 = Some cl0" "gw_possible cl0 gw_sample" "gw_exec cl0 gw_sample = Some cl"
    "gw_num_connections cl = 2"
    by (rule gw_sample_run)
  then show ?thesis
    using udpgw_refines_lru [OF r(1) _ r(2)] by auto
qed

text \<open>The state after any run.\<close>

lemma gw_reached:
  assumes "UdpGwClient_Init mem mtu n = Some cl0" "mtu \<le> INT_MAX" "gw_possible cl0 es" "gw_exec cl0 es = Some cl"
  obtains cs where "gw_inv cl cs" "gw_max_connections cl = min n 65536"
  using gw_run_ok [OF gw_Init_ok(1) [OF assms(1,2)] assms(3)] gw_Init_ok(2) [OF assms(1,2)] assms(4) that by auto



text \<open>
  \<^bold>\<open>C14\<close>: nothing else is delivered. After any run, \<open>recv_interface_handler_send\<close> returns, and it
  passes a packet to the user exactly when the message is long enough to hold the header and
  the address, the data fits the limit, and a live connection has the identifier and the
  remote address of the message; the user gets the addresses of that connection and the data.
\<close>

theorem udpgw_receive_exact:
  assumes "UdpGwClient_Init mem mtu n = Some cl0" "mtu \<le> INT_MAX" "gw_possible cl0 es" "gw_exec cl0 es = Some cl"
    and "gw_have_server cl" "int (length data) \<le> gw_udpgw_mtu cl"
  shows "\<exists>cl' up. recv_interface_handler_send cl data = Some (cl', up) \<and>
    (\<forall>l r d. up = Some (l, r, d) \<longleftrightarrow>
       3 \<le> length data \<and> int (length d) \<le> gw_udp_mtu cl \<and>
       udpgw_read_addr (data ! 0 AND UDPGW_CLIENT_FLAG_IPV6 \<noteq> 0) (drop 3 data) = Some (r, d) \<and>
       (\<exists>c. gw_live cl c \<and> gc_conid (gw_con cl c) = message_conid data \<and> gc_conaddr (gw_con cl c) = \<lparr>ca_local = l, ca_remote = r\<rparr>))"
proof -
  obtain cs where inv: "gw_inv cl cs"
    by (rule gw_reached [OF assms(1-4)])
  from inv assms(5,6) obtain cl' up where r: "recv_interface_handler_send cl data = Some (cl', up)"
    by (cases rule: receive_cases) auto
  have "up = Some (l, r, d) \<longleftrightarrow> 3 \<le> length data \<and> int (length d) \<le> gw_udp_mtu cl \<and>
       udpgw_read_addr (data ! 0 AND UDPGW_CLIENT_FLAG_IPV6 \<noteq> 0) (drop 3 data) = Some (r, d) \<and>
       (\<exists>c\<in>set cs. conid_of cl c = message_conid data \<and> conaddr_of cl c = \<lparr>ca_local = l, ca_remote = r\<rparr>)" (is "?L \<longleftrightarrow> ?R") for l r d
  proof
    assume ?L
    moreover have "3 \<le> length data" if "up \<noteq> None"
      using r that by (auto simp: recv_interface_handler_send_def ASSERT_def split: if_splits)
    ultimately show ?R
      using r by (cases rule: receive_cases [OF inv assms(5,6)]) auto
  next
    assume ?R
    then show ?L
      using r receive_delivers [OF inv assms(5,6)] by fastforce
  qed
  then show ?thesis
    using r live_iff [OF inv] by (intro exI [of _ cl'] exI [of _ up]) (simp add: Bex_def)
qed

theorem udpgw_receive_exact_witness:
  "\<exists>cl0 cl cl'. UdpGwClient_Init gw_blank 100 2 = Some cl0 \<and> gw_exec cl0 gw_sample = Some cl \<and>
     recv_interface_handler_send cl [0, 0, 0, 3, 0, 0, 0, 4, 0, 77] = Some (cl', Some (BAddr_IPv4 1 6, BAddr_IPv4 3 4, [77]))"
proof -
  obtain cl0 cl where r: "UdpGwClient_Init gw_blank 100 2 = Some cl0" "gw_possible cl0 gw_sample" "gw_exec cl0 gw_sample = Some cl"
    "gw_have_server cl" "gw_live cl 7" "gw_udp_mtu cl = 100"
    "gc_conaddr (gw_con cl 7) = \<lparr>ca_local = BAddr_IPv4 1 6, ca_remote = BAddr_IPv4 3 4\<rparr>" "gc_conid (gw_con cl 7) = 0"
    by (rule gw_sample_run)
  have "gw_udpgw_mtu cl = 122"
    by (rule gw_reached [OF r(1) _ r(2,3)]) (use r(6) in \<open>simp_all add: gw_inv_def gw_config_def\<close>)
  moreover have "udpgw_read_addr False [3, 0, 0, 0, 4, 0, 77] = Some (BAddr_IPv4 3 4, [77])" "message_conid [0, 0, 0, 3, 0, 0, 0, 4, 0, 77] = 0"
    by code_simp+
  ultimately have "\<exists>cl'. recv_interface_handler_send cl [0, 0, 0, 3, 0, 0, 0, 4, 0, 77] = Some (cl', Some (BAddr_IPv4 1 6, BAddr_IPv4 3 4, [77]))"
    using udpgw_receive_exact [OF r(1) _ r(2-4), of "[0, 0, 0, 3, 0, 0, 0, 4, 0, 77]"] r(5-8) by fastforce
  then show ?thesis
    using r(1,3) by blast
qed

text \<open>
  \<^bold>\<open>C23\<close>: the search for an identifier ends. After any run that leaves room in the table, the loop of
  \<open>find_unused_conid\<close> comes to an identifier below the number of connections allowed that no
  connection uses, however the identifiers in use are spread.
\<close>

theorem udpgw_unused_conid:
  assumes "UdpGwClient_Init mem mtu n = Some cl0" "mtu \<le> INT_MAX" "gw_possible cl0 es" "gw_exec cl0 es = Some cl"
    and "gw_num_connections cl < gw_max_connections cl"
  shows "\<exists>conid. find_unused_conid cl = Some (cl\<lparr>gw_next_conid := uint conid\<rparr>, conid) \<and>
    uint conid < min n 65536 \<and> (\<forall>c. gw_live cl c \<longrightarrow> gc_conid (gw_con cl c) \<noteq> conid)"
proof -
  obtain cs where inv: "gw_inv cl cs" and n: "gw_max_connections cl = min n 65536"
    by (rule gw_reached [OF assms(1-4)])
  then have "gw_tables cl cs" "gw_ids cl cs" "int (length cs) < gw_max_connections cl"
    using assms(5) by (auto simp: gw_inv_def gw_tables_def)
  from find_unused_conid_ok [OF this] show ?thesis
    using live_iff [OF inv] n by auto
qed

theorem udpgw_unused_conid_witness:
  "\<exists>cl0 cl conid. UdpGwClient_Init gw_blank 100 2 = Some cl0 \<and>
     gw_exec cl0 [GwSubmit (BAddr_IPv4 1 2) (BAddr_IPv4 3 4) False [1] 7 True] = Some cl \<and>
     find_unused_conid cl = Some (cl\<lparr>gw_next_conid := uint conid\<rparr>, conid) \<and> gc_conid (gw_con cl 7) \<noteq> conid \<and> uint conid < 2"
proof -
  let ?es = "[GwSubmit (BAddr_IPv4 1 2) (BAddr_IPv4 3 4) False [1] 7 True]"
  have "(case UdpGwClient_Init gw_blank 100 2 of None \<Rightarrow> False | Some cl0 \<Rightarrow> gw_possible cl0 ?es \<and>
     (case gw_exec cl0 ?es of None \<Rightarrow> False | Some cl \<Rightarrow> gw_num_connections cl < gw_max_connections cl \<and> gw_live cl 7))"
    by code_simp
  then obtain cl0 cl where r: "UdpGwClient_Init gw_blank 100 2 = Some cl0" "gw_possible cl0 ?es" "gw_exec cl0 ?es = Some cl"
    "gw_num_connections cl < gw_max_connections cl" "gw_live cl 7"
    by (auto simp del: gw_possible.simps gw_exec.simps split: option.splits)
  then show ?thesis
    using udpgw_unused_conid [OF r(1) _ r(2-4)] by auto
qed

text \<open>
  \<^bold>\<open>C24\<close>: the client can be freed at any time. After any run \<open>UdpGwClient_Free\<close> returns, and no
  assertion fails on the way, those of the queue and of its flows included; every connection
  has left the list, the two trees and the queue, and the parts that belong to the connection
  with the gateway are gone.
\<close>

theorem udpgw_free:
  assumes "UdpGwClient_Init mem mtu n = Some cl0" "mtu \<le> INT_MAX" "gw_possible cl0 es" "gw_exec cl0 es = Some cl"
  shows "\<exists>cl'. UdpGwClient_Free cl = Some cl' \<and> LinkedList1_IsEmpty (gw_list cl') \<and> gw_num_connections cl' = 0 \<and>
    BAVL_IsEmpty (gw_by_conaddr cl') \<and> BAVL_IsEmpty (gw_by_conid cl') \<and> fq_flows (gw_queue cl') = [] \<and>
    (gw_have_server cl \<longrightarrow> \<not> gw_recv_if cl' \<and> \<not> gw_recv_decoder cl' \<and> \<not> gw_send_sender cl' \<and> \<not> gw_connected cl')"
  by (rule gw_reached [OF assms]) (rule gw_Free_ok)

theorem udpgw_free_witness:
  "\<exists>cl0 cl cl'. UdpGwClient_Init gw_blank 100 2 = Some cl0 \<and> gw_exec cl0 gw_sample = Some cl \<and> gw_num_connections cl = 2 \<and>
     UdpGwClient_Free cl = Some cl' \<and> gw_num_connections cl' = 0 \<and> \<not> gw_connected cl'"
proof -
  obtain cl0 cl where r: "UdpGwClient_Init gw_blank 100 2 = Some cl0" "gw_possible cl0 gw_sample" "gw_exec cl0 gw_sample = Some cl"
    "gw_num_connections cl = 2" "gw_have_server cl"
    by (rule gw_sample_run)
  then show ?thesis
    using udpgw_free [OF r(1) _ r(2,3)] by auto
qed

end
