(* ===== verification/JobQueue.thy ===== *)
theory JobQueue
  imports Prelude "HOL-Library.Monad_Syntax"
begin

text \<open>
  The jobs of the event loop: \<^verbatim>\<open>base/BPending.c\<close> on the linked list of
  \<^verbatim>\<open>structure/SLinkedList_impl.h\<close>, as compiled for the jobs, without a pointer to the last
  entry. Every component puts off its work by setting a job of its own; the reactor executes
  the job on top of the list until none is left before it waits for the next event.

  A job is named by its address and the memory is split by field. The previous pointer of the
  first entry is never read, and a job that is not in the list is marked by a next pointer to
  itself. A function returns \<open>None\<close> when an assertion of the source fails; the theorem at the
  end shows that for users that keep to the documented order of the calls this never happens
  and that the list is a stack from which a job can be taken at any place.
\<close>

subsection \<open>The linked list\<close>

record SLinkedList =
  sl_prev :: "addr \<Rightarrow> addr"
  sl_next :: "addr \<Rightarrow> addr"
  sl_first :: addr

definition set_prev :: "SLinkedList \<Rightarrow> addr \<Rightarrow> addr \<Rightarrow> SLinkedList" where
  "set_prev s entry v = s\<lparr>sl_prev := (sl_prev s)(entry := v)\<rparr>"

definition set_next :: "SLinkedList \<Rightarrow> addr \<Rightarrow> addr \<Rightarrow> SLinkedList" where
  "set_next s entry v = s\<lparr>sl_next := (sl_next s)(entry := v)\<rparr>"

definition SLinkedListMarkRemoved :: "SLinkedList \<Rightarrow> addr \<Rightarrow> SLinkedList" where
  "SLinkedListMarkRemoved s entry = set_next s entry entry"

definition SLinkedListIsRemoved :: "SLinkedList \<Rightarrow> addr \<Rightarrow> bool" where
  "SLinkedListIsRemoved s entry \<longleftrightarrow> entry = sl_next s entry"

definition SLinkedList_Init :: "SLinkedList \<Rightarrow> SLinkedList" where
  "SLinkedList_Init s = s\<lparr>sl_first := NULL\<rparr>"

definition SLinkedList_Next :: "SLinkedList \<Rightarrow> addr \<Rightarrow> addr" where
  "SLinkedList_Next s entry = sl_next s entry"

definition SLinkedList_Prev :: "SLinkedList \<Rightarrow> addr \<Rightarrow> addr" where
  "SLinkedList_Prev s entry = (if entry = sl_first s then NULL else sl_prev s entry)"

definition SLinkedList_Prepend :: "SLinkedList \<Rightarrow> addr \<Rightarrow> SLinkedList" where
  "SLinkedList_Prepend s entry =
     (let s = set_next s entry (sl_first s);
          s = (if sl_first s \<noteq> NULL then set_prev s (sl_first s) entry else s)
      in s\<lparr>sl_first := entry\<rparr>)"

definition SLinkedList_InsertBefore :: "SLinkedList \<Rightarrow> addr \<Rightarrow> addr \<Rightarrow> SLinkedList" where
  "SLinkedList_InsertBefore s entry before_entry =
     (let s = set_next s entry before_entry;
          s = (if before_entry \<noteq> sl_first s then
                 let s = set_prev s entry (sl_prev s before_entry)
                 in set_next s (sl_prev s before_entry) entry
               else s\<lparr>sl_first := entry\<rparr>)
      in set_prev s before_entry entry)"

definition SLinkedList_InsertAfter :: "SLinkedList \<Rightarrow> addr \<Rightarrow> addr \<Rightarrow> SLinkedList" where
  "SLinkedList_InsertAfter s entry after_entry =
     (let s = set_next s entry (sl_next s after_entry);
          s = set_prev s entry after_entry;
          s = (if sl_next s after_entry \<noteq> NULL then set_prev s (sl_next s after_entry) entry else s)
      in set_next s after_entry entry)"

definition SLinkedList_Remove :: "SLinkedList \<Rightarrow> addr \<Rightarrow> SLinkedList" where
  "SLinkedList_Remove s entry =
     (if entry \<noteq> sl_first s then
        let s = set_next s (sl_prev s entry) (sl_next s entry)
        in if sl_next s entry \<noteq> NULL then set_prev s (sl_next s entry) (sl_prev s entry) else s
      else s\<lparr>sl_first := sl_next s entry\<rparr>)"

definition SLinkedList_RemoveFirst :: "SLinkedList \<Rightarrow> SLinkedList" where
  "SLinkedList_RemoveFirst s = s\<lparr>sl_first := sl_next s (sl_first s)\<rparr>"

definition SLinkedList_First :: "SLinkedList \<Rightarrow> addr" where
  "SLinkedList_First s = sl_first s"

definition SLinkedList_IsEmpty :: "SLinkedList \<Rightarrow> bool" where
  "SLinkedList_IsEmpty s \<longleftrightarrow> sl_first s = NULL"

subsection \<open>Jobs\<close>

text \<open>The handler of a job together with its argument is a value of an arbitrary type.\<close>

record 'h BPendingGroup =
  pg_jobs :: SLinkedList
  pg_ctr :: int
  pg_pending :: "addr \<Rightarrow> bool"
  pg_handler :: "addr \<Rightarrow> 'h"

abbreviation (input) "INT32_MAX \<equiv> (2147483647 :: int)"

definition DebugCounter_Increment :: "int \<Rightarrow> int option" where
  "DebugCounter_Increment c = do {
     ASSERT (c \<ge> 0);
     Some (if c \<noteq> INT32_MAX then c + 1 else c)
   }"

definition DebugCounter_Decrement :: "int \<Rightarrow> int option" where
  "DebugCounter_Decrement c = do {
     ASSERT (c > 0);
     Some (if c \<noteq> INT32_MAX then c - 1 else c)
   }"

definition BPendingGroup_Init :: "'h BPendingGroup \<Rightarrow> 'h BPendingGroup" where
  "BPendingGroup_Init g = g\<lparr>pg_jobs := SLinkedList_Init (pg_jobs g), pg_ctr := 0\<rparr>"

definition BPendingGroup_Free :: "'h BPendingGroup \<Rightarrow> unit option" where
  "BPendingGroup_Free g = do {
     ASSERT (pg_ctr g = 0 \<or> pg_ctr g = INT32_MAX);
     ASSERT (SLinkedList_IsEmpty (pg_jobs g))
   }"

definition BPendingGroup_HasJobs :: "'h BPendingGroup \<Rightarrow> bool" where
  "BPendingGroup_HasJobs g \<longleftrightarrow> \<not> SLinkedList_IsEmpty (pg_jobs g)"

definition BPendingGroup_PeekJob :: "'h BPendingGroup \<Rightarrow> addr" where
  "BPendingGroup_PeekJob g = SLinkedList_First (pg_jobs g)"

text \<open>The handler is called last; it is returned.\<close>

definition BPendingGroup_ExecuteJob :: "'h BPendingGroup \<Rightarrow> ('h BPendingGroup \<times> 'h) option" where
  "BPendingGroup_ExecuteJob g = do {
     ASSERT (\<not> SLinkedList_IsEmpty (pg_jobs g));
     let p = SLinkedList_First (pg_jobs g);
     ASSERT (\<not> SLinkedListIsRemoved (pg_jobs g) p);
     ASSERT (pg_pending g p);
     let jobs = SLinkedListMarkRemoved (SLinkedList_RemoveFirst (pg_jobs g)) p;
     Some (g\<lparr>pg_jobs := jobs, pg_pending := (pg_pending g)(p := False)\<rparr>, pg_handler g p)
   }"

definition BSmallPending_Init :: "'h BPendingGroup \<Rightarrow> addr \<Rightarrow> 'h \<Rightarrow> 'h BPendingGroup option" where
  "BSmallPending_Init g job handler = do {
     ctr \<leftarrow> DebugCounter_Increment (pg_ctr g);
     Some (g\<lparr>pg_handler := (pg_handler g)(job := handler), pg_jobs := SLinkedListMarkRemoved (pg_jobs g) job,
             pg_pending := (pg_pending g)(job := False), pg_ctr := ctr\<rparr>)
   }"

definition BSmallPending_Free :: "'h BPendingGroup \<Rightarrow> addr \<Rightarrow> 'h BPendingGroup option" where
  "BSmallPending_Free g job = do {
     ctr \<leftarrow> DebugCounter_Decrement (pg_ctr g);
     ASSERT (pg_pending g job = (\<not> SLinkedListIsRemoved (pg_jobs g) job));
     Some (g\<lparr>pg_ctr := ctr,
             pg_jobs := (if \<not> SLinkedListIsRemoved (pg_jobs g) job then SLinkedList_Remove (pg_jobs g) job else pg_jobs g)\<rparr>)
   }"

definition BSmallPending_SetHandler :: "'h BPendingGroup \<Rightarrow> addr \<Rightarrow> 'h \<Rightarrow> 'h BPendingGroup" where
  "BSmallPending_SetHandler g job handler = g\<lparr>pg_handler := (pg_handler g)(job := handler)\<rparr>"

definition BSmallPending_Set :: "'h BPendingGroup \<Rightarrow> addr \<Rightarrow> 'h BPendingGroup option" where
  "BSmallPending_Set g job = do {
     ASSERT (pg_pending g job = (\<not> SLinkedListIsRemoved (pg_jobs g) job));
     let jobs = (if \<not> SLinkedListIsRemoved (pg_jobs g) job then SLinkedList_Remove (pg_jobs g) job else pg_jobs g);
     let jobs = SLinkedList_Prepend jobs job;
     Some (g\<lparr>pg_jobs := jobs, pg_pending := (pg_pending g)(job := True)\<rparr>)
   }"

definition BSmallPending_Unset :: "'h BPendingGroup \<Rightarrow> addr \<Rightarrow> 'h BPendingGroup option" where
  "BSmallPending_Unset g job = do {
     ASSERT (pg_pending g job = (\<not> SLinkedListIsRemoved (pg_jobs g) job));
     if \<not> SLinkedListIsRemoved (pg_jobs g) job then do {
       let jobs = SLinkedListMarkRemoved (SLinkedList_Remove (pg_jobs g) job) job;
       Some (g\<lparr>pg_jobs := jobs, pg_pending := (pg_pending g)(job := False)\<rparr>)
     } else Some g
   }"

definition BSmallPending_IsSet :: "'h BPendingGroup \<Rightarrow> addr \<Rightarrow> bool option" where
  "BSmallPending_IsSet g job = do {
     ASSERT (pg_pending g job = (\<not> SLinkedListIsRemoved (pg_jobs g) job));
     Some (\<not> SLinkedListIsRemoved (pg_jobs g) job)
   }"

subsection \<open>The sequence a list represents\<close>

fun schain :: "SLinkedList \<Rightarrow> addr list \<Rightarrow> addr \<Rightarrow> bool" where
  "schain s [] n \<longleftrightarrow> True"
| "schain s [x] n \<longleftrightarrow> sl_next s x = n"
| "schain s (x # y # xs) n \<longleftrightarrow> sl_next s x = y \<and> sl_prev s y = x \<and> schain s (y # xs) n"

definition sl_rep :: "SLinkedList \<Rightarrow> addr list \<Rightarrow> bool" where
  "sl_rep s xs \<longleftrightarrow> distinct xs \<and> NULL \<notin> set xs \<and> schain s xs NULL \<and> sl_first s = (case xs of [] \<Rightarrow> NULL | x # _ \<Rightarrow> x)"

lemma schain_append:
  "xs \<noteq> [] \<Longrightarrow> ys \<noteq> [] \<Longrightarrow> schain s (xs @ ys) n \<longleftrightarrow> schain s xs (hd ys) \<and> sl_prev s (hd ys) = last xs \<and> schain s ys n"
  by (induction s xs n rule: schain.induct) (auto simp: neq_Nil_conv)

lemma schain_cong:
  assumes "\<forall>x\<in>set xs. sl_next s' x = sl_next s x" "\<forall>x\<in>set (tl xs). sl_prev s' x = sl_prev s x"
  shows "schain s' xs n = schain s xs n"
  using assms by (induction s xs n rule: schain.induct) auto

text \<open>The link to what follows is that of the last entry.\<close>

lemma schain_retarget:
  assumes "schain s xs n" "distinct xs" "xs \<noteq> []"
    "\<forall>x\<in>set xs. sl_next s' x = (if x = last xs then n' else sl_next s x)" "\<forall>x\<in>set (tl xs). sl_prev s' x = sl_prev s x"
  shows "schain s' xs n'"
  using assms
proof (induction s xs n rule: schain.induct)
  case (3 s x y xs n)
  have "x \<noteq> last (y # xs)"
    using "3.prems"(2) last_in_set [of "y # xs"] by auto
  then show ?case
    using 3 by simp
qed auto

lemma schain_next: "schain s (xs @ x # ys) n \<Longrightarrow> sl_next s x = (if ys = [] then n else hd ys)"
  by (cases "xs = []"; cases ys) (auto simp: schain_append)

lemma schain_prev: "schain s (xs @ x # ys) n \<Longrightarrow> xs \<noteq> [] \<Longrightarrow> sl_prev s x = last xs"
  by (simp add: schain_append)

lemma sl_rep_next_neq:
  assumes "sl_rep s xs" "x \<in> set xs"
  shows "sl_next s x \<noteq> x"
proof -
  obtain us vs where xs: "xs = us @ x # vs"
    using assms(2) by (auto simp: in_set_conv_decomp)
  then have "sl_next s x = (if vs = [] then NULL else hd vs)" "x \<noteq> NULL" "x \<notin> set vs"
    using assms(1) schain_next [of s us x vs NULL] by (auto simp: sl_rep_def)
  then show ?thesis
    using hd_in_set [of vs] by (auto split: if_splits)
qed

lemma ends_neq: "xs \<noteq> [] \<Longrightarrow> a \<notin> set xs \<Longrightarrow> hd xs \<noteq> a \<and> last xs \<noteq> a"
  using hd_in_set last_in_set by metis

lemma sl_rep_split:
  "sl_rep s (xs @ x # ys) \<longleftrightarrow> distinct (xs @ x # ys) \<and> NULL \<notin> set (xs @ x # ys) \<and> schain s (xs @ x # ys) NULL \<and>
     sl_first s = (if xs = [] then x else hd xs)"
  by (cases xs) (auto simp: sl_rep_def)

lemma SLinkedList_Prepend_ok:
  assumes "sl_rep s xs" "x \<notin> set xs" "x \<noteq> NULL"
  shows "sl_rep (SLinkedList_Prepend s x) (x # xs)"
proof (cases xs)
  case (Cons y ys)
  then have "schain (SLinkedList_Prepend s x) xs NULL = schain s xs NULL"
    using assms by (intro schain_cong) (auto simp: sl_rep_def SLinkedList_Prepend_def set_next_def set_prev_def Let_def)
  then show ?thesis
    using assms Cons by (auto simp: sl_rep_def SLinkedList_Prepend_def set_next_def set_prev_def Let_def)
qed (use assms in \<open>simp add: sl_rep_def SLinkedList_Prepend_def set_next_def Let_def\<close>)

text \<open>Two parts \<open>xs\<close> and \<open>ys\<close> of a list are linked to each other.\<close>

lemma schain_join:
  assumes "schain s xs n" "schain s ys NULL" "distinct (xs @ ys)" "xs \<noteq> []"
    "\<forall>x. sl_next s' x = (if x = last xs then (if ys = [] then NULL else hd ys) else sl_next s x)"
    "\<forall>x. sl_prev s' x = (if ys \<noteq> [] \<and> x = hd ys then last xs else sl_prev s x)"
  shows "schain s' (xs @ ys) NULL"
proof -
  have e: "last xs \<in> set xs" "last xs \<notin> set ys" "ys \<noteq> [] \<Longrightarrow> hd ys \<notin> set xs" "ys \<noteq> [] \<Longrightarrow> hd ys \<notin> set (tl ys)"
    using assms(3) last_in_set [OF assms(4)] hd_in_set [of ys] by (auto, cases ys, auto)
  have 1: "\<forall>x\<in>set (tl xs). sl_prev s' x = sl_prev s x"
    using assms(6) e(3) list.set_sel(2) [OF assms(4)] by auto
  have 2: "\<forall>x\<in>set ys. sl_next s' x = sl_next s x"
    using assms(5) e(2) by auto
  have 3: "\<forall>x\<in>set (tl ys). sl_prev s' x = sl_prev s x"
    using assms(6) e(4) by auto
  have "schain s' xs (if ys = [] then NULL else hd ys)"
    using assms(3-5) 1 by (intro schain_retarget [OF assms(1)]) auto
  moreover have "schain s' ys NULL"
    using assms(2) schain_cong [OF 2 3] by simp
  ultimately show ?thesis
    using assms(4,6) by (cases "ys = []") (auto simp: schain_append)
qed

lemma SLinkedList_Remove_ok:
  assumes "sl_rep s (xs @ x # ys)"
  shows "sl_rep (SLinkedList_Remove s x) (xs @ ys)"
proof (cases "xs = []")
  case True
  then have "schain (SLinkedList_Remove s x) ys NULL = schain s ys NULL"
    using assms by (intro schain_cong) (auto simp: sl_rep_def SLinkedList_Remove_def)
  then show ?thesis
    using True assms by (cases ys) (auto simp: sl_rep_def SLinkedList_Remove_def)
next
  case False
  have r: "distinct (xs @ x # ys)" "NULL \<notin> set (xs @ x # ys)" "schain s (xs @ x # ys) NULL" "sl_first s = hd xs"
    using assms False by (simp_all add: sl_rep_split)
  have n: "sl_next s x = (if ys = [] then NULL else hd ys)" "sl_prev s x = last xs"
    using schain_next [OF r(3)] schain_prev [OF r(3) False] by auto
  have c: "schain s xs x" "schain s ys NULL"
    using r(3) False by (cases ys; simp add: schain_append)+
  have ne: "x \<noteq> hd xs" "x \<noteq> last xs" "ys \<noteq> [] \<Longrightarrow> hd ys \<noteq> NULL"
    using r(1,2) False ends_neq [of xs x] ends_neq [of ys NULL] by auto
  have "schain (SLinkedList_Remove s x) (xs @ ys) NULL"
    using r(1) n ne by (intro schain_join [OF c _ False])
      (auto simp: r(4) SLinkedList_Remove_def set_next_def set_prev_def Let_def)
  moreover have "sl_first (SLinkedList_Remove s x) = hd xs"
    using ne r(4) by (simp add: SLinkedList_Remove_def set_next_def set_prev_def Let_def)
  ultimately show ?thesis
    using r False by (cases xs) (auto simp: sl_rep_def)
qed

lemma SLinkedList_InsertBefore_ok:
  assumes "sl_rep s (xs @ t # ys)" "x \<notin> set (xs @ t # ys)" "x \<noteq> NULL"
  shows "sl_rep (SLinkedList_InsertBefore s x t) (xs @ x # t # ys)"
proof (cases "xs = []")
  case True
  then have "schain (SLinkedList_InsertBefore s x t) (t # ys) NULL = schain s (t # ys) NULL"
    using assms by (intro schain_cong) (auto simp: sl_rep_def SLinkedList_InsertBefore_def set_next_def set_prev_def Let_def)
  then show ?thesis
    using True assms by (auto simp: sl_rep_def SLinkedList_InsertBefore_def set_next_def set_prev_def Let_def)
next
  case False
  let ?s = "SLinkedList_InsertBefore s x t"
  have r: "distinct (xs @ t # ys)" "NULL \<notin> set (xs @ t # ys)" "schain s (xs @ t # ys) NULL" "sl_first s = hd xs"
    using assms(1) False by (simp_all add: sl_rep_split)
  have c: "schain s xs t" "sl_prev s t = last xs" "schain s (t # ys) NULL"
    using r(3) False by (simp_all add: schain_append)
  have ne: "t \<noteq> hd xs" "last xs \<in> set xs"
    using r(1) False hd_in_set [of xs] last_in_set [of xs] by auto
  have f: "sl_next ?s = (sl_next s)(x := t, last xs := x)" "sl_prev ?s = (sl_prev s)(x := last xs, t := x)" "sl_first ?s = hd xs"
    using ne r(1,4) assms(2) c(2) by (auto simp: SLinkedList_InsertBefore_def set_next_def set_prev_def Let_def)
  have "schain ?s xs x"
    using r(1) assms(2) False by (intro schain_retarget [OF c(1)]) (auto simp: f dest: list.set_sel(2) [OF False])
  moreover have "schain ?s (t # ys) NULL"
    using r(1) ne(2) assms(2) c(3) by (subst schain_cong [where s = s]) (auto simp: f)
  ultimately have "schain ?s (xs @ [x] @ t # ys) NULL"
    using False assms(2) ne(2) r(1) by (subst schain_append) (auto simp: f)
  then show ?thesis
    using r assms(2,3) f(3) False by (cases xs) (auto simp: sl_rep_def)
qed

lemma SLinkedList_InsertAfter_ok:
  assumes "sl_rep s (xs @ t # ys)" "x \<notin> set (xs @ t # ys)" "x \<noteq> NULL"
  shows "sl_rep (SLinkedList_InsertAfter s x t) (xs @ t # x # ys)"
proof -
  let ?s = "SLinkedList_InsertAfter s x t"
  have r: "distinct (xs @ t # ys)" "NULL \<notin> set (xs @ t # ys)" "schain s (xs @ t # ys) NULL" "sl_first s = (if xs = [] then t else hd xs)"
    using assms(1) by (simp_all add: sl_rep_split)
  let ?n = "if ys = [] then NULL else hd ys"
  have n: "sl_next s t = ?n" and nn: "?n \<noteq> NULL \<longleftrightarrow> ys \<noteq> []" "ys \<noteq> [] \<Longrightarrow> hd ys \<in> set ys"
    using schain_next [OF r(3)] r(2) ends_neq [of ys NULL] by auto
  have c: "schain s (xs @ [t]) ?n" "schain s ys NULL"
    using r(3) schain_append [of "xs @ [t]" ys s NULL] by (cases "ys = []"; simp)+
  have f: "sl_next ?s = (sl_next s)(x := ?n, t := x)" "sl_prev ?s = (if ys = [] then (sl_prev s)(x := t) else (sl_prev s)(x := t, hd ys := x))"
    "sl_first ?s = sl_first s"
    using n nn assms(2) by (auto simp: SLinkedList_InsertAfter_def set_next_def set_prev_def Let_def)
  have "schain ?s (xs @ [t]) x"
    using r(1) assms(2) nn(2) by (intro schain_retarget [OF c(1)]) (auto simp: f tl_append split: list.splits)
  moreover have "schain ?s ys NULL"
    using r(1) assms(2) c(2) by (subst schain_cong [where s = s]) (cases ys; auto simp: f)+
  ultimately have "schain ?s ((xs @ [t]) @ x # ys) NULL"
    using assms(2) nn(2) by (subst schain_append) (cases ys; auto simp: f)+
  then show ?thesis
    using r assms(2,3) f(3) by (auto simp: sl_rep_split)
qed

lemma SLinkedList_RemoveFirst_ok: "sl_rep s (x # xs) \<Longrightarrow> sl_rep (SLinkedList_RemoveFirst s) xs"
  using SLinkedList_Remove_ok [of s "[]" x xs] by (auto simp: sl_rep_def SLinkedList_Remove_def SLinkedList_RemoveFirst_def)

lemma SLinkedList_MarkRemoved_ok: "x \<notin> set xs \<Longrightarrow> sl_rep (SLinkedListMarkRemoved s x) xs = sl_rep s xs"
  using schain_cong [of xs "SLinkedListMarkRemoved s x" s NULL]
  by (auto simp: sl_rep_def SLinkedListMarkRemoved_def set_next_def)

lemma SLinkedList_ends_ok:
  assumes "sl_rep s xs"
  shows "SLinkedList_IsEmpty s \<longleftrightarrow> xs = []" "SLinkedList_First s = (case xs of [] \<Rightarrow> NULL | x # _ \<Rightarrow> x)"
  using assms by (auto simp: sl_rep_def SLinkedList_IsEmpty_def SLinkedList_First_def split: list.splits)

lemma SLinkedList_neighbours_ok:
  assumes "sl_rep s (xs @ x # ys)"
  shows "SLinkedList_Next s x = (if ys = [] then NULL else hd ys)" "SLinkedList_Prev s x = (if xs = [] then NULL else last xs)"
proof -
  have r: "distinct (xs @ x # ys)" "schain s (xs @ x # ys) NULL" "sl_first s = (if xs = [] then x else hd xs)"
    using assms by (simp_all add: sl_rep_split)
  show "SLinkedList_Next s x = (if ys = [] then NULL else hd ys)"
    using schain_next [OF r(2)] by (simp add: SLinkedList_Next_def)
  show "SLinkedList_Prev s x = (if xs = [] then NULL else last xs)"
    using schain_prev [OF r(2)] r(1,3) hd_in_set [of xs] by (auto simp: SLinkedList_Prev_def)
qed

subsection \<open>Users of the job list\<close>

text \<open>
  What the components do with a group: create a job, delete it, set it, clear it, change its
  handler; and the reactor executes the top job. The result has the handlers called.
\<close>

datatype 'h job_op = JobInit addr 'h | JobFree addr | JobSet addr | JobUnset addr | JobHandler addr 'h | JobRun

fun jq_step :: "'h BPendingGroup \<Rightarrow> 'h job_op \<Rightarrow> ('h BPendingGroup \<times> 'h list) option" where
  "jq_step g (JobInit j h) = do { g \<leftarrow> BSmallPending_Init g j h; Some (g, []) }"
| "jq_step g (JobFree j) = do { g \<leftarrow> BSmallPending_Free g j; Some (g, []) }"
| "jq_step g (JobSet j) = do { g \<leftarrow> BSmallPending_Set g j; Some (g, []) }"
| "jq_step g (JobUnset j) = do { g \<leftarrow> BSmallPending_Unset g j; Some (g, []) }"
| "jq_step g (JobHandler j h) = Some (BSmallPending_SetHandler g j h, [])"
| "jq_step g JobRun = do { (g, h) \<leftarrow> BPendingGroup_ExecuteJob g; Some (g, [h]) }"

fun jq_exec :: "'h BPendingGroup \<Rightarrow> 'h job_op list \<Rightarrow> ('h BPendingGroup \<times> 'h list) option" where
  "jq_exec g [] = Some (g, [])"
| "jq_exec g (e # es) = do { (g, hs) \<leftarrow> jq_step g e; (g, hs') \<leftarrow> jq_exec g es; Some (g, hs @ hs') }"

text \<open>
  The specification: the handlers of the jobs that exist, and the jobs that are set, the
  one that was set last in front. The jobs that may be used are those that exist.
\<close>

type_synonym 'h job_stack = "(addr \<rightharpoonup> 'h) \<times> addr list"

fun stack_step :: "'h job_stack \<Rightarrow> 'h job_op \<Rightarrow> 'h job_stack \<times> 'h list" where
  "stack_step (hs, js) (JobInit j h) = ((hs(j \<mapsto> h), js), [])"
| "stack_step (hs, js) (JobFree j) = ((hs(j := None), removeAll j js), [])"
| "stack_step (hs, js) (JobSet j) = ((hs, j # removeAll j js), [])"
| "stack_step (hs, js) (JobUnset j) = ((hs, removeAll j js), [])"
| "stack_step (hs, js) (JobHandler j h) = ((hs(j \<mapsto> h), js), [])"
| "stack_step (hs, js) JobRun = ((hs, tl js), [the (hs (hd js))])"

fun stack_enabled :: "'h job_stack \<Rightarrow> 'h job_op \<Rightarrow> bool" where
  "stack_enabled (hs, js) (JobInit j h) \<longleftrightarrow> j \<noteq> NULL \<and> hs j = None"
| "stack_enabled (hs, js) (JobFree j) \<longleftrightarrow> hs j \<noteq> None"
| "stack_enabled (hs, js) (JobSet j) \<longleftrightarrow> hs j \<noteq> None"
| "stack_enabled (hs, js) (JobUnset j) \<longleftrightarrow> hs j \<noteq> None"
| "stack_enabled (hs, js) (JobHandler j h) \<longleftrightarrow> hs j \<noteq> None"
| "stack_enabled (hs, js) JobRun \<longleftrightarrow> js \<noteq> []"

fun stack_run :: "'h job_stack \<Rightarrow> 'h job_op list \<Rightarrow> 'h job_stack \<times> 'h list" where
  "stack_run st [] = (st, [])"
| "stack_run st (e # es) = (let (st, hs) = stack_step st e; (st, hs') = stack_run st es in (st, hs @ hs'))"

fun stack_possible :: "'h job_stack \<Rightarrow> 'h job_op list \<Rightarrow> bool" where
  "stack_possible st [] \<longleftrightarrow> True"
| "stack_possible st (e # es) \<longleftrightarrow> stack_enabled st e \<and> stack_possible (fst (stack_step st e)) es"

definition jq_inv :: "'h BPendingGroup \<Rightarrow> 'h job_stack \<Rightarrow> bool" where
  "jq_inv g st \<longleftrightarrow> (case st of (hs, js) \<Rightarrow> sl_rep (pg_jobs g) js \<and> finite (dom hs) \<and> set js \<subseteq> dom hs \<and> hs NULL = None \<and>
     (pg_ctr g = INT32_MAX \<or> pg_ctr g = int (card (dom hs))) \<and>
     (\<forall>j h. hs j = Some h \<longrightarrow> pg_handler g j = h \<and> pg_pending g j = (j \<in> set js) \<and> (j \<notin> set js \<longrightarrow> sl_next (pg_jobs g) j = j)))"

text \<open>The mark of a job tells whether it is set.\<close>

lemma jq_is_set:
  assumes "jq_inv g (hs, js)" "hs j \<noteq> None"
  shows "SLinkedListIsRemoved (pg_jobs g) j \<longleftrightarrow> j \<notin> set js" "pg_pending g j \<longleftrightarrow> j \<in> set js"
  using assms sl_rep_next_neq [of "pg_jobs g" js j] by (auto simp: jq_inv_def SLinkedListIsRemoved_def)

lemma SLinkedList_Remove_next: "sl_rep s (xs @ x # ys) \<Longrightarrow> y \<notin> set xs \<Longrightarrow> sl_next (SLinkedList_Remove s x) y = sl_next s y"
  using schain_prev [of s xs x ys NULL] ends_neq [of xs y]
  by (auto simp: sl_rep_split SLinkedList_Remove_def set_next_def set_prev_def Let_def split: if_splits)

text \<open>Taking a job out of the list, if it is there.\<close>

lemma job_removed:
  fixes j
  assumes "sl_rep s js"
  defines "s' \<equiv> (if j \<in> set js then SLinkedList_Remove s j else s)"
  shows "sl_rep s' (removeAll j js)" "\<forall>y. y \<notin> set js \<longrightarrow> sl_next s' y = sl_next s y"
proof -
  have "sl_rep s' (removeAll j js) \<and> (\<forall>y. y \<notin> set js \<longrightarrow> sl_next s' y = sl_next s y)"
  proof (cases "j \<in> set js")
    case True
    then obtain xs ys where xs: "js = xs @ j # ys"
      by (auto simp: in_set_conv_decomp)
    moreover have "removeAll j js = xs @ ys"
      using assms(1) by (simp add: xs sl_rep_split)
    ultimately show ?thesis
      using SLinkedList_Remove_ok [of s xs j ys] SLinkedList_Remove_next [of s xs j ys] assms(1) True by (auto simp: s'_def)
  qed (use assms in \<open>simp add: s'_def\<close>)
  then show "sl_rep s' (removeAll j js)" "\<forall>y. y \<notin> set js \<longrightarrow> sl_next s' y = sl_next s y"
    by auto
qed

lemma counter_ok:
  assumes "finite A" "c = INT32_MAX \<or> c = int (card A)"
  shows "j \<notin> A \<Longrightarrow> \<exists>c'. DebugCounter_Increment c = Some c' \<and> (c' = INT32_MAX \<or> c' = int (card (insert j A)))"
    "j \<in> A \<Longrightarrow> \<exists>c'. DebugCounter_Decrement c = Some c' \<and> (c' = INT32_MAX \<or> c' = int (card (A - {j})))"
  using assms card_gt_0_iff [of A] by (auto simp: DebugCounter_Increment_def DebugCounter_Decrement_def ASSERT_def card_insert_if)


lemma job_init_ok:
  assumes "jq_inv g (hs, js)" "j \<noteq> NULL" "hs j = None"
  shows "\<exists>g'. BSmallPending_Init g j h = Some g' \<and> jq_inv g' (hs(j \<mapsto> h), js)"
proof -
  have i: "sl_rep (pg_jobs g) js" "j \<notin> set js" "finite (dom hs)" "j \<notin> dom hs" "pg_ctr g = INT32_MAX \<or> pg_ctr g = int (card (dom hs))"
    using assms by (auto simp: jq_inv_def)
  obtain c where "DebugCounter_Increment (pg_ctr g) = Some c" "c = INT32_MAX \<or> c = int (card (insert j (dom hs)))"
    using counter_ok(1) [OF i(3,5,4)] by blast
  then show ?thesis
    using assms i SLinkedList_MarkRemoved_ok [OF i(2), of "pg_jobs g"]
    by (auto simp: jq_inv_def BSmallPending_Init_def SLinkedListMarkRemoved_def set_next_def)
qed

lemma job_free_ok:
  assumes "jq_inv g (hs, js)" "hs j \<noteq> None"
  shows "\<exists>g'. BSmallPending_Free g j = Some g' \<and> jq_inv g' (hs(j := None), removeAll j js)"
proof -
  have i: "sl_rep (pg_jobs g) js" "finite (dom hs)" "j \<in> dom hs" "pg_ctr g = INT32_MAX \<or> pg_ctr g = int (card (dom hs))"
    using assms by (auto simp: jq_inv_def)
  obtain c where "DebugCounter_Decrement (pg_ctr g) = Some c" "c = INT32_MAX \<or> c = int (card (dom hs - {j}))"
    using counter_ok(2) [OF i(2,4,3)] by blast
  then show ?thesis
    using assms job_removed [OF i(1), of j] jq_is_set [OF assms]
    by (auto simp: jq_inv_def BSmallPending_Free_def)
qed

lemma job_set_ok:
  assumes "jq_inv g (hs, js)" "hs j \<noteq> None"
  shows "\<exists>g'. BSmallPending_Set g j = Some g' \<and> jq_inv g' (hs, j # removeAll j js)"
proof -
  define jobs where "jobs = (if j \<in> set js then SLinkedList_Remove (pg_jobs g) j else pg_jobs g)"
  have i: "sl_rep jobs (removeAll j js)" "\<forall>y. y \<notin> set js \<longrightarrow> sl_next jobs y = sl_next (pg_jobs g) y"
    using assms job_removed [of "pg_jobs g" js j] by (auto simp: jq_inv_def jobs_def)
  have "j \<noteq> NULL"
    using assms by (cases "j = NULL") (auto simp: jq_inv_def)
  then have "sl_rep (SLinkedList_Prepend jobs j) (j # removeAll j js)"
    using SLinkedList_Prepend_ok [OF i(1)] by simp
  moreover have "y \<noteq> j \<Longrightarrow> sl_next (SLinkedList_Prepend jobs j) y = sl_next jobs y" for y
    by (simp add: SLinkedList_Prepend_def set_next_def set_prev_def Let_def)
  moreover have "BSmallPending_Set g j = Some (g\<lparr>pg_jobs := SLinkedList_Prepend jobs j, pg_pending := (pg_pending g)(j := True)\<rparr>)"
    using jq_is_set [OF assms] by (simp add: BSmallPending_Set_def jobs_def Let_def)
  ultimately show ?thesis
    using assms i(2) by (auto simp: jq_inv_def)
qed

lemma job_unset_ok:
  assumes "jq_inv g (hs, js)" "hs j \<noteq> None"
  shows "\<exists>g'. BSmallPending_Unset g j = Some g' \<and> jq_inv g' (hs, removeAll j js)"
proof (cases "j \<in> set js")
  case True
  define jobs where "jobs = SLinkedList_Remove (pg_jobs g) j"
  have "sl_rep jobs (removeAll j js)" "\<forall>y. y \<notin> set js \<longrightarrow> sl_next jobs y = sl_next (pg_jobs g) y"
    using assms(1) job_removed [of "pg_jobs g" js j] True by (auto simp: jq_inv_def jobs_def)
  moreover have "BSmallPending_Unset g j = Some (g\<lparr>pg_jobs := SLinkedListMarkRemoved jobs j, pg_pending := (pg_pending g)(j := False)\<rparr>)"
    using jq_is_set [OF assms] True by (simp add: BSmallPending_Unset_def jobs_def Let_def)
  ultimately show ?thesis
    using assms SLinkedList_MarkRemoved_ok [of j "removeAll j js" jobs] by (auto simp: jq_inv_def) (auto simp: SLinkedListMarkRemoved_def set_next_def)
qed (use assms jq_is_set [OF assms] in \<open>simp add: BSmallPending_Unset_def\<close>)

lemma job_run_ok:
  assumes "jq_inv g (hs, j # js)"
  shows "\<exists>g'. BPendingGroup_ExecuteJob g = Some (g', the (hs j)) \<and> jq_inv g' (hs, js)"
proof -
  have i: "sl_rep (pg_jobs g) (j # js)" "hs j \<noteq> None" "j \<notin> set js"
    using assms by (auto simp: jq_inv_def sl_rep_def)
  define jobs where "jobs = SLinkedListMarkRemoved (SLinkedList_RemoveFirst (pg_jobs g)) j"
  have "sl_rep jobs js"
    using SLinkedList_RemoveFirst_ok [OF i(1)] unfolding jobs_def SLinkedList_MarkRemoved_ok [OF i(3)] .
  moreover have "sl_next jobs = (sl_next (pg_jobs g))(j := j)"
    by (simp add: jobs_def SLinkedListMarkRemoved_def SLinkedList_RemoveFirst_def set_next_def)
  moreover have "BPendingGroup_ExecuteJob g = Some (g\<lparr>pg_jobs := jobs, pg_pending := (pg_pending g)(j := False)\<rparr>, pg_handler g j)"
    using jq_is_set [OF assms i(2)] SLinkedList_ends_ok [OF i(1)] by (simp add: BPendingGroup_ExecuteJob_def jobs_def Let_def)
  ultimately show ?thesis
    using assms i(2,3) by (auto simp: jq_inv_def)
qed

lemma jq_step_ok:
  assumes "jq_inv g st" "stack_enabled st e"
  shows "\<exists>g'. jq_step g e = Some (g', snd (stack_step st e)) \<and> jq_inv g' (fst (stack_step st e))"
proof -
  obtain hs js where st: "st = (hs, js)"
    by fastforce
  show ?thesis
  proof (cases e)
    case (JobHandler j h)
    then have "j \<noteq> NULL" "insert j (dom hs) = dom hs"
      using assms by (auto simp: st jq_inv_def intro: gr0I)
    then show ?thesis
      using assms JobHandler by (auto simp: st jq_inv_def BSmallPending_SetHandler_def)
  next
    case JobRun
    then show ?thesis
      using assms job_run_ok [of g hs "hd js" "tl js"] by (auto simp: st)
  next
    case (JobInit j h)
    then show ?thesis
      using assms job_init_ok [of g hs js j h] by (auto simp: st)
  next
    case (JobFree j)
    then show ?thesis
      using assms job_free_ok [of g hs js j] by (auto simp: st)
  next
    case (JobSet j)
    then show ?thesis
      using assms job_set_ok [of g hs js j] by (auto simp: st)
  next
    case (JobUnset j)
    then show ?thesis
      using assms job_unset_ok [of g hs js j] by (auto simp: st)
  qed
qed

lemma jq_exec_ok:
  assumes "jq_inv g st" "stack_possible st es"
  shows "\<exists>g'. jq_exec g es = Some (g', snd (stack_run st es)) \<and> jq_inv g' (fst (stack_run st es))"
  using assms
proof (induction es arbitrary: g st)
  case (Cons e es)
  obtain g1 where g1: "jq_step g e = Some (g1, snd (stack_step st e))" "jq_inv g1 (fst (stack_step st e))"
    using jq_step_ok [of g st e] Cons.prems by auto
  then show ?case
    using Cons.IH [OF g1(2)] Cons.prems(2) by (auto simp: split_beta Let_def)
qed simp

text \<open>
  \<^bold>\<open>C18\<close>: the list of jobs is a stack from which jobs can be withdrawn. For every sequence of
  creating, deleting, setting, clearing and executing jobs that uses only existing jobs, no
  assertion fails, the handlers are called in the order of the specification (the job set last
  is executed first, setting a job again moves it to the top), every job knows
  whether it is set, and a group without jobs can be freed.
\<close>

theorem BPending_refines_stack:
  assumes "stack_possible (Map.empty, []) es" "stack_run (Map.empty, []) es = ((hs, js), called)"
  shows "\<exists>g. jq_exec (BPendingGroup_Init mem) es = Some (g, called) \<and> sl_rep (pg_jobs g) js \<and>
    (BPendingGroup_HasJobs g \<longleftrightarrow> js \<noteq> []) \<and> BPendingGroup_PeekJob g = (if js = [] then NULL else hd js) \<and>
    (\<forall>j. hs j \<noteq> None \<longrightarrow> BSmallPending_IsSet g j = Some (j \<in> set js)) \<and> (hs = Map.empty \<longrightarrow> BPendingGroup_Free g = Some ())"
proof -
  have "jq_inv (BPendingGroup_Init mem) (Map.empty, [])"
    by (simp add: jq_inv_def BPendingGroup_Init_def SLinkedList_Init_def sl_rep_def)
  from jq_exec_ok [OF this assms(1)] obtain g where g: "jq_exec (BPendingGroup_Init mem) es = Some (g, called)" "jq_inv g (hs, js)"
    using assms(2) by auto
  then have r: "sl_rep (pg_jobs g) js" "set js \<subseteq> dom hs" "pg_ctr g = INT32_MAX \<or> pg_ctr g = int (card (dom hs))"
    by (auto simp: jq_inv_def)
  then show ?thesis
    using g(1) SLinkedList_ends_ok [OF r(1)] jq_is_set [OF g(2)]
    by (auto simp: BPendingGroup_HasJobs_def BPendingGroup_PeekJob_def BSmallPending_IsSet_def BPendingGroup_Free_def split: list.splits)
qed

theorem BPending_refines_stack_witness:
  "\<exists>mem g. jq_exec (BPendingGroup_Init mem)
     [JobInit 1 ''a'', JobInit 2 ''b'', JobInit 3 ''c'', JobSet 1, JobSet 2, JobSet 3, JobSet 1, JobUnset 3, JobRun, JobRun] = Some (g, [''a'', ''b'']) \<and>
   sl_rep (pg_jobs g) [] \<and> BSmallPending_IsSet g 3 = Some False"
proof -
  let ?es = "[JobInit 1 ''a'', JobInit 2 ''b'', JobInit 3 ''c'', JobSet 1, JobSet 2, JobSet 3, JobSet 1, JobUnset 3, JobRun, JobRun]"
  let ?hs = "[1 \<mapsto> ''a'', 2 \<mapsto> ''b'', 3 \<mapsto> ''c'']"
  have "stack_possible (Map.empty, []) ?es" "stack_run (Map.empty, []) ?es = ((?hs, []), [''a'', ''b''])"
    by simp_all
  from BPending_refines_stack [OF this] show ?thesis
    by fastforce
qed

end
