(* ===== verification/SocksUdpGw.thy ===== *)
theory SocksUdpGw
  imports UdpGwProto LinkedList TreeIndex "HOL-Library.Monad_Syntax"
begin

text \<open>
  The UDP client of the Android build: the \<^verbatim>\<open>__ANDROID__\<close> part of
  \<^verbatim>\<open>tun2socks/SocksUdpGwClient.c\<close>. For every local address that sends datagrams it keeps a
  connection with a UDP socket of its own; a datagram goes to the SOCKS server behind a SOCKS
  header that names its destination, or unchanged to the DNS gateway. The connections are in
  an AVL tree by their local address and in a list in the order of their use, and the least
  recently used one makes room when there are too many.

  A connection is named by its address; \<open>su_alloc\<close> are the structures that are allocated. A
  step that would touch another structure, or release the parts of a connection in another order than they were
  created, or that fails an assertion of the source is \<open>None\<close>. The jobs that wait for execution are the stack
  \<open>su_jobs\<close>, as in \<open>JobQueue\<close>. The socket and the buffers in front of it are not modelled further:
  the writer of a connection has a buffer or not (\<open>uc_out_have\<close>), \<open>uc_sent\<close> are the datagrams
  written and \<open>uc_send_addr\<close> is the address the socket sends them to; what
  \<^verbatim>\<open>malloc\<close>, \<^verbatim>\<open>BDatagram\<close> and the buffers answer is a parameter.
\<close>

subsection \<open>State\<close>

record SocksUdpGwClient_conaddr =
  sa_local :: BAddr
  sa_remote :: BAddr

datatype su_resource = ResDgram | ResSendAsync | ResRecvAsync | ResWriter | ResSendBuffer | ResRecvIf | ResRecvBuffer

record SocksUdpGwClient_connection =
  uc_conaddr :: SocksUdpGwClient_conaddr
  uc_first_data :: "byte list"
  uc_is_dns :: bool
  uc_send_addr :: BAddr
  uc_res :: "su_resource list"
  uc_out_have :: bool
  uc_sent :: "byte list list"

text \<open>The first job of a connection, and the job that gives its writer the first buffer.\<close>

datatype su_job = FirstJob addr | RecvJob addr

record SocksUdpGwClient =
  su_udp_mtu :: int
  su_socks_server_addr :: BAddr
  su_dnsgw :: BAddr
  su_udpgw_mtu :: int
  su_num_connections :: int
  su_max_connections :: int
  su_tree :: BAVL
  su_list :: LinkedList1
  su_jobs :: "su_job list"
  su_alloc :: "addr list"
  su_con :: "addr \<Rightarrow> SocksUdpGwClient_connection"

definition upd_uc :: "addr \<Rightarrow> (SocksUdpGwClient_connection \<Rightarrow> SocksUdpGwClient_connection) \<Rightarrow> SocksUdpGwClient \<Rightarrow> SocksUdpGwClient" where
  "upd_uc con u cl = cl\<lparr>su_con := (su_con cl)(con := u (su_con cl con))\<rparr>"

text \<open>
  The parts of a connection are released in the opposite order of their creation. Freeing
  the writer takes its job away.
\<close>

definition su_acquire :: "su_resource \<Rightarrow> addr \<Rightarrow> SocksUdpGwClient \<Rightarrow> SocksUdpGwClient" where
  "su_acquire r con cl = upd_uc con (uc_res_update (\<lambda>rs. r # rs)) cl"

definition su_release :: "su_resource \<Rightarrow> addr \<Rightarrow> SocksUdpGwClient \<Rightarrow> SocksUdpGwClient option" where
  "su_release r con cl = do {
     ASSERT (con \<in> set (su_alloc cl));
     case uc_res (su_con cl con) of
       [] \<Rightarrow> None
     | r' # rs \<Rightarrow> do {
         ASSERT (r' = r);
         let cl = (if r = ResWriter then cl\<lparr>su_jobs := removeAll (RecvJob con) (su_jobs cl)\<rparr> else cl);
         Some (upd_uc con (uc_res_update (\<lambda>_. rs)) cl)
       }
   }"

definition su_free_struct :: "addr \<Rightarrow> SocksUdpGwClient \<Rightarrow> SocksUdpGwClient option" where
  "su_free_struct con cl = do {
     ASSERT (con \<in> set (su_alloc cl) \<and> uc_res (su_con cl con) = []);
     Some (cl\<lparr>su_alloc := removeAll con (su_alloc cl)\<rparr>)
   }"

subsection \<open>Connections\<close>

abbreviation (input) "SOCKS_ATYP_4 \<equiv> (1 :: byte)"
abbreviation (input) "SOCKS_ATYP_6 \<equiv> (4 :: byte)"

abbreviation (input) uc_addr :: "SocksUdpGwClient \<Rightarrow> addr \<Rightarrow> SocksUdpGwClient_conaddr" where
  "uc_addr cl \<equiv> \<lambda>con. uc_conaddr (su_con cl con)"

definition su_conaddr_comparator :: "SocksUdpGwClient_conaddr \<Rightarrow> SocksUdpGwClient_conaddr \<Rightarrow> int" where
  "su_conaddr_comparator v1 v2 = BAddr_CompareOrder (sa_local v1) (sa_local v2)"

text \<open>The condition of the second test is that of the source: it never holds.\<close>

definition su_find_connection :: "SocksUdpGwClient \<Rightarrow> SocksUdpGwClient_conaddr \<Rightarrow> bool \<Rightarrow> addr option" where
  "su_find_connection cl conaddr is_dns = do {
     tree_node \<leftarrow> BAVL_LookupExact su_conaddr_comparator (uc_addr cl) (su_tree cl) conaddr;
     if tree_node = NULL then Some NULL
     else do {
       let con = tree_node;
       if con = NULL \<and> uc_is_dns (su_con cl con) \<noteq> is_dns then Some NULL else Some con
     }
   }"

text \<open>
  The result is 1 if the writer has no buffer. The assertion on the length of the
  datagram is that of \<^verbatim>\<open>BufferWriter_EndPacket\<close>; the buffers have the size \<^verbatim>\<open>udp_mtu\<close>.
\<close>

definition su_connection_send :: "SocksUdpGwClient \<Rightarrow> addr \<Rightarrow> byte list \<Rightarrow> (SocksUdpGwClient \<times> int) option" where
  "su_connection_send cl con data = do {
     ASSERT (con \<in> set (su_alloc cl));
     let c = su_con cl con;
     if \<not> uc_out_have c then Some (cl, 1)
     else do {
       let remote_addr = sa_remote (uc_conaddr c);
       let header = (if \<not> uc_is_dns c
         then socks_udp_header_bytes 0 0 (if BAddr_type remote_addr = 1 then SOCKS_ATYP_4 else SOCKS_ATYP_6) @ udpgw_addr_bytes remote_addr
         else []);
       let out = header @ data;
       ASSERT (int (length out) \<le> su_udp_mtu cl);
       Some (upd_uc con (\<lambda>c. c\<lparr>uc_out_have := False, uc_sent := uc_sent c @ [out]\<rparr>) cl, 0)
     }
   }"

definition su_connection_first_job_handler :: "SocksUdpGwClient \<Rightarrow> addr \<Rightarrow> SocksUdpGwClient option" where
  "su_connection_first_job_handler cl con = do {
     ASSERT (con \<in> set (su_alloc cl));
     (cl, res) \<leftarrow> su_connection_send cl con (uc_first_data (su_con cl con));
     Some cl
   }"

text \<open>The error exits of \<open>su_connection_init\<close>.\<close>

definition su_fail0 :: "SocksUdpGwClient \<Rightarrow> addr \<Rightarrow> (SocksUdpGwClient \<times> addr) option" where
  "su_fail0 cl con = do {
     cl \<leftarrow> su_free_struct con (cl\<lparr>su_jobs := removeAll (FirstJob con) (su_jobs cl)\<rparr>);
     Some (cl, NULL)
   }"

definition su_fail1 :: "SocksUdpGwClient \<Rightarrow> addr \<Rightarrow> (SocksUdpGwClient \<times> addr) option" where
  "su_fail1 cl con = do {
     cl \<leftarrow> su_release ResDgram con cl;
     su_fail0 cl con
   }"

definition su_fail2 :: "SocksUdpGwClient \<Rightarrow> addr \<Rightarrow> (SocksUdpGwClient \<times> addr) option" where
  "su_fail2 cl con = do {
     cl \<leftarrow> su_release ResWriter con cl;
     cl \<leftarrow> su_release ResRecvAsync con cl;
     cl \<leftarrow> su_release ResSendAsync con cl;
     su_fail1 cl con
   }"

definition su_fail3 :: "SocksUdpGwClient \<Rightarrow> addr \<Rightarrow> (SocksUdpGwClient \<times> addr) option" where
  "su_fail3 cl con = do {
     cl \<leftarrow> su_release ResRecvIf con cl;
     cl \<leftarrow> su_release ResSendBuffer con cl;
     su_fail2 cl con
   }"

text \<open>Which of the initializations fails, if one does.\<close>

datatype su_outcome = InitOk | FailDgram | FailReuseAddr | FailSendBuffer | FailRecvBuffer

definition su_insert :: "SocksUdpGwClient \<Rightarrow> addr \<Rightarrow> SocksUdpGwClient option" where
  "su_insert cl con = do {
     (tree, res, ref) \<leftarrow> BAVL_Insert su_conaddr_comparator (uc_addr cl) (su_tree cl) con;
     ASSERT res;
     Some (cl\<lparr>su_tree := tree, su_list := LinkedList1_Append (su_list cl) con, su_num_connections := su_num_connections cl + 1\<rparr>)
   }"

text \<open>The structure is allocated, its arguments are set, and the first job is created and set.\<close>

definition su_connection_start :: "SocksUdpGwClient \<Rightarrow> addr \<Rightarrow> SocksUdpGwClient_conaddr \<Rightarrow> byte list \<Rightarrow> bool \<Rightarrow> SocksUdpGwClient" where
  "su_connection_start cl con conaddr data is_dns =
     cl\<lparr>su_alloc := con # su_alloc cl, su_jobs := FirstJob con # su_jobs cl,
       su_con := (su_con cl)(con := (su_con cl con)\<lparr>uc_conaddr := conaddr, uc_first_data := data, uc_is_dns := is_dns, uc_res := []\<rparr>)\<rparr>"

text \<open>
  \<open>con\<close> is the address \<^verbatim>\<open>malloc\<close> returns, or \<open>NULL\<close>. \<^verbatim>\<open>PacketBuffer_Init\<close> asks the writer for the first
  packet, which sets the job of the writer's output above the first job.
\<close>

definition su_connection_init ::
  "SocksUdpGwClient \<Rightarrow> SocksUdpGwClient_conaddr \<Rightarrow> byte list \<Rightarrow> bool \<Rightarrow> addr \<Rightarrow> su_outcome \<Rightarrow> (SocksUdpGwClient \<times> addr) option" where
  "su_connection_init cl conaddr data is_dns con outcome =
     (if con = NULL then Some (cl, NULL)
      else do {
        let cl = su_connection_start cl con conaddr data is_dns;
        if outcome = FailDgram then su_fail0 cl con
        else do {
          let cl = su_acquire ResDgram con cl;
          if outcome = FailReuseAddr then su_fail1 cl con
          else do {
            let cl = upd_uc con (\<lambda>c. c\<lparr>uc_send_addr := (if uc_is_dns c then su_dnsgw cl else su_socks_server_addr cl)\<rparr>) cl;
            let cl = su_acquire ResRecvAsync con (su_acquire ResSendAsync con cl);
            let cl = upd_uc con (\<lambda>c. c\<lparr>uc_out_have := False, uc_sent := []\<rparr>) (su_acquire ResWriter con cl);
            if outcome = FailSendBuffer then su_fail2 cl con
            else do {
              let cl = su_acquire ResSendBuffer con cl;
              let cl = cl\<lparr>su_jobs := RecvJob con # su_jobs cl\<rparr>;
              let cl = su_acquire ResRecvIf con cl;
              if outcome = FailRecvBuffer then su_fail3 cl con
              else do {
                cl \<leftarrow> su_insert (su_acquire ResRecvBuffer con cl) con;
                Some (cl, con)
              }
            }
          }
        }
      })"

definition su_connection_free :: "SocksUdpGwClient \<Rightarrow> addr \<Rightarrow> SocksUdpGwClient option" where
  "su_connection_free cl con = do {
     ASSERT (con \<noteq> NULL \<and> con \<in> set (su_alloc cl));
     let cl = cl\<lparr>su_num_connections := su_num_connections cl - 1, su_list := LinkedList1_Remove (su_list cl) con\<rparr>;
     tree \<leftarrow> BAVL_Remove (su_tree cl) con;
     let cl = cl\<lparr>su_tree := tree\<rparr>;
     cl \<leftarrow> su_release ResRecvBuffer con cl;
     cl \<leftarrow> su_release ResRecvIf con cl;
     cl \<leftarrow> su_release ResSendBuffer con cl;
     cl \<leftarrow> su_release ResWriter con cl;
     cl \<leftarrow> su_release ResRecvAsync con cl;
     cl \<leftarrow> su_release ResSendAsync con cl;
     cl \<leftarrow> su_release ResDgram con cl;
     su_free_struct con cl
   }"

definition su_remove_lru_connection :: "SocksUdpGwClient \<Rightarrow> SocksUdpGwClient_conaddr \<Rightarrow> bool \<Rightarrow> SocksUdpGwClient option" where
  "su_remove_lru_connection cl conaddr is_dns = do {
     other \<leftarrow> su_find_connection cl conaddr is_dns;
     ASSERT (other = NULL);
     ASSERT (su_num_connections cl > 0);
     su_connection_free cl (LinkedList1_GetFirst (su_list cl))
   }"

definition su_reset_connection :: "SocksUdpGwClient \<Rightarrow> addr \<Rightarrow> SocksUdpGwClient_conaddr \<Rightarrow> bool \<Rightarrow> SocksUdpGwClient" where
  "su_reset_connection cl con conaddr is_dns = upd_uc con (\<lambda>c. c\<lparr>uc_conaddr := conaddr, uc_is_dns := is_dns\<rparr>) cl"

subsection \<open>Datagrams from the socket\<close>

text \<open>The second component is what is passed to the user: the two addresses and the data.\<close>

definition su_submit_to_user :: "SocksUdpGwClient \<Rightarrow> addr \<Rightarrow> byte list \<Rightarrow> (SocksUdpGwClient \<times> (BAddr \<times> BAddr \<times> byte list) option) option" where
  "su_submit_to_user cl con data =
     (if int (length data) > su_udp_mtu cl then Some (cl, None)
      else Some (cl, Some (sa_local (uc_addr cl con), sa_remote (uc_addr cl con), data)))"

definition su_dgram_handler_received :: "SocksUdpGwClient \<Rightarrow> addr \<Rightarrow> byte list \<Rightarrow> (SocksUdpGwClient \<times> (BAddr \<times> BAddr \<times> byte list) option) option" where
  "su_dgram_handler_received cl con data = do {
     ASSERT (con \<in> set (su_alloc cl));
     ASSERT (int (length data) \<le> su_udpgw_mtu cl);
     if \<not> uc_is_dns (su_con cl con) then
       if length data < 4 then Some (cl, None)
       else if data ! 2 \<noteq> 0 then Some (cl, None)
       else case udpgw_read_addr (data ! 3 = SOCKS_ATYP_6) (drop 4 data) of
              None \<Rightarrow> Some (cl, None)
            | Some (remote_addr, data) \<Rightarrow>
                su_submit_to_user (upd_uc con (uc_conaddr_update (sa_remote_update (\<lambda>_. remote_addr))) cl) con data
     else su_submit_to_user cl con data
   }"

subsection \<open>Interface\<close>

text \<open>
  \<open>mem\<close> is the client before. \<^verbatim>\<open>num_connections\<close> is not set: the only client is a global
  variable of \<^verbatim>\<open>tun2socks.c\<close> and starts as 0.
\<close>

definition SocksUdpGwClient_Init :: "SocksUdpGwClient \<Rightarrow> int \<Rightarrow> int \<Rightarrow> BAddr \<Rightarrow> BAddr \<Rightarrow> SocksUdpGwClient option" where
  "SocksUdpGwClient_Init mem udp_mtu max_connections socks_server_addr dnsgw = do {
     ASSERT (\<not> BAddr_IsInvalid socks_server_addr);
     Some (mem\<lparr>su_udp_mtu := udp_mtu, su_socks_server_addr := socks_server_addr, su_dnsgw := dnsgw,
            su_udpgw_mtu := udpgw_compute_mtu udp_mtu,
            su_max_connections := (if max_connections > UINT16_MAX + 1 then UINT16_MAX + 1 else max_connections),
            su_tree := BAVL_Init (su_tree mem), su_list := LinkedList1_Init (su_list mem)\<rparr>)
   }"

text \<open>The loop may not end.\<close>

partial_function (option) SocksUdpGwClient_Free :: "SocksUdpGwClient \<Rightarrow> SocksUdpGwClient option" where
  "SocksUdpGwClient_Free cl =
     (if LinkedList1_IsEmpty (su_list cl) then Some cl
      else do {
        cl \<leftarrow> su_connection_free cl (LinkedList1_GetFirst (su_list cl));
        SocksUdpGwClient_Free cl
      })"

definition su_move_to_end :: "SocksUdpGwClient \<Rightarrow> addr \<Rightarrow> SocksUdpGwClient" where
  "su_move_to_end cl con = cl\<lparr>su_list := LinkedList1_Append (LinkedList1_Remove (su_list cl) con) con\<rparr>"

definition SocksUdpGwClient_SubmitPacket ::
  "SocksUdpGwClient \<Rightarrow> BAddr \<Rightarrow> BAddr \<Rightarrow> bool \<Rightarrow> byte list \<Rightarrow> addr \<Rightarrow> su_outcome \<Rightarrow> SocksUdpGwClient option" where
  "SocksUdpGwClient_SubmitPacket cl local_addr remote_addr is_dns data mem outcome = do {
     ASSERT (BAddr_type local_addr \<in> {1, 2} \<and> BAddr_type remote_addr \<in> {1, 2} \<and> int (length data) \<le> su_udp_mtu cl);
     let conaddr = \<lparr>sa_local = local_addr, sa_remote = remote_addr\<rparr>;
     con \<leftarrow> su_find_connection cl conaddr is_dns;
     cl \<leftarrow> (if con = NULL \<and> su_num_connections cl = su_max_connections cl
            then su_remove_lru_connection cl conaddr is_dns else Some cl);
     if con = NULL then do {
       (cl, con) \<leftarrow> su_connection_init cl conaddr data is_dns mem outcome;
       Some cl
     } else do {
       let cl = su_reset_connection cl con conaddr is_dns;
       (cl, res) \<leftarrow> su_connection_send cl con data;
       if res = 1 then Some cl else Some (su_move_to_end cl con)
     }
   }"

subsection \<open>The event loop\<close>

text \<open>The reactor executes the job on top until there is none before it waits for the next event.\<close>

fun su_run_job :: "SocksUdpGwClient \<Rightarrow> su_job \<Rightarrow> SocksUdpGwClient option" where
  "su_run_job cl (FirstJob con) = su_connection_first_job_handler cl con"
| "su_run_job cl (RecvJob con) = do {
     ASSERT (con \<in> set (su_alloc cl) \<and> \<not> uc_out_have (su_con cl con));
     Some (upd_uc con (uc_out_have_update (\<lambda>_. True)) cl)
   }"

partial_function (option) su_run_jobs :: "SocksUdpGwClient \<Rightarrow> SocksUdpGwClient option" where
  "su_run_jobs cl =
     (case su_jobs cl of
        [] \<Rightarrow> Some cl
      | job # jobs \<Rightarrow> do {
          cl \<leftarrow> su_run_job (cl\<lparr>su_jobs := jobs\<rparr>) job;
          su_run_jobs cl
        })"

declare SocksUdpGwClient_Free.simps [code] su_run_jobs.simps [code]

text \<open>
  What can happen: a packet comes from the device, with the answers of the memory allocation and
  of the initializations; a datagram comes from the socket of a connection; a writer
  gets its next buffer.
\<close>

datatype su_event =
    SuSubmit BAddr BAddr bool "byte list" addr su_outcome
  | SuReceive addr "byte list"
  | SuBuffer addr

fun su_step :: "SocksUdpGwClient \<Rightarrow> su_event \<Rightarrow> SocksUdpGwClient option" where
  "su_step cl (SuSubmit l r dns data mem outcome) = do {
     cl \<leftarrow> SocksUdpGwClient_SubmitPacket cl l r dns data mem outcome;
     su_run_jobs cl
   }"
| "su_step cl (SuReceive con data) = do { (cl, up) \<leftarrow> su_dgram_handler_received cl con data; su_run_jobs cl }"
| "su_step cl (SuBuffer con) = Some (upd_uc con (uc_out_have_update (\<lambda>_. True)) cl)"

fun su_exec :: "SocksUdpGwClient \<Rightarrow> su_event list \<Rightarrow> SocksUdpGwClient option" where
  "su_exec cl [] = Some cl"
| "su_exec cl (e # es) = do { cl \<leftarrow> su_step cl e; su_exec cl es }"

subsection \<open>The specification: a list of sockets\<close>

text \<open>
  Without pointers the client is a list of sockets in the order of their use, each under the handle it was
  created with. A packet of a local address that has a socket is written to it if the
  socket has a buffer, and the socket becomes the last one; otherwise the first socket is
  closed if there are too many, and a new socket, if it can be created, sends the packet.
\<close>

type_synonym su_socket_list = "(addr \<times> SocksUdpGwClient_connection) list"

definition su_datagram :: "BAddr \<Rightarrow> bool \<Rightarrow> byte list \<Rightarrow> byte list" where
  "su_datagram remote is_dns data =
     (if is_dns then data
      else socks_udp_header_bytes 0 0 (if BAddr_type remote = 1 then SOCKS_ATYP_4 else SOCKS_ATYP_6) @ udpgw_addr_bytes remote @ data)"

definition su_all_resources :: "su_resource list" where
  "su_all_resources = [ResRecvBuffer, ResRecvIf, ResSendBuffer, ResWriter, ResRecvAsync, ResSendAsync, ResDgram]"

definition su_socket :: "BAddr \<Rightarrow> BAddr \<Rightarrow> bool \<Rightarrow> byte list \<Rightarrow> BAddr \<Rightarrow> SocksUdpGwClient_connection" where
  "su_socket l r is_dns data server =
     \<lparr>uc_conaddr = \<lparr>sa_local = l, sa_remote = r\<rparr>, uc_first_data = data, uc_is_dns = is_dns, uc_send_addr = server,
      uc_res = su_all_resources, uc_out_have = False, uc_sent = [su_datagram r is_dns data]\<rparr>"

definition sp_update :: "addr \<Rightarrow> (SocksUdpGwClient_connection \<Rightarrow> SocksUdpGwClient_connection) \<Rightarrow> su_socket_list \<Rightarrow> su_socket_list" where
  "sp_update con u ss = map (\<lambda>(c, s). (c, if c = con then u s else s)) ss"

definition sp_received :: "byte list \<Rightarrow> SocksUdpGwClient_connection \<Rightarrow> SocksUdpGwClient_connection" where
  "sp_received data s =
     (if uc_is_dns s \<or> length data < 4 \<or> data ! 2 \<noteq> 0 then s
      else case udpgw_read_addr (data ! 3 = SOCKS_ATYP_6) (drop 4 data) of
             None \<Rightarrow> s
           | Some (remote, d) \<Rightarrow> uc_conaddr_update (sa_remote_update (\<lambda>_. remote)) s)"

fun sp_step :: "int \<Rightarrow> BAddr \<Rightarrow> BAddr \<Rightarrow> su_socket_list \<Rightarrow> su_event \<Rightarrow> su_socket_list" where
  "sp_step n server dnsgw ss (SuSubmit l r is_dns data con outcome) =
     (case find (\<lambda>(c, s). sa_local (uc_conaddr s) = l) ss of
        Some (c, s) \<Rightarrow>
          let t = s\<lparr>uc_conaddr := \<lparr>sa_local = l, sa_remote = r\<rparr>, uc_is_dns := is_dns\<rparr>
          in if uc_out_have s
             then filter (\<lambda>x. fst x \<noteq> c) ss @ [(c, t\<lparr>uc_out_have := False, uc_sent := uc_sent s @ [su_datagram r is_dns data]\<rparr>)]
             else sp_update c (\<lambda>_. t) ss
      | None \<Rightarrow>
          let ss' = (if int (length ss) = n then tl ss else ss)
          in if con \<noteq> NULL \<and> outcome = InitOk
             then ss' @ [(con, su_socket l r is_dns data (if is_dns then dnsgw else server))]
             else ss')"
| "sp_step n server dnsgw ss (SuReceive con data) = sp_update con (sp_received data) ss"
| "sp_step n server dnsgw ss (SuBuffer con) = sp_update con (uc_out_have_update (\<lambda>_. True)) ss"

text \<open>What the client accepts. A packet has to leave room for the SOCKS header in the buffer.\<close>

definition su_fits :: "int \<Rightarrow> BAddr \<Rightarrow> bool \<Rightarrow> byte list \<Rightarrow> bool" where
  "su_fits mtu r is_dns data \<longleftrightarrow> int (length (su_datagram r is_dns data)) \<le> mtu"

fun su_enabled :: "SocksUdpGwClient \<Rightarrow> su_event \<Rightarrow> bool" where
  "su_enabled cl (SuSubmit l r is_dns data con outcome) \<longleftrightarrow>
     BAddr_is_ip l \<and> BAddr_is_ip r \<and> su_fits (su_udp_mtu cl) r is_dns data \<and> con \<notin> set (su_alloc cl)"
| "su_enabled cl (SuReceive con data) \<longleftrightarrow> con \<in> set (su_alloc cl) \<and> int (length data) \<le> su_udp_mtu cl"
| "su_enabled cl (SuBuffer con) \<longleftrightarrow> con \<in> set (su_alloc cl) \<and> \<not> uc_out_have (su_con cl con)"

fun su_possible :: "SocksUdpGwClient \<Rightarrow> su_event list \<Rightarrow> bool" where
  "su_possible cl [] \<longleftrightarrow> True"
| "su_possible cl (e # es) \<longleftrightarrow> su_enabled cl e \<and> (case su_step cl e of None \<Rightarrow> True | Some cl' \<Rightarrow> su_possible cl' es)"

subsection \<open>The tables\<close>

interpretation by_local: cmp_order su_conaddr_comparator
proof -
  have "cmp_order (\<lambda>a b. su_conaddr_comparator a b)"
    unfolding su_conaddr_comparator_def by (rule cmp_order_pullback [OF baddr.cmp_order_axioms])
  then show "cmp_order su_conaddr_comparator" .
qed

lemma su_comparator_0: "BAddr_is_ip (sa_local a) \<Longrightarrow> su_conaddr_comparator a b = 0 \<longleftrightarrow> sa_local a = sa_local b"
  by (simp add: su_conaddr_comparator_def BAddr_CompareOrder_eq_0_iff)

text \<open>The tree depends on the local addresses only.\<close>

lemma su_index_cong:
  assumes "\<forall>a\<in>A. sa_local (val' a) = sa_local (val a)"
  shows "indexes su_conaddr_comparator val' s A = indexes su_conaddr_comparator val s A"
proof -
  have "indexes su_conaddr_comparator v s A = indexes BAddr_CompareOrder (\<lambda>a. sa_local (v a)) s A" for v
    unfolding su_conaddr_comparator_def by (rule index_pullback)
  then show ?thesis
    using index_cong [of A "\<lambda>a. sa_local (val' a)" "\<lambda>a. sa_local (val a)"] assms by simp
qed

definition su_tables :: "SocksUdpGwClient \<Rightarrow> addr list \<Rightarrow> bool" where
  "su_tables cl cs \<longleftrightarrow> ll_rep (su_list cl) cs \<and> indexes su_conaddr_comparator (uc_addr cl) (su_tree cl) (set cs) \<and>
     su_num_connections cl = int (length cs) \<and> set (su_alloc cl) = set cs"

definition su_sane :: "SocksUdpGwClient \<Rightarrow> addr list \<Rightarrow> bool" where
  "su_sane cl cs \<longleftrightarrow> (\<forall>c\<in>set cs. BAddr_is_ip (sa_local (uc_addr cl c)) \<and> BAddr_is_ip (sa_remote (uc_addr cl c)) \<and>
     uc_res (su_con cl c) = su_all_resources)"

definition su_inv :: "SocksUdpGwClient \<Rightarrow> addr list \<Rightarrow> bool" where
  "su_inv cl cs \<longleftrightarrow> su_tables cl cs \<and> su_sane cl cs \<and> su_jobs cl = [] \<and> int (length cs) \<le> su_max_connections cl \<and>
     0 < su_max_connections cl \<and> su_udpgw_mtu cl = su_udp_mtu cl + 22"

definition su_sockets :: "SocksUdpGwClient \<Rightarrow> addr list \<Rightarrow> su_socket_list" where
  "su_sockets cl cs = map (\<lambda>c. (c, su_con cl c)) cs"

lemma su_nodes: "su_tables cl cs \<Longrightarrow> distinct cs \<and> NULL \<notin> set cs"
  using linked.rep_nodes by (auto simp: su_tables_def)

lemma upd_uc_fields [simp]:
  "su_con (upd_uc con u cl) = (su_con cl)(con := u (su_con cl con))" "su_udp_mtu (upd_uc con u cl) = su_udp_mtu cl"
  "su_socks_server_addr (upd_uc con u cl) = su_socks_server_addr cl" "su_dnsgw (upd_uc con u cl) = su_dnsgw cl"
  "su_udpgw_mtu (upd_uc con u cl) = su_udpgw_mtu cl" "su_num_connections (upd_uc con u cl) = su_num_connections cl"
  "su_max_connections (upd_uc con u cl) = su_max_connections cl" "su_tree (upd_uc con u cl) = su_tree cl"
  "su_list (upd_uc con u cl) = su_list cl" "su_jobs (upd_uc con u cl) = su_jobs cl" "su_alloc (upd_uc con u cl) = su_alloc cl"
  by (simp_all add: upd_uc_def)

lemma su_find:
  assumes "su_tables cl cs" "BAddr_is_ip (sa_local a)"
  obtains "su_find_connection cl a is_dns = Some NULL" "\<forall>c\<in>set cs. sa_local (uc_addr cl c) \<noteq> sa_local a"
  | c where "su_find_connection cl a is_dns = Some c" "c \<in> set cs" "c \<noteq> NULL" "sa_local (uc_addr cl c) = sa_local a"
proof -
  have "indexes su_conaddr_comparator (uc_addr cl) (su_tree cl) (set cs)"
    using assms(1) by (simp add: su_tables_def)
  then show ?thesis
  proof (cases rule: by_local.index_lookup [where k = a])
    case 1
    then have "\<forall>c\<in>set cs. sa_local (uc_addr cl c) \<noteq> sa_local a"
      using su_comparator_0 [OF assms(2)] by metis
    then show ?thesis
      using 1(1) that(1) by (simp add: su_find_connection_def)
  next
    case (2 c)
    then show ?thesis
      using that(2) [of c] su_comparator_0 [OF assms(2)] by (simp add: su_find_connection_def)
  qed
qed

lemma su_local_unique:
  assumes "su_inv cl cs" "c \<in> set cs" "d \<in> set cs" "sa_local (uc_addr cl c) = sa_local (uc_addr cl d)"
  shows "c = d"
proof -
  have "indexes su_conaddr_comparator (uc_addr cl) (su_tree cl) (set cs)" "su_conaddr_comparator (uc_addr cl c) (uc_addr cl d) = 0"
    using assms su_comparator_0 [of "uc_addr cl c"] by (auto simp: su_inv_def su_tables_def su_sane_def)
  then show ?thesis
    using by_local.index_inj assms(2,3) by blast
qed

text \<open>A change of a connection that keeps its local address and its parts.\<close>

lemma su_upd_inv:
  assumes "su_inv cl cs" "con \<in> set cs \<Longrightarrow> sa_local (uc_conaddr (u (su_con cl con))) = sa_local (uc_addr cl con) \<and>
    BAddr_is_ip (sa_remote (uc_conaddr (u (su_con cl con)))) \<and> uc_res (u (su_con cl con)) = uc_res (su_con cl con)"
  shows "su_inv (upd_uc con u cl) cs" "su_sockets (upd_uc con u cl) cs = sp_update con u (su_sockets cl cs)"
proof -
  have "\<forall>c\<in>set cs. sa_local (uc_addr (upd_uc con u cl) c) = sa_local (uc_addr cl c)"
    using assms(2) by auto
  from su_index_cong [OF this] have "su_tables (upd_uc con u cl) cs"
    using assms(1) by (simp add: su_inv_def su_tables_def)
  then show "su_inv (upd_uc con u cl) cs"
    using assms by (auto simp: su_inv_def su_sane_def)
  show "su_sockets (upd_uc con u cl) cs = sp_update con u (su_sockets cl cs)"
    by (simp add: su_sockets_def sp_update_def)
qed

subsection \<open>Creating and closing connections\<close>

lemma su_release_eq:
  assumes "con \<in> set (su_alloc cl)" "uc_res (su_con cl con) = r # rs"
  shows "su_release r con cl = Some (upd_uc con (uc_res_update (\<lambda>_. rs))
    (if r = ResWriter then cl\<lparr>su_jobs := removeAll (RecvJob con) (su_jobs cl)\<rparr> else cl))"
  using assms by (simp add: su_release_def)

lemma su_connection_free_ok:
  assumes "su_tables cl cs" "su_sane cl cs" "c \<in> set cs" "su_jobs cl = []"
  shows "\<exists>cl'. su_connection_free cl c = Some cl' \<and> su_tables cl' (remove1 c cs) \<and> su_sane cl' (remove1 c cs) \<and>
    (\<forall>d. d \<noteq> c \<longrightarrow> su_con cl' d = su_con cl d) \<and> su_jobs cl' = [] \<and> su_max_connections cl' = su_max_connections cl \<and>
    su_udp_mtu cl' = su_udp_mtu cl \<and> su_udpgw_mtu cl' = su_udpgw_mtu cl \<and> su_dnsgw cl' = su_dnsgw cl \<and>
    su_socks_server_addr cl' = su_socks_server_addr cl"
proof -
  have n: "distinct cs" "NULL \<notin> set cs" "c \<noteq> NULL"
    using su_nodes [OF assms(1)] assms(3) by (auto intro: gr0I)
  have len: "int (length (remove1 c cs)) = int (length cs) - 1"
    using assms(3) length_pos_if_in_set [OF assms(3)] by (simp only: length_remove1 if_True)
  obtain t where t: "BAVL_Remove (su_tree cl) c = Some t" "indexes su_conaddr_comparator (uc_addr cl) t (set cs - {c})"
    using by_local.index_remove [of "uc_addr cl" "su_tree cl" "set cs" c] assms(1,3) by (auto simp: su_tables_def)
  define cl' where "cl' = cl\<lparr>su_num_connections := su_num_connections cl - 1, su_list := LinkedList1_Remove (su_list cl) c, su_tree := t,
    su_alloc := removeAll c (su_alloc cl), su_con := (su_con cl)(c := (su_con cl c)\<lparr>uc_res := []\<rparr>)\<rparr>"
  have "su_connection_free cl c = Some cl'"
    using assms n(3) t(1) by (simp add: su_connection_free_def su_tables_def su_sane_def su_all_resources_def su_release_eq
        su_free_struct_def Let_def cl'_def)
  moreover have "\<forall>d\<in>set cs - {c}. sa_local (uc_addr cl' d) = sa_local (uc_addr cl d)"
    by (simp add: cl'_def)
  from su_index_cong [OF this] have "su_tables cl' (remove1 c cs)"
    using assms(1,3) n t(2) len linked.rep_remove1 [of "su_list cl" cs c] by (simp add: su_tables_def) (simp add: cl'_def)
  moreover have "su_sane cl' (remove1 c cs)"
    using assms(2) n(1) by (auto simp: su_sane_def cl'_def)
  ultimately show ?thesis
    using assms(4) by (simp add: cl'_def)
qed

text \<open>A connection that is being created: its structure is allocated and filled in.\<close>

definition su_building :: "SocksUdpGwClient \<Rightarrow> addr \<Rightarrow> su_job list \<Rightarrow> SocksUdpGwClient_connection \<Rightarrow> SocksUdpGwClient" where
  "su_building cl con js v = cl\<lparr>su_alloc := con # su_alloc cl, su_jobs := js, su_con := (su_con cl)(con := v)\<rparr>"

lemma su_building_simps [simp]:
  "upd_uc con u (su_building cl con js v) = su_building cl con js (u v)"
  "(su_building cl con js v)\<lparr>su_jobs := js'\<rparr> = su_building cl con js' v"
  "su_jobs (su_building cl con js v) = js" "su_con (su_building cl con js v) con = v" "con \<in> set (su_alloc (su_building cl con js v))"
  "su_dnsgw (su_building cl con js v) = su_dnsgw cl" "su_socks_server_addr (su_building cl con js v) = su_socks_server_addr cl"
  by (simp_all add: su_building_def upd_uc_def)

lemma su_building_release:
  "uc_res v = r # rs \<Longrightarrow> su_release r con (su_building cl con js v) =
     Some (su_building cl con (if r = ResWriter then removeAll (RecvJob con) js else js) (v\<lparr>uc_res := rs\<rparr>))"
  by (simp add: su_release_eq)

lemma su_building_free:
  "uc_res v = [] \<Longrightarrow> con \<notin> set (su_alloc cl) \<Longrightarrow>
     su_free_struct con (su_building cl con js v) = Some (cl\<lparr>su_jobs := js, su_con := (su_con cl)(con := v)\<rparr>)"
  by (simp add: su_free_struct_def) (simp add: su_building_def)

lemma su_building_start:
  "su_connection_start cl con a data is_dns =
     su_building cl con (FirstJob con # su_jobs cl) ((su_con cl con)\<lparr>uc_conaddr := a, uc_first_data := data, uc_is_dns := is_dns, uc_res := []\<rparr>)"
  by (simp add: su_building_def su_connection_start_def)

lemma su_init_failed:
  assumes "outcome \<noteq> InitOk" "con \<noteq> NULL" "con \<notin> set (su_alloc cl)" "su_jobs cl = []"
  shows "\<exists>v. su_connection_init cl a data is_dns con outcome = Some (cl\<lparr>su_con := (su_con cl)(con := v)\<rparr>, NULL)"
proof -
  have j: "cl\<lparr>su_jobs := [], su_con := f\<rparr> = cl\<lparr>su_con := f\<rparr>" for f
    using assms(4) by simp
  show ?thesis
    using assms(1-3) by (cases outcome)
      (auto simp: su_connection_init_def su_building_start assms(4) su_acquire_def su_fail0_def su_fail1_def su_fail2_def
        su_fail3_def su_building_release su_building_free Let_def j)
qed

text \<open>The connection just before it enters the tables.\<close>

definition su_prepared :: "SocksUdpGwClient \<Rightarrow> SocksUdpGwClient_conaddr \<Rightarrow> byte list \<Rightarrow> bool \<Rightarrow> addr \<Rightarrow> SocksUdpGwClient" where
  "su_prepared cl a data is_dns con = su_building cl con (RecvJob con # FirstJob con # su_jobs cl)
     \<lparr>uc_conaddr = a, uc_first_data = data, uc_is_dns = is_dns,
      uc_send_addr = (if is_dns then su_dnsgw cl else su_socks_server_addr cl), uc_res = su_all_resources,
      uc_out_have = False, uc_sent = []\<rparr>"

lemma su_init_eq:
  assumes "con \<noteq> NULL"
  shows "su_connection_init cl a data is_dns con InitOk = do { cl \<leftarrow> su_insert (su_prepared cl a data is_dns con) con; Some (cl, con) }"
  using assms by (cases "su_con cl con")
    (simp add: su_connection_init_def su_building_start su_acquire_def su_prepared_def su_all_resources_def Let_def)

lemma su_insert_ok:
  fixes data is_dns
  assumes "su_tables cl cs" "su_sane cl cs" "con \<noteq> NULL" "con \<notin> set cs" "\<forall>c\<in>set cs. sa_local (uc_addr cl c) \<noteq> sa_local a"
    "BAddr_is_ip (sa_local a)" "BAddr_is_ip (sa_remote a)"
  defines "cl1 \<equiv> su_prepared cl a data is_dns con"
  shows "\<exists>t. let cl' = cl1\<lparr>su_tree := t, su_list := LinkedList1_Append (su_list cl) con, su_num_connections := su_num_connections cl + 1\<rparr>
    in su_insert cl1 con = Some cl' \<and> su_tables cl' (cs @ [con]) \<and> su_sane cl' (cs @ [con])"
proof -
  have l: "\<forall>c\<in>set cs. sa_local (uc_addr cl1 c) = sa_local (uc_addr cl c)" "uc_addr cl1 con = a"
    using assms(4) by (auto simp: cl1_def su_prepared_def su_building_def)
  have f: "su_tree cl1 = su_tree cl" "su_list cl1 = su_list cl" "su_num_connections cl1 = su_num_connections cl"
    by (simp_all add: cl1_def su_prepared_def su_building_def)
  have "indexes su_conaddr_comparator (uc_addr cl1) (su_tree cl) (set cs)"
    using assms(1) su_index_cong [OF l(1)] by (simp add: su_tables_def)
  moreover have "\<forall>c\<in>set cs. su_conaddr_comparator (uc_addr cl1 con) (uc_addr cl1 c) \<noteq> 0"
    using assms(5) l su_comparator_0 [OF assms(6)] by metis
  ultimately obtain t ref where t: "BAVL_Insert su_conaddr_comparator (uc_addr cl1) (su_tree cl) con = Some (t, True, ref)"
    "indexes su_conaddr_comparator (uc_addr cl1) t (insert con (set cs))"
    using by_local.index_insert [of "uc_addr cl1" "su_tree cl" "set cs" con] assms(3,4) by blast
  define cl' where "cl' = cl1\<lparr>su_tree := t, su_list := LinkedList1_Append (su_list cl) con, su_num_connections := su_num_connections cl + 1\<rparr>"
  have c': "su_con cl' = su_con cl1"
    by (simp add: cl'_def)
  have "su_insert cl1 con = Some cl'"
    using t(1) by (simp add: su_insert_def f cl'_def)
  moreover have "su_tables cl' (cs @ [con])"
    using assms(1) t(2) linked.rep_append [of "su_list cl" cs con] assms(3,4)
    by (simp add: su_tables_def c') (simp add: cl'_def cl1_def su_prepared_def su_building_def)
  moreover have "su_sane cl' (cs @ [con])"
    using assms(2,4,6,7) by (auto simp: su_sane_def c' cl1_def su_prepared_def su_building_def)
  ultimately show ?thesis
    by (intro exI [of _ t]) (simp add: cl'_def Let_def)
qed

lemma su_connection_send_eq:
  assumes "con \<in> set (su_alloc cl)" "su_fits (su_udp_mtu cl) (sa_remote (uc_addr cl con)) (uc_is_dns (su_con cl con)) data"
  shows "su_connection_send cl con data =
    Some (if uc_out_have (su_con cl con)
      then (upd_uc con (\<lambda>c. c\<lparr>uc_out_have := False,
              uc_sent := uc_sent c @ [su_datagram (sa_remote (uc_addr cl con)) (uc_is_dns (su_con cl con)) data]\<rparr>) cl, 0)
      else (cl, 1))"
  using assms by (auto simp: su_connection_send_def su_fits_def su_datagram_def Let_def)

text \<open>The writer gets its buffer before the first job runs, so the first packet is sent.\<close>

lemma su_first_packet:
  assumes "su_jobs cl = [RecvJob con, FirstJob con]" "con \<in> set (su_alloc cl)"
    "su_con cl con = \<lparr>uc_conaddr = \<lparr>sa_local = l, sa_remote = r\<rparr>, uc_first_data = data, uc_is_dns = is_dns, uc_send_addr = server,
       uc_res = su_all_resources, uc_out_have = False, uc_sent = []\<rparr>"
    "su_fits (su_udp_mtu cl) r is_dns data"
  shows "su_run_jobs cl = Some (cl\<lparr>su_jobs := [], su_con := (su_con cl)(con := su_socket l r is_dns data server)\<rparr>)"
proof -
  define cl1 where "cl1 = upd_uc con (uc_out_have_update (\<lambda>_. True)) (cl\<lparr>su_jobs := [FirstJob con]\<rparr>)"
  have 1: "su_run_jobs cl = su_run_jobs cl1"
    using assms(1-3) by (subst su_run_jobs.simps) (simp add: cl1_def)
  have "su_run_job (cl1\<lparr>su_jobs := []\<rparr>) (FirstJob con) = Some (cl\<lparr>su_jobs := [], su_con := (su_con cl)(con := su_socket l r is_dns data server)\<rparr>)"
    using assms(2-4) by (simp add: cl1_def su_connection_first_job_handler_def su_connection_send_eq su_socket_def)
  then have 2: "su_run_jobs cl1 = su_run_jobs (cl\<lparr>su_jobs := [], su_con := (su_con cl)(con := su_socket l r is_dns data server)\<rparr>)"
    by (subst su_run_jobs.simps) (simp add: cl1_def)
  show ?thesis
    unfolding 1 2 by (subst su_run_jobs.simps) simp
qed

lemma su_no_jobs: "su_jobs cl = [] \<Longrightarrow> su_run_jobs cl = Some cl"
  by (subst su_run_jobs.simps) simp

subsection \<open>A packet from the device\<close>

lemma su_move_to_end_ok:
  assumes "su_inv cl cs" "c \<in> set cs"
  shows "su_inv (su_move_to_end cl c) (remove1 c cs @ [c])" "su_sockets (su_move_to_end cl c) xs = su_sockets cl xs"
proof -
  have "set (remove1 c cs @ [c]) = set cs" "length (remove1 c cs @ [c]) = length cs"
    using assms su_nodes by (auto simp: su_inv_def length_remove1 dest: length_pos_if_in_set)
  then show "su_inv (su_move_to_end cl c) (remove1 c cs @ [c])"
    using assms linked.rep_touch [of "su_list cl" cs c]
    by (simp add: su_inv_def su_tables_def su_sane_def) (simp add: su_move_to_end_def)
  show "su_sockets (su_move_to_end cl c) xs = su_sockets cl xs"
    by (simp add: su_sockets_def su_move_to_end_def)
qed


lemma su_sockets_find_Some:
  assumes "su_inv cl cs" "c \<in> set cs" "sa_local (uc_addr cl c) = l"
  shows "find (\<lambda>(c, s). sa_local (uc_conaddr s) = l) (su_sockets cl cs) = Some (c, su_con cl c)"
proof -
  have "find (\<lambda>(c, s). sa_local (uc_conaddr s) = l) (su_sockets cl xs) = Some (c, su_con cl c)" if "c \<in> set xs" "set xs \<subseteq> set cs" for xs
    using that su_local_unique [OF assms(1) _ assms(2)] assms(3) by (induction xs) (auto simp: su_sockets_def)
  then show ?thesis
    using assms(2) by blast
qed

lemma su_sockets_find_None:
  "\<forall>c\<in>set cs. sa_local (uc_addr cl c) \<noteq> l \<Longrightarrow> find (\<lambda>(c, s). sa_local (uc_conaddr s) = l) (su_sockets cl cs) = None"
  by (auto simp: find_None_iff su_sockets_def)

text \<open>The configuration, which no step changes.\<close>

definition su_same_config :: "SocksUdpGwClient \<Rightarrow> SocksUdpGwClient \<Rightarrow> bool" where
  "su_same_config cl cl' \<longleftrightarrow> su_max_connections cl' = su_max_connections cl \<and> su_udp_mtu cl' = su_udp_mtu cl \<and>
     su_udpgw_mtu cl' = su_udpgw_mtu cl \<and> su_dnsgw cl' = su_dnsgw cl \<and> su_socks_server_addr cl' = su_socks_server_addr cl"

abbreviation (input) su_spec :: "SocksUdpGwClient \<Rightarrow> su_socket_list \<Rightarrow> su_event \<Rightarrow> su_socket_list" where
  "su_spec cl \<equiv> sp_step (su_max_connections cl) (su_socks_server_addr cl) (su_dnsgw cl)"

lemma su_sockets_remove: "distinct cs \<Longrightarrow> su_sockets cl (remove1 c cs) = filter (\<lambda>x. fst x \<noteq> c) (su_sockets cl cs)"
  by (simp add: su_sockets_def filter_map comp_def distinct_remove1_removeAll removeAll_filter_not_eq eq_commute)

text \<open>The pair is known: the socket takes the new addresses and sends if it can.\<close>

lemma su_submit_known:
  assumes "su_inv cl cs" "c \<in> set cs" "sa_local (uc_addr cl c) = l" "BAddr_is_ip l" "BAddr_is_ip r" "su_fits (su_udp_mtu cl) r is_dns data"
  defines "cl1 \<equiv> su_reset_connection cl c \<lparr>sa_local = l, sa_remote = r\<rparr> is_dns"
  defines "cl2 \<equiv> upd_uc c (\<lambda>s. s\<lparr>uc_out_have := False, uc_sent := uc_sent s @ [su_datagram r is_dns data]\<rparr>) cl1"
  shows "su_connection_send cl1 c data = Some (if uc_out_have (su_con cl c) then (cl2, 0) else (cl1, 1))"
    "su_inv cl1 cs" "su_inv cl2 cs"
    "su_spec cl (su_sockets cl cs) (SuSubmit l r is_dns data con outcome) =
       (if uc_out_have (su_con cl c) then su_sockets cl2 (remove1 c cs @ [c]) else su_sockets cl1 cs)"
proof -
  have d: "distinct cs" "c \<in> set (su_alloc cl)"
    using assms(1,2) su_nodes by (auto simp: su_inv_def su_tables_def)
  have c1: "su_con cl1 = (su_con cl)(c := (su_con cl c)\<lparr>uc_conaddr := \<lparr>sa_local = l, sa_remote = r\<rparr>, uc_is_dns := is_dns\<rparr>)"
    by (simp add: cl1_def su_reset_connection_def)
  show "su_connection_send cl1 c data = Some (if uc_out_have (su_con cl c) then (cl2, 0) else (cl1, 1))"
    using assms(6) d(2) su_connection_send_eq [of c cl1 data] by (simp add: c1 cl2_def) (simp add: cl1_def su_reset_connection_def)
  show i1: "su_inv cl1 cs"
    unfolding cl1_def su_reset_connection_def by (rule su_upd_inv(1) [OF assms(1)]) (use assms(3,5) in simp)
  show "su_inv cl2 cs"
    unfolding cl2_def by (rule su_upd_inv(1) [OF i1]) (use i1 assms(2) in \<open>auto simp: su_inv_def su_sane_def\<close>)
  have "su_con cl2 c = (su_con cl c)\<lparr>uc_conaddr := \<lparr>sa_local = l, sa_remote = r\<rparr>, uc_is_dns := is_dns, uc_out_have := False,
      uc_sent := uc_sent (su_con cl c) @ [su_datagram r is_dns data]\<rparr>" "\<And>x. x \<noteq> c \<Longrightarrow> su_con cl2 x = su_con cl x"
    by (simp_all add: cl2_def c1)
  moreover have "su_sockets cl2 (remove1 c cs) = filter (\<lambda>x. fst x \<noteq> c) (su_sockets cl cs)"
    unfolding su_sockets_remove [OF d(1), symmetric] using d(1) by (auto simp: su_sockets_def cl2_def c1)
  ultimately show "su_spec cl (su_sockets cl cs) (SuSubmit l r is_dns data con outcome) =
       (if uc_out_have (su_con cl c) then su_sockets cl2 (remove1 c cs @ [c]) else su_sockets cl1 cs)"
    using su_sockets_find_Some [OF assms(1-3)] by (simp add: Let_def) (auto simp: su_sockets_def sp_update_def c1)
qed

text \<open>The pair is not known, and there is room.\<close>

lemma su_submit_new:
  assumes "su_inv cl cs" "int (length cs) < su_max_connections cl" "\<forall>c\<in>set cs. sa_local (uc_addr cl c) \<noteq> l"
    "BAddr_is_ip l" "BAddr_is_ip r" "su_fits (su_udp_mtu cl) r is_dns data" "con \<notin> set cs"
  shows "\<exists>cl1 con' cl' cs'. su_connection_init cl \<lparr>sa_local = l, sa_remote = r\<rparr> data is_dns con outcome = Some (cl1, con') \<and>
    su_run_jobs cl1 = Some cl' \<and> su_inv cl' cs' \<and> su_same_config cl cl' \<and>
    su_sockets cl' cs' = (if con \<noteq> NULL \<and> outcome = InitOk
      then su_sockets cl cs @ [(con, su_socket l r is_dns data (if is_dns then su_dnsgw cl else su_socks_server_addr cl))]
      else su_sockets cl cs)"
proof (cases "con \<noteq> NULL \<and> outcome = InitOk")
  case True
  let ?a = "\<lparr>sa_local = l, sa_remote = r\<rparr>" and ?s = "su_socket l r is_dns data (if is_dns then su_dnsgw cl else su_socks_server_addr cl)"
  have i: "su_tables cl cs" "su_sane cl cs" "su_jobs cl = []" "con \<noteq> NULL"
    using assms(1) True by (auto simp: su_inv_def)
  obtain t cl1 where t: "cl1 = (su_prepared cl ?a data is_dns con)\<lparr>su_tree := t, su_list := LinkedList1_Append (su_list cl) con,
      su_num_connections := su_num_connections cl + 1\<rparr>" "su_insert (su_prepared cl ?a data is_dns con) con = Some cl1"
    "su_tables cl1 (cs @ [con])" "su_sane cl1 (cs @ [con])"
    using su_insert_ok [OF i(1,2,4) assms(7), of ?a data is_dns] assms(3-5) by (auto simp: Let_def)
  define cl' where "cl' = cl1\<lparr>su_jobs := [], su_con := (su_con cl1)(con := ?s)\<rparr>"
  have "su_run_jobs cl1 = Some cl'"
    unfolding cl'_def using assms(6) i(3) by (intro su_first_packet) (auto simp: t(1) su_prepared_def su_building_def)
  moreover have "\<forall>x\<in>set (cs @ [con]). sa_local (uc_addr cl' x) = sa_local (uc_addr cl1 x)"
    by (simp add: cl'_def t(1) su_prepared_def su_building_def su_socket_def)
  from su_index_cong [OF this] have "su_tables cl' (cs @ [con])"
    using t(3) by (simp add: su_tables_def) (simp add: cl'_def)
  moreover have "su_sane cl' (cs @ [con])"
    using t(4) assms(4,5) by (auto simp: su_sane_def cl'_def su_socket_def)
  moreover have "su_same_config cl cl'" "su_jobs cl' = []"
    by (simp_all add: su_same_config_def cl'_def t(1) su_prepared_def su_building_def)
  moreover have "su_sockets cl' (cs @ [con]) = su_sockets cl cs @ [(con, ?s)]"
    using assms(7) by (auto simp: su_sockets_def cl'_def t(1) su_prepared_def su_building_def)
  moreover have "su_connection_init cl ?a data is_dns con outcome = Some (cl1, con)"
    using True su_init_eq [of con cl ?a data is_dns] t(2) by simp
  ultimately show ?thesis
    using True assms(1,2) by (auto simp: su_inv_def su_same_config_def intro!: exI [of _ cl1] exI [of _ con] exI [of _ cl'] exI [of _ "cs @ [con]"])
next
  case False
  have "\<exists>v. su_connection_init cl \<lparr>sa_local = l, sa_remote = r\<rparr> data is_dns con outcome = Some (if con = NULL then cl else cl\<lparr>su_con := (su_con cl)(con := v)\<rparr>, NULL)"
    using False su_init_failed [of outcome con cl] assms(1,7)
    by (cases "con = NULL") (auto simp: su_connection_init_def su_inv_def su_tables_def)
  then obtain cl1 where cl1: "su_connection_init cl \<lparr>sa_local = l, sa_remote = r\<rparr> data is_dns con outcome = Some (cl1, NULL)"
    "cl1 = cl \<or> (\<exists>v. cl1 = upd_uc con (\<lambda>_. v) cl)"
    by (cases "con = NULL") (auto simp: upd_uc_def)
  have "su_inv cl1 cs" "su_sockets cl1 cs = su_sockets cl cs" "su_same_config cl cl1"
    using cl1(2) assms(1,7) su_upd_inv [OF assms(1), of con] by (auto simp: su_same_config_def su_sockets_def)
  then show ?thesis
    using False cl1(1) su_no_jobs [of cl1] by (auto simp: su_inv_def)
qed

text \<open>The least recently used connection makes room if there are too many.\<close>

lemma su_make_room:
  assumes "su_inv cl cs" "su_find_connection cl a is_dns = Some NULL"
  shows "\<exists>cl' cs'. (if su_num_connections cl = su_max_connections cl then su_remove_lru_connection cl a is_dns else Some cl) = Some cl' \<and>
    su_inv cl' cs' \<and> int (length cs') < su_max_connections cl' \<and> set cs' \<subseteq> set cs \<and> (\<forall>c\<in>set cs'. su_con cl' c = su_con cl c) \<and>
    su_sockets cl' cs' = (if int (length (su_sockets cl cs)) = su_max_connections cl then tl (su_sockets cl cs) else su_sockets cl cs) \<and>
    su_same_config cl cl'"
proof (cases "su_num_connections cl = su_max_connections cl")
  case True
  then obtain x xs where cs: "cs = x # xs"
    using assms(1) by (cases cs) (auto simp: su_inv_def su_tables_def)
  have tb: "su_tables cl cs"
    using assms(1) by (simp add: su_inv_def)
  have x: "LinkedList1_GetFirst (su_list cl) = x" "x \<notin> set xs" "su_num_connections cl > 0" "int (length cs) = su_max_connections cl"
    using True tb linked.rep_first [of "su_list cl" cs] su_nodes [OF tb] by (auto simp: su_tables_def cs)
  obtain cl' where f: "su_connection_free cl x = Some cl'" "su_tables cl' xs" "su_sane cl' xs" "\<forall>d. d \<noteq> x \<longrightarrow> su_con cl' d = su_con cl d"
    "su_jobs cl' = []" "su_same_config cl cl'"
    using su_connection_free_ok [of cl cs x] assms(1) by (auto simp: su_inv_def cs su_same_config_def)
  moreover have "su_remove_lru_connection cl a is_dns = Some cl'"
    using assms(2) x f(1) by (simp add: su_remove_lru_connection_def)
  moreover have "su_sockets cl' xs = su_sockets cl xs"
    using x(2) f(4) by (auto simp: su_sockets_def)
  ultimately show ?thesis
    using True assms(1) x(2,4) by (intro exI [of _ cl'] exI [of _ xs]) (auto simp: cs su_inv_def su_same_config_def su_sockets_def)
next
  case False
  then show ?thesis
    using assms(1) by (intro exI [of _ cl] exI [of _ cs]) (auto simp: su_inv_def su_tables_def su_same_config_def su_sockets_def)
qed

definition su_accepts :: "SocksUdpGwClient \<Rightarrow> BAddr \<Rightarrow> BAddr \<Rightarrow> byte list \<Rightarrow> bool" where
  "su_accepts cl l r data \<longleftrightarrow> BAddr_type l \<in> {1, 2} \<and> BAddr_type r \<in> {1, 2} \<and> int (length data) \<le> su_udp_mtu cl"

lemma su_accepts_fitting:
  assumes "BAddr_is_ip l" "BAddr_is_ip r" "su_fits (su_udp_mtu cl) r is_dns data"
  shows "su_accepts cl l r data"
proof -
  have "length data \<le> length (su_datagram r is_dns data)"
    by (simp add: su_datagram_def)
  then have "int (length data) \<le> su_udp_mtu cl"
    using assms(3) by (simp add: su_fits_def)
  then show ?thesis
    using assms(1,2) by (cases l; cases r) (auto simp: su_accepts_def)
qed

lemma su_submit_absent:
  assumes "su_inv cl cs" "su_find_connection cl \<lparr>sa_local = l, sa_remote = r\<rparr> is_dns = Some NULL" "\<forall>c\<in>set cs. sa_local (uc_addr cl c) \<noteq> l"
    "BAddr_is_ip l" "BAddr_is_ip r" "su_fits (su_udp_mtu cl) r is_dns data" "con \<notin> set cs"
  shows "\<exists>cl' cs'. su_step cl (SuSubmit l r is_dns data con outcome) = Some cl' \<and> su_inv cl' cs' \<and> su_same_config cl cl' \<and>
    su_sockets cl' cs' = su_spec cl (su_sockets cl cs) (SuSubmit l r is_dns data con outcome)"
proof -
  let ?a = "\<lparr>sa_local = l, sa_remote = r\<rparr>"
  obtain cl0 cs0 where r: "(if su_num_connections cl = su_max_connections cl then su_remove_lru_connection cl ?a is_dns else Some cl) = Some cl0"
    "su_inv cl0 cs0" "int (length cs0) < su_max_connections cl0" "set cs0 \<subseteq> set cs" "\<forall>c\<in>set cs0. su_con cl0 c = su_con cl c"
    "su_sockets cl0 cs0 = (if int (length (su_sockets cl cs)) = su_max_connections cl then tl (su_sockets cl cs) else su_sockets cl cs)"
    "su_same_config cl cl0"
    using su_make_room [OF assms(1,2)] by blast
  have "\<forall>c\<in>set cs0. sa_local (uc_addr cl0 c) \<noteq> l" "con \<notin> set cs0" "su_fits (su_udp_mtu cl0) r is_dns data"
    using assms(3,6,7) r(4,5,7) by (auto simp: su_same_config_def)
  from su_submit_new [OF r(2,3) this(1) assms(4,5) this(3,2)] obtain cl1 con' cl' cs' where
    n: "su_connection_init cl0 ?a data is_dns con outcome = Some (cl1, con')" "su_run_jobs cl1 = Some cl'" "su_inv cl' cs'"
    "su_same_config cl0 cl'" "su_sockets cl' cs' = (if con \<noteq> NULL \<and> outcome = InitOk
      then su_sockets cl0 cs0 @ [(con, su_socket l r is_dns data (if is_dns then su_dnsgw cl0 else su_socks_server_addr cl0))]
      else su_sockets cl0 cs0)"
    by blast
  have "su_step cl (SuSubmit l r is_dns data con outcome) = Some cl'"
    using su_accepts_fitting [OF assms(4-6)] assms(2) r(1) n(1,2) by (simp add: SocksUdpGwClient_SubmitPacket_def su_accepts_def Let_def)
  moreover have "su_sockets cl' cs' = su_spec cl (su_sockets cl cs) (SuSubmit l r is_dns data con outcome)"
    using n(5) r(6,7) su_sockets_find_None [OF assms(3)] by (simp add: su_same_config_def Let_def)
  ultimately show ?thesis
    using n(3,4) r(7) by (auto simp: su_same_config_def)
qed

lemma su_submit_present:
  assumes "su_inv cl cs" "su_find_connection cl \<lparr>sa_local = l, sa_remote = r\<rparr> is_dns = Some c" "c \<in> set cs" "c \<noteq> NULL"
    "sa_local (uc_addr cl c) = l" "BAddr_is_ip l" "BAddr_is_ip r" "su_fits (su_udp_mtu cl) r is_dns data"
  shows "\<exists>cl' cs'. su_step cl (SuSubmit l r is_dns data con outcome) = Some cl' \<and> su_inv cl' cs' \<and> su_same_config cl cl' \<and>
    su_sockets cl' cs' = su_spec cl (su_sockets cl cs) (SuSubmit l r is_dns data con outcome)"
proof -
  define cl1 where "cl1 = su_reset_connection cl c \<lparr>sa_local = l, sa_remote = r\<rparr> is_dns"
  define cl2 where "cl2 = upd_uc c (\<lambda>s. s\<lparr>uc_out_have := False, uc_sent := uc_sent s @ [su_datagram r is_dns data]\<rparr>) cl1"
  note k = su_submit_known [OF assms(1,3,5-8), folded cl1_def, folded cl2_def]
  have j: "su_jobs cl1 = []" "su_jobs cl2 = []" "su_same_config cl cl1" "su_same_config cl cl2"
    using assms(1) by (auto simp: su_inv_def cl2_def cl1_def su_reset_connection_def su_same_config_def)
  have s: "SocksUdpGwClient_SubmitPacket cl l r is_dns data con outcome = Some (if uc_out_have (su_con cl c) then su_move_to_end cl2 c else cl1)"
    using su_accepts_fitting [OF assms(6-8)] assms(2,4) k(1)
    by (simp add: SocksUdpGwClient_SubmitPacket_def su_accepts_def cl1_def [symmetric] Let_def)
  show ?thesis
  proof (cases "uc_out_have (su_con cl c)")
    case True
    have "su_jobs (su_move_to_end cl2 c) = []" "su_same_config cl (su_move_to_end cl2 c)"
      using j by (simp_all add: su_move_to_end_def su_same_config_def)
    then show ?thesis
      using True s su_no_jobs su_move_to_end_ok [OF k(3) assms(3)] k(4) [of con outcome]
      by (intro exI [of _ "su_move_to_end cl2 c"] exI [of _ "remove1 c cs @ [c]"]) simp
  next
    case False
    then show ?thesis
      using s j(1,3) su_no_jobs k(2,4) by (intro exI [of _ cl1] exI [of _ cs]) simp
  qed
qed

subsection \<open>All steps\<close>

lemma su_receive_cases:
  assumes "su_inv cl cs" "con \<in> set cs" "int (length data) \<le> su_udp_mtu cl"
  shows "\<exists>up. su_dgram_handler_received cl con data = Some (upd_uc con (sp_received data) cl, up) \<and> su_inv (upd_uc con (sp_received data) cl) cs"
proof -
  have a: "con \<in> set (su_alloc cl)" "int (length data) \<le> su_udpgw_mtu cl"
    using assms by (auto simp: su_inv_def su_tables_def)
  have id: "sp_received data (su_con cl con) = su_con cl con \<Longrightarrow> upd_uc con (sp_received data) cl = cl"
    by (simp add: upd_uc_def)
  have "su_inv (upd_uc con (sp_received data) cl) cs"
    using assms(1) udpgw_read_addr_ip
    by (intro su_upd_inv(1)) (auto simp: sp_received_def su_inv_def su_sane_def split: option.splits)
  moreover have "\<exists>up. su_dgram_handler_received cl con data = Some (upd_uc con (sp_received data) cl, up)"
    using a id by (auto simp: su_dgram_handler_received_def sp_received_def su_submit_to_user_def upd_uc_def split: option.splits)
  ultimately show ?thesis
    by blast
qed

lemma su_step_ok:
  assumes "su_inv cl cs" "su_enabled cl e"
  shows "\<exists>cl' cs'. su_step cl e = Some cl' \<and> su_inv cl' cs' \<and> su_same_config cl cl' \<and> su_sockets cl' cs' = su_spec cl (su_sockets cl cs) e"
proof (cases e)
  case (SuSubmit l r is_dns data con outcome)
  have e: "BAddr_is_ip l" "BAddr_is_ip r" "su_fits (su_udp_mtu cl) r is_dns data" "con \<notin> set cs" "su_tables cl cs"
    using assms by (auto simp: SuSubmit su_inv_def su_tables_def)
  have "BAddr_is_ip (sa_local \<lparr>sa_local = l, sa_remote = r\<rparr>)"
    using e(1) by simp
  from e(5) this show ?thesis
    unfolding SuSubmit
    by (cases rule: su_find [where is_dns = is_dns])
      (use su_submit_absent [OF assms(1) _ _ e(1-4)] su_submit_present [OF assms(1) _ _ _ _ e(1-3)] in \<open>simp_all del: su_step.simps sp_step.simps\<close>)
next
  case (SuReceive con data)
  then have "con \<in> set cs" "int (length data) \<le> su_udp_mtu cl"
    using assms by (auto simp: su_inv_def su_tables_def)
  then obtain up where "su_dgram_handler_received cl con data = Some (upd_uc con (sp_received data) cl, up)"
    "su_inv (upd_uc con (sp_received data) cl) cs"
    using su_receive_cases [OF assms(1)] by blast
  moreover have "su_sockets (upd_uc con (sp_received data) cl) cs = sp_update con (sp_received data) (su_sockets cl cs)"
    by (simp add: su_sockets_def sp_update_def)
  ultimately show ?thesis
    using SuReceive su_no_jobs by (intro exI [of _ "upd_uc con (sp_received data) cl"] exI [of _ cs])
      (simp add: su_same_config_def su_inv_def)
next
  case (SuBuffer con)
  have "su_inv (upd_uc con (uc_out_have_update (\<lambda>_. True)) cl) cs"
    using assms(1) by (intro su_upd_inv(1)) (auto simp: su_inv_def su_sane_def)
  then show ?thesis
    using SuBuffer by (intro exI [of _ "upd_uc con (uc_out_have_update (\<lambda>_. True)) cl"] exI [of _ cs])
      (simp add: su_same_config_def su_sockets_def sp_update_def)
qed

lemma su_exec_ok:
  assumes "su_inv cl cs" "su_possible cl es"
  shows "\<exists>cl' cs'. su_exec cl es = Some cl' \<and> su_inv cl' cs' \<and> su_same_config cl cl' \<and>
    su_sockets cl' cs' = foldl (su_spec cl) (su_sockets cl cs) es"
  using assms
proof (induction es arbitrary: cl cs)
  case (Cons e es)
  obtain cl1 cs1 where s: "su_step cl e = Some cl1" "su_inv cl1 cs1" "su_same_config cl cl1" "su_sockets cl1 cs1 = su_spec cl (su_sockets cl cs) e"
    using su_step_ok [of cl cs e] Cons.prems by auto
  then obtain cl' cs' where "su_exec cl1 es = Some cl'" "su_inv cl' cs'" "su_same_config cl1 cl'"
    "su_sockets cl' cs' = foldl (su_spec cl1) (su_sockets cl1 cs1) es"
    using Cons.IH [OF s(2)] Cons.prems(2) by auto
  then show ?case
    using s by (intro exI [of _ cl'] exI [of _ cs']) (simp add: su_same_config_def)
qed (auto simp: su_same_config_def)

subsection \<open>Datagrams and answers\<close>

text \<open>The socket of a packet is there for its addresses afterwards, if there is one or it can be created.\<close>

lemma su_submit_socket:
  assumes "su_inv cl cs" "su_enabled cl (SuSubmit l r is_dns data con outcome)"
    "con \<noteq> NULL \<and> outcome = InitOk \<or> (\<exists>c\<in>set cs. sa_local (uc_addr cl c) = l)"
  shows "\<exists>cl' cs' c. su_step cl (SuSubmit l r is_dns data con outcome) = Some cl' \<and> su_inv cl' cs' \<and> su_same_config cl cl' \<and> c \<in> set cs' \<and>
    uc_addr cl' c = \<lparr>sa_local = l, sa_remote = r\<rparr> \<and> uc_is_dns (su_con cl' c) = is_dns"
proof -
  let ?e = "SuSubmit l r is_dns data con outcome"
  obtain cl' cs' where s: "su_step cl ?e = Some cl'" "su_inv cl' cs'" "su_same_config cl cl'" "su_sockets cl' cs' = su_spec cl (su_sockets cl cs) ?e"
    using su_step_ok [OF assms(1,2)] by blast
  have "\<exists>c s. (c, s) \<in> set (su_spec cl (su_sockets cl cs) ?e) \<and> uc_conaddr s = \<lparr>sa_local = l, sa_remote = r\<rparr> \<and> uc_is_dns s = is_dns"
  proof (cases "\<exists>c\<in>set cs. sa_local (uc_addr cl c) = l")
    case True
    then obtain c where c: "c \<in> set cs" "sa_local (uc_addr cl c) = l"
      by blast
    moreover have "(c, su_con cl c) \<in> set (su_sockets cl cs)"
      using c(1) by (simp add: su_sockets_def)
    ultimately show ?thesis
      using su_sockets_find_Some [OF assms(1) c] by (intro exI [of _ c]) (force simp: sp_update_def Let_def)
  next
    case False
    then show ?thesis
      using assms(3) su_sockets_find_None [of cs cl l]
      by (intro exI [of _ con] exI [of _ "su_socket l r is_dns data (if is_dns then su_dnsgw cl else su_socks_server_addr cl)"]) (auto simp: Let_def su_socket_def)
  qed
  then show ?thesis
    using s unfolding s(4) [symmetric] by (auto simp: su_sockets_def simp del: su_step.simps)
qed

text \<open>
  A datagram that the SOCKS server or the DNS gateway sends to a socket, in the form in which the client
  sends to \<open>r\<close>, is delivered with the local address of the socket; on a DNS socket it comes
  from the address to which the last query went.
\<close>

lemma su_reply:
  assumes "su_inv cl cs" "c \<in> set cs" "BAddr_is_ip r" "su_fits (su_udp_mtu cl) r (uc_is_dns (su_con cl c)) d"
  shows "\<exists>cl'. su_dgram_handler_received cl c (su_datagram r (uc_is_dns (su_con cl c)) d) =
    Some (cl', Some (sa_local (uc_addr cl c), if uc_is_dns (su_con cl c) then sa_remote (uc_addr cl c) else r, d))"
proof -
  have a: "su_udpgw_mtu cl = su_udp_mtu cl + 22" "int (length (su_datagram r (uc_is_dns (su_con cl c)) d)) \<le> su_udp_mtu cl"
    "int (length d) \<le> su_udp_mtu cl" "c \<in> set (su_alloc cl)"
    using assms by (auto simp: su_inv_def su_tables_def su_fits_def su_datagram_def split: if_splits)
  show ?thesis
  proof (cases "uc_is_dns (su_con cl c)")
    case True
    then show ?thesis
      using a by (simp add: su_dgram_handler_received_def su_submit_to_user_def su_datagram_def)
  next
    case False
    let ?m = "su_datagram r False d"
    have m: "4 \<le> length ?m" "?m ! 2 = 0" "(?m ! 3 = SOCKS_ATYP_6) = (BAddr_type r = 2)" "drop 4 ?m = udpgw_addr_bytes r @ d"
      using assms(3) by (cases r; simp add: su_datagram_def socks_udp_header_bytes_def bytes16_def)+
    then show ?thesis
      using False a udpgw_read_addr_bytes [OF assms(3), of d] by (simp add: su_dgram_handler_received_def su_submit_to_user_def)
  qed
qed

subsection \<open>Beginning and end\<close>

text \<open>The client before the program starts: a global variable, and no job is set.\<close>

definition su_fresh :: "SocksUdpGwClient \<Rightarrow> bool" where
  "su_fresh mem \<longleftrightarrow> su_num_connections mem = 0 \<and> su_jobs mem = [] \<and> su_alloc mem = []"

definition su_started :: "SocksUdpGwClient \<Rightarrow> int \<Rightarrow> int \<Rightarrow> BAddr \<Rightarrow> BAddr \<Rightarrow> SocksUdpGwClient \<Rightarrow> bool" where
  "su_started mem mtu n server dnsgw cl \<longleftrightarrow> su_fresh mem \<and> 0 \<le> mtu \<and> mtu \<le> INT_MAX - 22 \<and> 0 < n \<and>
     SocksUdpGwClient_Init mem mtu n server dnsgw = Some cl"

lemma su_Init_ok:
  assumes "su_started mem mtu n server dnsgw cl"
  shows "su_inv cl []" "su_max_connections cl = min n 65536" "su_udp_mtu cl = mtu" "su_socks_server_addr cl = server" "su_dnsgw cl = dnsgw"
  using assms udpgw_compute_mtu_eq [of mtu]
  by (auto simp: su_started_def su_fresh_def SocksUdpGwClient_Init_def ASSERT_def su_inv_def su_tables_def su_sane_def index_Init
      LinkedList1_Init_ok split: if_splits)

lemma su_reached:
  assumes "su_started mem mtu n server dnsgw cl0" "su_possible cl0 es"
  obtains cl cs where "su_exec cl0 es = Some cl" "su_inv cl cs" "su_udp_mtu cl = mtu" "su_max_connections cl = min n 65536"
    "su_sockets cl cs = foldl (sp_step (min n 65536) server dnsgw) [] es"
proof -
  note i = su_Init_ok [OF assms(1)]
  obtain cl cs where "su_exec cl0 es = Some cl" "su_inv cl cs" "su_same_config cl0 cl" "su_sockets cl cs = foldl (su_spec cl0) (su_sockets cl0 []) es"
    using su_exec_ok [OF i(1) assms(2)] by blast
  then show ?thesis
    using that [of cl cs] i(2-5) by (simp add: su_same_config_def) (simp add: su_sockets_def)
qed

lemma su_live: "su_inv cl cs \<Longrightarrow> c \<in> set (su_alloc cl) \<longleftrightarrow> c \<in> set cs"
  by (simp add: su_inv_def su_tables_def)

lemma su_find_live:
  assumes "su_inv cl cs" "c \<in> set cs" "sa_local a = sa_local (uc_addr cl c)"
  shows "su_find_connection cl a is_dns = Some c" "c \<noteq> NULL"
proof -
  have "su_tables cl cs" "BAddr_is_ip (sa_local a)"
    using assms by (auto simp: su_inv_def su_sane_def)
  then have "su_find_connection cl a is_dns = Some c \<and> c \<noteq> NULL"
  proof (cases rule: su_find [where is_dns = is_dns])
    case 1
    then show ?thesis
      using assms(2,3) by auto
  next
    case (2 d)
    then have "d = c"
      using su_local_unique [OF assms(1) 2(2) assms(2)] assms(3) by simp
    then show ?thesis
      using 2 by simp
  qed
  then show "su_find_connection cl a is_dns = Some c" "c \<noteq> NULL"
    by auto
qed

lemma su_sockets_single: "su_sockets cl cs = [(c, s)] \<longleftrightarrow> cs = [c] \<and> su_con cl c = s"
  by (cases cs) (auto simp: su_sockets_def)

lemma su_Free_ok:
  assumes "su_tables cl cs" "su_sane cl cs" "su_jobs cl = []"
  shows "\<exists>cl'. SocksUdpGwClient_Free cl = Some cl' \<and> su_tables cl' [] \<and> su_jobs cl' = []"
  using assms
proof (induction cs arbitrary: cl)
  case Nil
  then have "LinkedList1_IsEmpty (su_list cl)"
    using LinkedList1_ends_ok(1) by (auto simp: su_tables_def)
  then show ?case
    using Nil by (subst SocksUdpGwClient_Free.simps) simp
next
  case (Cons c cs)
  then have "ll_rep (su_list cl) (c # cs)"
    by (simp add: su_tables_def)
  then have "\<not> LinkedList1_IsEmpty (su_list cl)" "LinkedList1_GetFirst (su_list cl) = c"
    using LinkedList1_ends_ok [of "su_list cl" "c # cs"] by auto
  then show ?case
    using su_connection_free_ok [OF Cons.prems(1,2) _ Cons.prems(3), of c] Cons.IH by (subst SocksUdpGwClient_Free.simps) fastforce
qed

subsection \<open>Properties\<close>

text \<open>
  A run that is used to show that the properties apply: two local addresses and a table of
  two connections, then a third one.
\<close>

definition su_blank :: SocksUdpGwClient where
  "su_blank = \<lparr>su_udp_mtu = 0, su_socks_server_addr = BAddr_None, su_dnsgw = BAddr_None, su_udpgw_mtu = 0, su_num_connections = 0,
     su_max_connections = 0, su_tree = example_tree,
     su_list = \<lparr>ll_p = \<lambda>_. 0, ll_n = \<lambda>_. 0, ll_first = 0, ll_last = 0\<rparr>, su_jobs = [], su_alloc = [],
     su_con = (\<lambda>_. \<lparr>uc_conaddr = \<lparr>sa_local = BAddr_None, sa_remote = BAddr_None\<rparr>, uc_first_data = [], uc_is_dns = False,
       uc_send_addr = BAddr_None, uc_res = [], uc_out_have = False, uc_sent = []\<rparr>)\<rparr>"

definition su_sample :: "su_event list" where
  "su_sample = [SuSubmit (BAddr_IPv4 1 2) (BAddr_IPv4 3 4) False [1, 2, 3] 7 InitOk, SuSubmit (BAddr_IPv4 1 5) (BAddr_IPv4 3 6) True [9] 8 InitOk,
     SuBuffer 7, SuSubmit (BAddr_IPv4 1 2) (BAddr_IPv4 3 5) False [4] 9 InitOk, SuReceive 7 [0, 0, 0, 1, 3, 0, 0, 0, 9, 0, 77], SuBuffer 7,
     SuSubmit (BAddr_IPv4 1 7) (BAddr_IPv4 3 5) False [5] 9 InitOk]"

lemma su_sample_runs:
  "(case SocksUdpGwClient_Init su_blank 100 2 (BAddr_IPv4 10 10) (BAddr_IPv4 11 11) of None \<Rightarrow> False
    | Some cl0 \<Rightarrow> su_possible cl0 su_sample \<and>
        (case su_exec cl0 su_sample of None \<Rightarrow> False
         | Some cl \<Rightarrow> 7 \<in> set (su_alloc cl) \<and> 9 \<in> set (su_alloc cl) \<and> 8 \<notin> set (su_alloc cl) \<and> uc_out_have (su_con cl 7) \<and>
             uc_conaddr (su_con cl 7) = \<lparr>sa_local = BAddr_IPv4 1 2, sa_remote = BAddr_IPv4 3 9\<rparr> \<and> \<not> uc_is_dns (su_con cl 7)))"
  by code_simp

lemma su_sample_run:
  obtains cl0 cl where "su_started su_blank 100 2 (BAddr_IPv4 10 10) (BAddr_IPv4 11 11) cl0" "su_possible cl0 su_sample"
    "su_exec cl0 su_sample = Some cl" "7 \<in> set (su_alloc cl)" "8 \<notin> set (su_alloc cl)" "uc_out_have (su_con cl 7)"
    "uc_conaddr (su_con cl 7) = \<lparr>sa_local = BAddr_IPv4 1 2, sa_remote = BAddr_IPv4 3 9\<rparr>" "\<not> uc_is_dns (su_con cl 7)"
proof -
  have "su_fresh su_blank"
    by (simp add: su_fresh_def su_blank_def)
  then show ?thesis
    using that su_sample_runs by (auto simp: su_started_def split: option.splits)
qed



text \<open>
  \<^bold>\<open>C38\<close>: the limit that the callers respect is too large. After any run, a packet of at most
  \<open>udp_mtu\<close> bytes for a socket that has a buffer makes the assertion of the buffer fail
  (and, without assertions, writes behind the buffer) exactly when the datagram with the
  SOCKS header is longer than \<open>udp_mtu\<close>, which is the size of the buffer.
\<close>

theorem SocksUdpGwClient_overflow:
  assumes "su_started mem mtu n server dnsgw cl0" "su_possible cl0 es" "su_exec cl0 es = Some cl"
    and "c \<in> set (su_alloc cl)" "uc_out_have (su_con cl c)" "BAddr_is_ip r" "int (length data) \<le> mtu"
  shows "SocksUdpGwClient_SubmitPacket cl (sa_local (uc_conaddr (su_con cl c))) r is_dns data con outcome = None \<longleftrightarrow>
    mtu < int (length (su_datagram r is_dns data))"
proof -
  obtain cs where inv: "su_inv cl cs" and mtu: "su_udp_mtu cl = mtu"
    using su_reached [OF assms(1,2)] assms(3) by (metis option.inject)
  let ?l = "sa_local (uc_addr cl c)" let ?a = "\<lparr>sa_local = ?l, sa_remote = r\<rparr>"
  have c: "c \<in> set cs" "su_tables cl cs" "BAddr_is_ip ?l"
    using inv assms(4) su_live [OF inv] by (auto simp: su_inv_def su_sane_def)
  have f: "su_find_connection cl ?a is_dns = Some c" "c \<noteq> NULL"
    using su_find_live [OF inv c(1), of ?a] by simp_all
  have g: "BAddr_type ?l \<in> {1, 2} \<and> BAddr_type r \<in> {1, 2} \<and> int (length data) \<le> su_udp_mtu cl"
    using c(3) assms(6,7) mtu by (cases ?l; cases r) auto
  show ?thesis
    using g f assms(4,5) mtu
    by (auto simp: SocksUdpGwClient_SubmitPacket_def su_reset_connection_def su_connection_send_def su_datagram_def ASSERT_def Let_def)
qed

theorem SocksUdpGwClient_overflow_witness:
  "\<exists>cl0 cl. SocksUdpGwClient_Init su_blank 100 2 (BAddr_IPv4 10 10) (BAddr_IPv4 11 11) = Some cl0 \<and> su_exec cl0 su_sample = Some cl \<and>
     SocksUdpGwClient_SubmitPacket cl (BAddr_IPv4 1 2) (BAddr_IPv4 3 4) False (replicate 95 0) NULL FailDgram = None"
proof -
  obtain cl0 cl where r: "su_started su_blank 100 2 (BAddr_IPv4 10 10) (BAddr_IPv4 11 11) cl0" "su_possible cl0 su_sample"
    "su_exec cl0 su_sample = Some cl" "7 \<in> set (su_alloc cl)" "uc_out_have (su_con cl 7)"
    "uc_conaddr (su_con cl 7) = \<lparr>sa_local = BAddr_IPv4 1 2, sa_remote = BAddr_IPv4 3 9\<rparr>"
    by (rule su_sample_run)
  have "length (su_datagram (BAddr_IPv4 3 4) False (replicate 95 0)) = 105"
    by code_simp
  then show ?thesis
    using SocksUdpGwClient_overflow [OF r(1-5), of "BAddr_IPv4 3 4" "replicate 95 0" False NULL FailDgram] r(1,3,6) by (auto simp: su_started_def)
qed

text \<open>
  \<^bold>\<open>C39\<close>: a socket keeps its destination when its use changes. If the first packet of a local
  address is a DNS query and the next one is not, the second goes, with its SOCKS header, to the
  DNS gateway and not to the SOCKS server.
\<close>

theorem SocksUdpGwClient_wrong_server:
  assumes "su_started mem mtu n server dnsgw cl0"
    and "BAddr_is_ip l" "BAddr_is_ip r1" "BAddr_is_ip r2" "su_fits mtu r1 True d1" "su_fits mtu r2 False d2" "c \<noteq> NULL" "c \<noteq> c'"
  shows "\<exists>cl. su_exec cl0 [SuSubmit l r1 True d1 c InitOk, SuBuffer c, SuSubmit l r2 False d2 c' outcome] = Some cl \<and>
    uc_sent (su_con cl c) = [d1, su_datagram r2 False d2] \<and> \<not> uc_is_dns (su_con cl c) \<and> uc_send_addr (su_con cl c) = dnsgw"
proof -
  note i = su_Init_ok [OF assms(1)]
  let ?e1 = "SuSubmit l r1 True d1 c InitOk" and ?e2 = "SuBuffer c" and ?e3 = "SuSubmit l r2 False d2 c' outcome"
  let ?s1 = "su_socket l r1 True d1 dnsgw"
  have "su_alloc cl0 = []" "0 < n"
    using assms(1) i(1) by (auto simp: su_started_def su_inv_def su_tables_def)
  then obtain cl1 cs1 where 1: "su_step cl0 ?e1 = Some cl1" "su_inv cl1 cs1" "su_same_config cl0 cl1" "su_sockets cl1 cs1 = [(c, ?s1)]"
    using su_step_ok [OF i(1), of ?e1] assms(2,3,5,7) i(2-5) by (auto simp: su_sockets_def Let_def)
  then have c1: "cs1 = [c]" "su_con cl1 c = ?s1" "c \<in> set (su_alloc cl1)"
    using su_live [OF 1(2), of c] by (auto simp: su_sockets_single)
  then obtain cl2 cs2 where 2: "su_step cl1 ?e2 = Some cl2" "su_inv cl2 cs2" "su_same_config cl1 cl2"
    "su_sockets cl2 cs2 = [(c, ?s1\<lparr>uc_out_have := True\<rparr>)]"
    using su_step_ok [OF 1(2), of ?e2] 1(4) by (auto simp: sp_update_def su_socket_def)
  then have "c' \<notin> set (su_alloc cl2)" "su_udp_mtu cl2 = mtu"
    using su_live [OF 2(2), of c'] assms(8) 1(3) i(3) by (auto simp: su_sockets_single su_same_config_def)
  then obtain cl3 cs3 where 3: "su_step cl2 ?e3 = Some cl3" "su_sockets cl3 cs3 = [(c, ?s1\<lparr>uc_conaddr := \<lparr>sa_local = l, sa_remote = r2\<rparr>,
      uc_is_dns := False, uc_sent := [d1, su_datagram r2 False d2]\<rparr>)]"
    using su_step_ok [OF 2(2), of ?e3] 2(4) assms(2,4,6) by (auto simp: su_socket_def su_datagram_def Let_def)
  then show ?thesis
    using 1(1) 2(1) by (auto simp: su_sockets_single su_socket_def simp del: su_step.simps)
qed

theorem SocksUdpGwClient_wrong_server_witness:
  "\<exists>cl0 cl. SocksUdpGwClient_Init su_blank 100 2 (BAddr_IPv4 10 10) (BAddr_IPv4 11 11) = Some cl0 \<and>
     su_exec cl0 [SuSubmit (BAddr_IPv4 1 2) (BAddr_IPv4 8 53) True [1] 7 InitOk, SuBuffer 7,
       SuSubmit (BAddr_IPv4 1 2) (BAddr_IPv4 3 4) False [2] 8 InitOk] = Some cl \<and>
     uc_sent (su_con cl 7) = [[1], su_datagram (BAddr_IPv4 3 4) False [2]] \<and> uc_send_addr (su_con cl 7) = BAddr_IPv4 11 11"
proof -
  obtain cl0 where r: "su_started su_blank 100 2 (BAddr_IPv4 10 10) (BAddr_IPv4 11 11) cl0"
    by (rule su_sample_run)
  have "su_fits 100 (BAddr_IPv4 8 53) True [1]" "su_fits 100 (BAddr_IPv4 3 4) False [2]"
    by code_simp+
  then show ?thesis
    using SocksUdpGwClient_wrong_server [OF r, of "BAddr_IPv4 1 2" "BAddr_IPv4 8 53" "BAddr_IPv4 3 4" "[1]" "[2]" 7 8 InitOk] r
    by (auto simp: su_started_def simp del: su_exec.simps)
qed



end
