(* ===== verification/PacketFlow.thy ===== *)
theory PacketFlow
  imports PacketBuffer PacketProto "HOL-Library.Monad_Syntax"
begin

text \<open>
  The way of messages into a stream: a \<^verbatim>\<open>PacketProtoFlow\<close> (\<^verbatim>\<open>flow/PacketProtoFlow.c\<close>) takes the
  messages of one user through a buffer writer and the encoder into a packet buffer, and a
  \<^verbatim>\<open>PacketStreamSender\<close> (\<^verbatim>\<open>flow/PacketStreamSender.c\<close>) writes packets to a stream, piece by piece.
  Several flows share one sender; which of them may send next is decided elsewhere and left
  open here.

  All of them work on the memory of the packet buffers: the writer and the encoder write into the area that the
  buffer asked to be filled, and the sender keeps a pointer into the buffer while the
  writers go on. The theorem at the end says that the stream, cut in any way and read by
  a \<^verbatim>\<open>PacketProtoDecoder\<close>, gives the messages back.
\<close>

subsection \<open>A flow\<close>

record PacketProtoFlow =
  pf_ainput :: BufferWriter
  pf_encoder :: PacketProtoEncoder
  pf_buffer :: PacketBuffer

definition PacketProtoFlow_Init :: "(int \<Rightarrow> memory option) \<Rightarrow> int \<Rightarrow> int \<Rightarrow> PacketProtoFlow option" where
  "PacketProtoFlow_Init alloc input_mtu num_packets = do {
     ASSERT (input_mtu \<ge> 0 \<and> input_mtu \<le> PACKETPROTO_MAXPAYLOAD \<and> num_packets > 0);
     buffer \<leftarrow> PacketBuffer_Init alloc (PACKETPROTO_ENCLEN input_mtu) num_packets;
     Some \<lparr>pf_ainput = BufferWriter_Init, pf_encoder = \<lparr>enc_output_packet = None\<rparr>, pf_buffer = buffer\<rparr>
   }"

text \<open>The receive request of the buffer passes through the encoder to the writer.\<close>

definition pf_receive :: "PacketProtoFlow \<Rightarrow> PacketProtoFlow option" where
  "pf_receive pf =
     (case pb_recv (pf_buffer pf) of
        Some (Some data) \<Rightarrow>
          if enc_output_packet (pf_encoder pf) \<noteq> None \<or> bw_out_have (pf_ainput pf) then None
          else let (encoder, dest) = enc_output_handler_recv (pf_encoder pf) data
               in Some (pf\<lparr>pf_encoder := encoder, pf_ainput := output_handler_recv (pf_ainput pf) dest\<rparr>)
      | _ \<Rightarrow> None)"

text \<open>The user starts a packet, writes \<open>p\<close> to the place it was given and ends the packet.\<close>

definition pf_write :: "PacketProtoFlow \<Rightarrow> byte list \<Rightarrow> PacketProtoFlow option" where
  "pf_write pf p = do {
     buf \<leftarrow> BufferWriter_StartPacket (pf_ainput pf);
     ASSERT (PACKETPROTO_ENCLEN (int (length p)) \<le> pb_input_mtu (pf_buffer pf));
     let m = write_bytes (cb_buffer (pb_buf (pf_buffer pf))) buf p;
     let (ainput, len) = BufferWriter_EndPacket (pf_ainput pf) (int (length p));
     let (encoder, m, n) = enc_input_handler_done (pf_encoder pf) m len;
     let buffer = (pf_buffer pf)\<lparr>pb_buf := (pb_buf (pf_buffer pf))\<lparr>cb_buffer := m\<rparr>, pb_recv := None\<rparr>;
     Some \<lparr>pf_ainput = ainput, pf_encoder = encoder, pf_buffer = input_handler_done buffer n\<rparr>
   }"

subsection \<open>The sender\<close>

text \<open>\<open>ss_out\<close> is the send that is outstanding on the stream: address and length.\<close>

record PacketStreamSender =
  ss_in_len :: int
  ss_in :: int
  ss_in_used :: int
  ss_out :: "(int \<times> int) option"

text \<open>The boolean says that the input packet is finished.\<close>

definition ss_send_data :: "PacketStreamSender \<Rightarrow> PacketStreamSender \<times> bool" where
  "ss_send_data s =
     (if ss_in_used s < ss_in_len s then (s\<lparr>ss_out := Some (ss_in s + ss_in_used s, ss_in_len s - ss_in_used s)\<rparr>, False)
      else (s\<lparr>ss_in_len := -1\<rparr>, True))"

definition ss_input_handler_send :: "PacketStreamSender \<Rightarrow> int \<Rightarrow> int \<Rightarrow> (PacketStreamSender \<times> bool) option" where
  "ss_input_handler_send s data data_len = do {
     ASSERT (ss_in_len s = -1 \<and> data_len \<ge> 0);
     Some (ss_send_data (s\<lparr>ss_in_len := data_len, ss_in := data, ss_in_used := 0\<rparr>))
   }"

definition ss_output_handler_done :: "PacketStreamSender \<Rightarrow> int \<Rightarrow> (PacketStreamSender \<times> bool) option" where
  "ss_output_handler_done s data_len = do {
     ASSERT (ss_in_len s \<ge> 0 \<and> data_len > 0 \<and> data_len \<le> ss_in_len s - ss_in_used s);
     Some (ss_send_data (s\<lparr>ss_in_used := ss_in_used s + data_len\<rparr>))
   }"

definition PacketStreamSender_Init :: PacketStreamSender where
  "PacketStreamSender_Init = \<lparr>ss_in_len = -1, ss_in = 0, ss_in_used = 0, ss_out = None\<rparr>"

subsection \<open>Flows and sender\<close>

record sender_chain =
  ch_flow :: "nat \<Rightarrow> PacketProtoFlow"
  ch_sender :: PacketStreamSender
  ch_current :: nat

text \<open>The completion of the packet of flow \<open>f\<close> goes back to its buffer.\<close>

definition ch_finish :: "sender_chain \<Rightarrow> nat \<Rightarrow> PacketStreamSender \<times> bool \<Rightarrow> sender_chain" where
  "ch_finish ch f r =
     (let ch = ch\<lparr>ch_sender := fst r, ch_current := f\<rparr>; pf = ch_flow ch f
      in if snd r
         then ch\<lparr>ch_flow := (ch_flow ch)(f := pf\<lparr>pf_buffer := output_handler_done ((pf_buffer pf)\<lparr>pb_send := None\<rparr>)\<rparr>)\<rparr>
         else ch)"

text \<open>
  The buffer of a flow asks for a packet; the user of a flow writes a message; the packet a
  flow wants to send is given to the sender; the stream takes some bytes.
\<close>

datatype ch_event = ChReceive nat | ChWrite nat "byte list" | ChSend nat | ChStream nat

text \<open>The second component of the result is what the stream took.\<close>

fun ch_step :: "sender_chain \<Rightarrow> ch_event \<Rightarrow> (sender_chain \<times> byte list) option" where
  "ch_step ch (ChReceive f) = do {
     pf \<leftarrow> pf_receive (ch_flow ch f);
     Some (ch\<lparr>ch_flow := (ch_flow ch)(f := pf)\<rparr>, [])
   }"
| "ch_step ch (ChWrite f p) = do {
     pf \<leftarrow> pf_write (ch_flow ch f) p;
     Some (ch\<lparr>ch_flow := (ch_flow ch)(f := pf)\<rparr>, [])
   }"
| "ch_step ch (ChSend f) =
     (case pb_send (pf_buffer (ch_flow ch f)) of
        Some (Some data, len) \<Rightarrow> do {
          r \<leftarrow> ss_input_handler_send (ch_sender ch) data len;
          Some (ch_finish ch f r, [])
        }
      | _ \<Rightarrow> None)"
| "ch_step ch (ChStream k) =
     (case ss_out (ch_sender ch) of
        Some (data, len) \<Rightarrow>
          if int k \<le> len then do {
            r \<leftarrow> ss_output_handler_done ((ch_sender ch)\<lparr>ss_out := None\<rparr>) (int k);
            Some (ch_finish ch (ch_current ch) r, read_bytes (cb_buffer (pb_buf (pf_buffer (ch_flow ch (ch_current ch))))) data k)
          } else None
      | None \<Rightarrow> None)"

fun ch_exec :: "sender_chain \<Rightarrow> ch_event list \<Rightarrow> (sender_chain \<times> byte list) option" where
  "ch_exec ch [] = Some (ch, [])"
| "ch_exec ch (e # es) = do {
     (ch, out) \<leftarrow> ch_step ch e;
     (ch, outs) \<leftarrow> ch_exec ch es;
     Some (ch, out @ outs)
   }"

text \<open>The messages that were written to flow \<open>f\<close>.\<close>

fun ch_written :: "nat \<Rightarrow> ch_event list \<Rightarrow> byte list list" where
  "ch_written f [] = []"
| "ch_written f (ChWrite g p # es) = (if g = f then p # ch_written f es else ch_written f es)"
| "ch_written f (_ # es) = ch_written f es"

definition ch_start :: "(nat \<Rightarrow> PacketProtoFlow) \<Rightarrow> sender_chain" where
  "ch_start flows = \<lparr>ch_flow = flows, ch_sender = PacketStreamSender_Init, ch_current = 0\<rparr>"

subsection \<open>What a flow holds\<close>

definition pf_inv :: "PacketProtoFlow \<Rightarrow> int \<Rightarrow> byte list list \<Rightarrow> bool" where
  "pf_inv pf mtu qs \<longleftrightarrow> pb_inv (pf_buffer pf) (map pp_encode qs) \<and> pb_input_mtu (pf_buffer pf) = mtu + 2 \<and>
     (\<forall>q\<in>set qs. int (length q) \<le> mtu) \<and>
     (if bw_out_have (pf_ainput pf)
      then \<exists>a. pb_recv (pf_buffer pf) = Some (Some a) \<and> enc_output_packet (pf_encoder pf) = Some a \<and> bw_out (pf_ainput pf) = Some (a + 2)
      else enc_output_packet (pf_encoder pf) = None)"

lemma length_pp_encode [simp]: "length (pp_encode p) = 2 + length p"
  by (simp add: pp_encode_def packetproto_header_bytes_def)

text \<open>The packet a buffer sends lies in its memory.\<close>

lemma pb_send_area:
  assumes "pb_inv pb (p # ps)"
  shows "pb_send pb = Some (Some (4 * (cb_start (pb_buf pb) + 1)), int (length p))"
    "read_bytes (cb_buffer (pb_buf pb)) (4 * (cb_start (pb_buf pb) + 1)) (length p) = p"
proof -
  have "cb_rep (pb_buf pb) (p # ps)"
    using assms by (simp add: pb_inv_def)
  from cb_rep_output [OF this] show s: "pb_send pb = Some (Some (4 * (cb_start (pb_buf pb) + 1)), int (length p))"
    using assms by (simp add: pb_inv_def)
  from pb_inv_output [OF assms s] show "read_bytes (cb_buffer (pb_buf pb)) (4 * (cb_start (pb_buf pb) + 1)) (length p) = p"
    by auto
qed

lemma pf_receive_ok:
  assumes "pf_inv pf mtu qs" "pf_receive pf = Some pf'"
  shows "pf_inv pf' mtu qs" "pf_buffer pf' = pf_buffer pf"
  using assms by (auto simp: pf_inv_def pf_receive_def enc_output_handler_recv_def output_handler_recv_def split: option.splits if_splits)

lemma write_behind_header: "write_bytes m (a + 2) p = write_bytes m a (read_bytes m a 2 @ p)"
  by (simp add: write_bytes_append write_read_bytes)

text \<open>The writer and the encoder fill the area of the buffer with the encoded message.\<close>

lemma pb_write_encoded:
  assumes "pb_inv pb ps" "pb_recv pb = Some (Some a)" "2 + int (length p) \<le> pb_input_mtu pb"
  defines "m \<equiv> write_bytes (write_bytes (cb_buffer (pb_buf pb)) (a + 2) p) a (packetproto_header_bytes (htol16 (of_nat (length p))))"
  defines "pb' \<equiv> input_handler_done (pb\<lparr>pb_buf := (pb_buf pb)\<lparr>cb_buffer := m\<rparr>, pb_recv := None\<rparr>) (2 + int (length p))"
  shows "pb_inv pb' (ps @ [pp_encode p])" "pb_input_mtu pb' = pb_input_mtu pb" "cb_start (pb_buf pb') = cb_start (pb_buf pb)"
proof -
  let ?m = "cb_buffer (pb_buf pb)" and ?h = "packetproto_header_bytes (htol16 (of_nat (length p)))"
  define m1 where "m1 = write_bytes ?m (a + 2) p"
  define pb1 where "pb1 = pb\<lparr>pb_buf := (pb_buf pb)\<lparr>cb_buffer := m1\<rparr>\<rparr>"
  define pb2 where "pb2 = pb\<lparr>pb_buf := (pb_buf pb)\<lparr>cb_buffer := m\<rparr>\<rparr>"
  have m: "m = write_bytes m1 a ?h" and h: "length ?h = 2"
    by (simp_all add: m_def m1_def packetproto_header_bytes_def)
  have "pb_inv pb1 ps"
    using pb_inv_write [OF assms(1,2), of "read_bytes ?m a 2 @ p"] assms(3) by (simp add: pb1_def m1_def write_behind_header)
  from pb_inv_write [OF this, of a ?h] have inv2: "pb_inv pb2 ps"
    using assms(2,3) h by (simp add: pb1_def pb2_def m)
  have "read_bytes m a 2 = ?h" "read_bytes m (a + 2) (length p) = p"
    using read_write_bytes_prefix [of 2 ?h m1 a] h by (simp_all add: m read_write_disjoint m1_def)
  then have "read_bytes m a (2 + length p) = pp_encode p"
    using read_bytes_append [of m a 2 "length p"] by (simp add: pp_encode_def)
  then show "pb_inv pb' (ps @ [pp_encode p])"
    using pb_inv_input [OF inv2, of a "2 + length p"] assms(2,3) by (simp add: pb'_def pb2_def)
  show "pb_input_mtu pb' = pb_input_mtu pb" "cb_start (pb_buf pb') = cb_start (pb_buf pb)"
    by (simp_all add: pb'_def input_handler_done_def Let_def)
qed

lemma pf_write_ok:
  assumes "pf_inv pf mtu qs" "pf_write pf p = Some pf'"
  shows "pf_inv pf' mtu (qs @ [p])" "qs \<noteq> [] \<Longrightarrow> pb_send (pf_buffer pf') = pb_send (pf_buffer pf)"
proof -
  let ?pb = "pf_buffer pf"
  have have': "bw_out_have (pf_ainput pf)" and len: "2 + int (length p) \<le> mtu + 2"
    using assms by (auto simp: pf_write_def BufferWriter_StartPacket_def PACKETPROTO_ENCLEN_def ASSERT_def pf_inv_def bind_eq_Some_conv
        split: if_splits)
  then obtain a where a: "pb_recv ?pb = Some (Some a)" "enc_output_packet (pf_encoder pf) = Some a" "bw_out (pf_ainput pf) = Some (a + 2)"
    using assms(1) by (auto simp: pf_inv_def)
  have inv: "pb_inv ?pb (map pp_encode qs)" "pb_input_mtu ?pb = mtu + 2"
    using assms(1) by (auto simp: pf_inv_def)
  note w = pb_write_encoded [OF inv(1) a(1), of p]
  have pf': "pf' = \<lparr>pf_ainput = (pf_ainput pf)\<lparr>bw_out_have := False\<rparr>, pf_encoder = (pf_encoder pf)\<lparr>enc_output_packet := None\<rparr>,
      pf_buffer = input_handler_done (?pb\<lparr>pb_buf := (pb_buf ?pb)\<lparr>cb_buffer := write_bytes (write_bytes (cb_buffer (pb_buf ?pb)) (a + 2) p) a
        (packetproto_header_bytes (htol16 (of_nat (length p))))\<rparr>, pb_recv := None\<rparr>) (2 + int (length p))\<rparr>"
    using assms(2) have' a by (auto simp: pf_write_def BufferWriter_StartPacket_def BufferWriter_EndPacket_def enc_input_handler_done_def
        PACKETPROTO_ENCLEN_def ASSERT_def bind_eq_Some_conv split: if_splits)
  then show "pf_inv pf' mtu (qs @ [p])"
    using w(1,2) assms(1) len inv(2) by (simp add: pf_inv_def)
  show "pb_send (pf_buffer pf') = pb_send ?pb" if ne: "qs \<noteq> []"
  proof -
    obtain q qs' where "qs = q # qs'"
      using ne by (cases qs) auto
    then show ?thesis
      using pb_send_area(1) [of ?pb "pp_encode q" "map pp_encode qs'"] inv len pf' w(1,3)
        pb_send_area(1) [of "pf_buffer pf'" "pp_encode q" "map pp_encode (qs' @ [p])"] by simp
  qed
qed

lemma pf_sent_ok:
  assumes "pf_inv pf mtu (q # qs)"
  shows "pf_inv (pf\<lparr>pf_buffer := output_handler_done ((pf_buffer pf)\<lparr>pb_send := None\<rparr>)\<rparr>) mtu qs"
proof -
  let ?pb = "pf_buffer pf"
  have inv: "pb_inv ?pb (pp_encode q # map pp_encode qs)"
    using assms by (simp add: pf_inv_def)
  have "pb_inv (output_handler_done (?pb\<lparr>pb_send := None\<rparr>)) (map pp_encode qs)"
    using pb_inv_output [OF inv pb_send_area(1) [OF inv]] by auto
  moreover have "pb_recv ?pb = Some (Some a) \<Longrightarrow> pb_recv (output_handler_done (?pb\<lparr>pb_send := None\<rparr>)) = Some (Some a)" for a
    using pb_recv_dest(2) [OF inv] by (auto simp: output_handler_done_def Let_def)
  moreover have "pb_input_mtu (output_handler_done (?pb\<lparr>pb_send := None\<rparr>)) = pb_input_mtu ?pb"
    by (simp add: output_handler_done_def Let_def)
  ultimately show ?thesis
    using assms by (auto simp: pf_inv_def split: if_splits)
qed

subsection \<open>The chain\<close>

text \<open>
  The flows hold the messages \<open>qs f\<close>. While the sender works on a packet, it is the first one
  of the current flow, and \<open>part\<close> are the bytes of it that the stream has taken.
\<close>

definition ch_inv :: "sender_chain \<Rightarrow> (nat \<Rightarrow> int) \<Rightarrow> (nat \<Rightarrow> byte list list) \<Rightarrow> byte list \<Rightarrow> bool" where
  "ch_inv ch mtu qs part \<longleftrightarrow> (\<forall>f. pf_inv (ch_flow ch f) (mtu f) (qs f)) \<and>
     (let s = ch_sender ch; f = ch_current ch in
      if ss_in_len s = -1 then ss_out s = None \<and> part = []
      else qs f \<noteq> [] \<and> pb_send (pf_buffer (ch_flow ch f)) = Some (Some (ss_in s), ss_in_len s) \<and>
        0 \<le> ss_in_used s \<and> ss_in_used s < ss_in_len s \<and> ss_out s = Some (ss_in s + ss_in_used s, ss_in_len s - ss_in_used s) \<and>
        part = take (nat (ss_in_used s)) (pp_encode (hd (qs f))))"

lemma flow_send_area:
  assumes "pf_inv pf mtu (q # qs)" "pb_send (pf_buffer pf) = Some (Some a, n)"
  shows "n = 2 + int (length q)" "read_bytes (cb_buffer (pb_buf (pf_buffer pf))) a (2 + length q) = pp_encode q"
proof -
  have "pb_inv (pf_buffer pf) (pp_encode q # map pp_encode qs)"
    using assms(1) by (simp add: pf_inv_def)
  from pb_send_area [OF this] show "n = 2 + int (length q)" "read_bytes (cb_buffer (pb_buf (pf_buffer pf))) a (2 + length q) = pp_encode q"
    using assms(2) by auto
qed

lemma flow_idle: "pf_inv pf mtu qs \<Longrightarrow> pb_send (pf_buffer pf) = None \<longleftrightarrow> qs = []"
  by (simp add: pf_inv_def pb_inv_def)

text \<open>What a step does to the queues: \<open>sent\<close> is the packet it completes, if any.\<close>

definition ch_progress :: "(nat \<Rightarrow> int) \<Rightarrow> (nat \<Rightarrow> byte list list) \<Rightarrow> byte list \<Rightarrow> ch_event list \<Rightarrow> byte list \<Rightarrow>
    (nat \<times> byte list) list \<Rightarrow> (nat \<Rightarrow> byte list list) \<Rightarrow> byte list \<Rightarrow> bool" where
  "ch_progress mtu qs part es out sent qs' part' \<longleftrightarrow> part @ out = pp_stream (map snd sent) @ part' \<and>
     (\<forall>f. qs f @ ch_written f es = map snd (filter (\<lambda>x. fst x = f) sent) @ qs' f) \<and> (\<forall>x\<in>set sent. int (length (snd x)) \<le> mtu (fst x))"

lemma ch_update_flow:
  assumes "ch_inv ch mtu qs part" "pf_inv pf (mtu f) q"
    "f = ch_current ch \<Longrightarrow> ss_in_len (ch_sender ch) \<noteq> -1 \<Longrightarrow> qs f \<noteq> [] \<Longrightarrow>
       pb_send (pf_buffer pf) = pb_send (pf_buffer (ch_flow ch f)) \<and> q \<noteq> [] \<and> hd q = hd (qs f)"
  shows "ch_inv (ch\<lparr>ch_flow := (ch_flow ch)(f := pf)\<rparr>) mtu (qs(f := q)) part"
  using assms by (auto simp: ch_inv_def Let_def split: if_splits)

lemma ch_receive_ok:
  assumes "ch_inv ch mtu qs part" "ch_step ch (ChReceive f) = Some (ch', out)"
  shows "ch_inv ch' mtu qs part \<and> out = []"
proof -
  obtain pf where pf: "pf_receive (ch_flow ch f) = Some pf" "ch' = ch\<lparr>ch_flow := (ch_flow ch)(f := pf)\<rparr>" "out = []"
    using assms(2) by (auto simp: bind_eq_Some_conv)
  have i: "pf_inv (ch_flow ch f) (mtu f) (qs f)"
    using assms(1) by (simp add: ch_inv_def)
  show ?thesis
    using ch_update_flow [OF assms(1) pf_receive_ok(1) [OF i pf(1)]] pf_receive_ok(2) [OF i pf(1)] pf(2,3) by simp
qed

lemma ch_write_ok:
  assumes "ch_inv ch mtu qs part" "ch_step ch (ChWrite f p) = Some (ch', out)"
  shows "ch_inv ch' mtu (qs(f := qs f @ [p])) part \<and> out = []"
proof -
  obtain pf where pf: "pf_write (ch_flow ch f) p = Some pf" "ch' = ch\<lparr>ch_flow := (ch_flow ch)(f := pf)\<rparr>" "out = []"
    using assms(2) by (auto simp: bind_eq_Some_conv)
  have i: "pf_inv (ch_flow ch f) (mtu f) (qs f)"
    using assms(1) by (simp add: ch_inv_def)
  show ?thesis
    using ch_update_flow [OF assms(1) pf_write_ok(1) [OF i pf(1)]] pf_write_ok(2) [OF i pf(1)] pf(2,3) by simp
qed

lemma ch_send_ok:
  assumes "ch_inv ch mtu qs part" "ch_step ch (ChSend f) = Some (ch', out)"
  shows "ch_inv ch' mtu qs part \<and> out = []"
proof -
  obtain data len r where s: "pb_send (pf_buffer (ch_flow ch f)) = Some (Some data, len)"
    "ss_input_handler_send (ch_sender ch) data len = Some r" "ch' = ch_finish ch f r" "out = []"
    using assms(2) by (auto simp: bind_eq_Some_conv split: option.splits)
  have i: "pf_inv (ch_flow ch f) (mtu f) (qs f)" "qs f \<noteq> []"
    using assms(1) s(1) flow_idle [of "ch_flow ch f" "mtu f" "qs f"] by (auto simp: ch_inv_def)
  then obtain q qs' where q: "qs f = q # qs'"
    by (cases "qs f") auto
  then have "len = 2 + int (length q)"
    using flow_send_area(1) [OF _ s(1)] i(1) by simp
  then have "r = ((ch_sender ch)\<lparr>ss_in_len := len, ss_in := data, ss_in_used := 0, ss_out := Some (data, len)\<rparr>, False)" "ss_in_len (ch_sender ch) = -1"
    using s(2) by (auto simp: ss_input_handler_send_def ss_send_data_def ASSERT_def split: if_splits)
  then show ?thesis
    using assms(1) s(1,3,4) i(2) \<open>len = _\<close> by (simp add: ch_inv_def ch_finish_def Let_def)
qed

lemma ch_stream_ok:
  assumes "ch_inv ch mtu qs part" "ch_step ch (ChStream k) = Some (ch', out)"
  shows "\<exists>sent qs' part'. ch_inv ch' mtu qs' part' \<and> ch_progress mtu qs part [ChStream k] out sent qs' part'"
proof -
  let ?s = "ch_sender ch" and ?f = "ch_current ch"
  obtain data len r where o: "ss_out ?s = Some (data, len)" "int k \<le> len" "ss_output_handler_done (?s\<lparr>ss_out := None\<rparr>) (int k) = Some r"
    "ch' = ch_finish ch ?f r" "out = read_bytes (cb_buffer (pb_buf (pf_buffer (ch_flow ch ?f)))) data k"
    using assms(2) by (auto simp: bind_eq_Some_conv split: option.splits if_splits)
  have i: "\<forall>f. pf_inv (ch_flow ch f) (mtu f) (qs f)" "qs ?f \<noteq> []" "pb_send (pf_buffer (ch_flow ch ?f)) = Some (Some (ss_in ?s), ss_in_len ?s)"
    "0 \<le> ss_in_used ?s" "ss_in_used ?s < ss_in_len ?s" "data = ss_in ?s + ss_in_used ?s" "len = ss_in_len ?s - ss_in_used ?s"
    "part = take (nat (ss_in_used ?s)) (pp_encode (hd (qs ?f)))"
    using assms(1) o(1) by (auto simp: ch_inv_def Let_def split: if_splits)
  then obtain q qs' where q: "qs ?f = q # qs'"
    by (cases "qs ?f") auto
  have inv: "pf_inv (ch_flow ch ?f) (mtu ?f) (q # qs')"
    using i(1) q by metis
  note area = flow_send_area [OF inv i(3)]
  define u where "u = nat (ss_in_used ?s)"
  have u: "ss_in_used ?s = int u" "u + k \<le> 2 + length q" "0 < k"
    using i(4) o(2,3) i(7) area(1) by (auto simp: u_def ss_output_handler_done_def ASSERT_def split: if_splits)
  have "out = take k (drop u (pp_encode q))"
    using o(5) i(6) u(2) area(2) [symmetric] by (simp add: u(1) drop_read_bytes take_read_bytes)
  then have part: "part @ out = take (u + k) (pp_encode q)"
    using i(8) by (simp add: q u_def take_add)
  show ?thesis
  proof (cases "u + k < 2 + length q")
    case True
    then have r: "r = (?s\<lparr>ss_out := Some (ss_in ?s + int (u + k), ss_in_len ?s - int (u + k)), ss_in_used := int (u + k)\<rparr>, False)"
      using o(3) u area(1) by (auto simp: ss_output_handler_done_def ss_send_data_def ASSERT_def split: if_splits)
    have "ch_inv ch' mtu qs (take (u + k) (pp_encode q))"
      using i True area(1) q by (auto simp: ch_inv_def ch_finish_def o(4) r Let_def nat_add_distrib)
    moreover have "ch_progress mtu qs part [ChStream k] out [] qs (take (u + k) (pp_encode q))"
      using part by (simp add: ch_progress_def)
    ultimately show ?thesis
      by blast
  next
    case False
    then have full: "u + k = 2 + length q"
      using u(2) by simp
    then have r: "r = (?s\<lparr>ss_out := None, ss_in_used := int (u + k), ss_in_len := -1\<rparr>, True)"
      using o(3) u area(1) by (auto simp: ss_output_handler_done_def ss_send_data_def ASSERT_def split: if_splits)
    have "ch_inv ch' mtu (qs(?f := qs')) []"
      using i(1) pf_sent_ok [OF inv] by (auto simp: ch_inv_def ch_finish_def o(4) r Let_def)
    moreover have "ch_progress mtu qs part [ChStream k] out [(?f, q)] (qs(?f := qs')) []"
      using part full q inv by (simp add: ch_progress_def pf_inv_def)
    ultimately show ?thesis
      by blast
  qed
qed

lemma ch_step_ok:
  assumes "ch_inv ch mtu qs part" "ch_step ch e = Some (ch', out)"
  shows "\<exists>sent qs' part'. ch_inv ch' mtu qs' part' \<and> ch_progress mtu qs part [e] out sent qs' part'"
proof (cases e)
  case (ChReceive f)
  then show ?thesis
    using ch_receive_ok [of ch mtu qs part f] assms by (intro exI [of _ "[]"] exI [of _ qs] exI [of _ part]) (auto simp: ch_progress_def)
next
  case (ChWrite f p)
  then show ?thesis
    using ch_write_ok [of ch mtu qs part f p] assms
    by (intro exI [of _ "[]"] exI [of _ "qs(f := qs f @ [p])"] exI [of _ part]) (auto simp: ch_progress_def)
next
  case (ChSend f)
  then show ?thesis
    using ch_send_ok [of ch mtu qs part f] assms by (intro exI [of _ "[]"] exI [of _ qs] exI [of _ part]) (auto simp: ch_progress_def)
next
  case (ChStream k)
  then show ?thesis
    using ch_stream_ok assms by blast
qed

lemma ch_written_append: "ch_written f (xs @ ys) = ch_written f xs @ ch_written f ys"
  by (induction f xs rule: ch_written.induct) auto

lemma ch_exec_ok:
  assumes "ch_inv ch mtu qs part" "ch_exec ch es = Some (ch', out)"
  shows "\<exists>sent qs' part'. ch_inv ch' mtu qs' part' \<and> ch_progress mtu qs part es out sent qs' part'"
  using assms
proof (induction es arbitrary: ch qs part out)
  case Nil
  then show ?case
    by (intro exI [of _ "[]"] exI [of _ qs] exI [of _ part]) (auto simp: ch_progress_def)
next
  case (Cons e es)
  obtain ch1 out1 out2 where e: "ch_step ch e = Some (ch1, out1)" "ch_exec ch1 es = Some (ch', out2)" "out = out1 @ out2"
    using Cons.prems(2) by (auto simp: bind_eq_Some_conv)
  obtain sent1 qs1 part1 where 1: "ch_inv ch1 mtu qs1 part1" "ch_progress mtu qs part [e] out1 sent1 qs1 part1"
    using ch_step_ok [OF Cons.prems(1) e(1)] by blast
  obtain sent2 qs2 part2 where 2: "ch_inv ch' mtu qs2 part2" "ch_progress mtu qs1 part1 es out2 sent2 qs2 part2"
    using Cons.IH [OF 1(1) e(2)] by blast
  have w: "ch_written f (e # es) = ch_written f [e] @ ch_written f es" for f
    using ch_written_append [of f "[e]" es] by simp
  have "part @ out = pp_stream (map snd (sent1 @ sent2)) @ part2"
    using 1(2) 2(2) by (simp add: ch_progress_def e(3)) (metis append.assoc)
  moreover have "qs f @ ch_written f (e # es) = map snd (filter (\<lambda>x. fst x = f) (sent1 @ sent2)) @ qs2 f" for f
    using 1(2) 2(2) unfolding w by (simp add: ch_progress_def) (metis append.assoc)
  ultimately have "ch_progress mtu qs part (e # es) out (sent1 @ sent2) qs2 part2"
    using 1(2) 2(2) by (auto simp: ch_progress_def)
  then show ?case
    using 2(1) by blast
qed

lemma PacketProtoFlow_Init_ok:
  assumes "PacketProtoFlow_Init alloc mtu num = Some pf" "4 * ChunkBuffer2_calc_blocks (mtu + 2) num \<le> INT_MAX"
  shows "pf_inv pf mtu []" "0 \<le> mtu" "mtu \<le> 65535"
proof -
  obtain pb where pb: "0 \<le> mtu" "mtu \<le> 65535" "0 < num" "PacketBuffer_Init alloc (mtu + 2) num = Some pb"
    "pf = \<lparr>pf_ainput = BufferWriter_Init, pf_encoder = \<lparr>enc_output_packet = None\<rparr>, pf_buffer = pb\<rparr>"
    using assms(1) by (auto simp: PacketProtoFlow_Init_def ASSERT_def PACKETPROTO_ENCLEN_def add.commute bind_eq_Some_conv split: if_splits)
  have "pb_inv pb []" "pb_input_mtu pb = mtu + 2"
    using PacketBuffer_Init_inv [OF pb(4)] pb(1-3) assms(2) by auto
  then show "pf_inv pf mtu []" "0 \<le> mtu" "mtu \<le> 65535"
    using pb by (auto simp: pf_inv_def BufferWriter_Init_def)
qed

text \<open>The packet that is under way belongs to the stream as a whole.\<close>

lemma ch_stream_complete:
  assumes "ch_inv ch mtu qs' part" "ch_progress mtu (\<lambda>_. []) [] es stream sent qs' part"
  shows "\<exists>order future. stream @ future = pp_stream (map snd order) \<and>
    (\<forall>f. \<exists>queued. ch_written f es = map snd (filter (\<lambda>x. fst x = f) order) @ queued \<and> (pb_send (pf_buffer (ch_flow ch f)) = None \<longrightarrow> queued = [])) \<and>
    (\<forall>x\<in>set order. int (length (snd x)) \<le> mtu (fst x)) \<and> (ss_in_len (ch_sender ch) = -1 \<longrightarrow> future = [])"
proof -
  have p: "stream = pp_stream (map snd sent) @ part" "\<And>f. ch_written f es = map snd (filter (\<lambda>x. fst x = f) sent) @ qs' f"
    "\<forall>x\<in>set sent. int (length (snd x)) \<le> mtu (fst x)" and i: "\<And>f. pf_inv (ch_flow ch f) (mtu f) (qs' f)"
    using assms by (auto simp: ch_progress_def ch_inv_def)
  show ?thesis
  proof (cases "ss_in_len (ch_sender ch) = -1")
    case True
    then have "part = []"
      using assms(1) by (simp add: ch_inv_def)
    then show ?thesis
      using p True flow_idle [OF i] by (intro exI [of _ sent] exI [of _ "[]"]) auto
  next
    case False
    let ?f = "ch_current ch"
    obtain q qs n where q: "qs' ?f = q # qs" "part = take n (pp_encode q)" "pb_send (pf_buffer (ch_flow ch ?f)) \<noteq> None"
      using assms(1) False by (cases "qs' ?f") (auto simp: ch_inv_def Let_def)
    let ?order = "sent @ [(?f, q)]"
    have "\<exists>queued. ch_written f es = map snd (filter (\<lambda>x. fst x = f) ?order) @ queued \<and> (pb_send (pf_buffer (ch_flow ch f)) = None \<longrightarrow> queued = [])" for f
      using p(2) [of f] q(1,3) flow_idle [OF i, of f] by (cases "f = ?f") auto
    moreover have "stream @ drop n (pp_encode q) = pp_stream (map snd ?order)"
      using p(1) q(2) by simp
    moreover have "int (length q) \<le> mtu ?f"
      using i [of ?f] q(1) by (simp add: pf_inv_def)
    ultimately show ?thesis
      using p(3) False by (intro exI [of _ ?order] exI [of _ "drop n (pp_encode q)"]) auto
  qed
qed

text \<open>
  \<^bold>\<open>C3\<close>: messages arrive as they were written. Let any number of flows share a stream
  sender, let the users write messages, the buffers be filled and emptied and the stream take
  its bytes in any order and in any pieces, and let a decoder with a sufficient limit
  read what the stream took, again in any pieces. Then the decoder reports no error, and
  there is an order of the messages, with those of each flow in the order in which they were
  written, of which the decoder has delivered the first ones. A flow that has nothing left to send
  has all its messages in it, and when the sender and the decoder are at rest and the whole stream was
  read, all of them were delivered.
\<close>

theorem messages_arrive:
  assumes "\<forall>f. PacketProtoFlow_Init (alloc f) (mtu f) (num f) = Some (flows f)" "\<forall>f. 4 * ChunkBuffer2_calc_blocks (mtu f + 2) (num f) \<le> INT_MAX"
    and "\<forall>f. mtu f \<le> peer_mtu" "ch_exec (ch_start flows) es = Some (ch, stream)"
    and "dec_run (PacketProtoDecoder_Init m peer_mtu) evs dec" "ev_received evs @ future = stream"
  shows "list_all (\<lambda>ev. \<not> ev_error ev) evs \<and> (\<exists>order rest. map snd order = ev_delivered evs @ rest \<and>
    (\<forall>f. \<exists>queued. ch_written f es = map snd (filter (\<lambda>x. fst x = f) order) @ queued \<and> (pb_send (pf_buffer (ch_flow ch f)) = None \<longrightarrow> queued = [])) \<and>
    (future = [] \<and> ss_in_len (ch_sender ch) = -1 \<and> dec_send dec = None \<longrightarrow> rest = []))"
proof -
  have f: "pf_inv (flows f) (mtu f) []" "0 \<le> mtu f" "mtu f \<le> 65535" for f
    using PacketProtoFlow_Init_ok assms(1,2) by blast+
  have "ch_inv (ch_start flows) mtu (\<lambda>_. []) []"
    using f by (simp add: ch_inv_def ch_start_def PacketStreamSender_Init_def)
  from ch_exec_ok [OF this assms(4)] obtain sent qs' part where "ch_inv ch mtu qs' part"
    "ch_progress mtu (\<lambda>_. []) [] es stream sent qs' part"
    by blast
  from ch_stream_complete [OF this] obtain order more where o: "stream @ more = pp_stream (map snd order)"
    "\<forall>f. \<exists>queued. ch_written f es = map snd (filter (\<lambda>x. fst x = f) order) @ queued \<and> (pb_send (pf_buffer (ch_flow ch f)) = None \<longrightarrow> queued = [])"
    "\<forall>x\<in>set order. int (length (snd x)) \<le> mtu (fst x)" "ss_in_len (ch_sender ch) = -1 \<longrightarrow> more = []"
    by blast
  have pos: "0 \<le> peer_mtu"
    using f(2) assms(3) order_trans by blast
  have "\<forall>x\<in>set order. int (length (snd x)) \<le> min peer_mtu 65535"
  proof
    fix x
    assume "x \<in> set order"
    then have "int (length (snd x)) \<le> mtu (fst x)" "mtu (fst x) \<le> peer_mtu" "mtu (fst x) \<le> 65535"
      using o(3) f(3) assms(3) by auto
    then show "int (length (snd x)) \<le> min peer_mtu 65535"
      by simp
  qed
  then have fits: "pp_fits (min peer_mtu 65535) (map snd order)"
    by (simp add: pp_fits_def list_all_iff)
  have "ev_received evs @ (future @ more) = pp_stream (map snd order)"
    unfolding o(1) [symmetric] assms(6) [symmetric] by simp
  from decoder_delivers [OF pos fits assms(5) this] have d: "list_all (\<lambda>ev. \<not> ev_error ev) evs \<and>
    (\<exists>rest. map snd order = ev_delivered evs @ rest \<and> (future @ more = [] \<and> dec_send dec = None \<longrightarrow> rest = []))"
    .
  then obtain rest where "map snd order = ev_delivered evs @ rest" "future @ more = [] \<and> dec_send dec = None \<longrightarrow> rest = []"
    by blast
  then show ?thesis
    using d o(2,4) by (intro conjI exI [of _ order] exI [of _ rest]) auto
qed

text \<open>A run with one message in one of the flows.\<close>

definition ch_sample_flow :: PacketProtoFlow where
  "ch_sample_flow = the (PacketProtoFlow_Init (\<lambda>_. Some (\<lambda>_. 0)) 4 2)"

lemma ch_sample_init: "PacketProtoFlow_Init (\<lambda>_. Some (\<lambda>_. 0)) 4 2 = Some ch_sample_flow"
proof -
  have "\<not> Option.is_none (PacketProtoFlow_Init (\<lambda>_. Some (\<lambda>_. 0)) 4 2)"
    by code_simp
  then show ?thesis
    by (cases "PacketProtoFlow_Init (\<lambda>_. Some (\<lambda>_. 0)) 4 2") (simp_all add: ch_sample_flow_def)
qed

lemma ch_sample_runs:
  "4 * ChunkBuffer2_calc_blocks (4 + 2) 2 \<le> INT_MAX"
  "(case ch_exec (ch_start (\<lambda>_. ch_sample_flow)) [ChReceive 5, ChWrite 5 [7], ChSend 5, ChStream 2, ChStream 1] of
      None \<Rightarrow> False
    | Some (ch, stream) \<Rightarrow> stream = [1, 0, 7] \<and> ss_in_len (ch_sender ch) = -1)"
  by code_simp+

theorem messages_arrive_witness:
  "\<exists>ch dec. ch_exec (ch_start (\<lambda>_. ch_sample_flow)) [ChReceive 5, ChWrite 5 [7], ChSend 5, ChStream 2, ChStream 1] = Some (ch, [1, 0, 7]) \<and>
     dec_run (PacketProtoDecoder_Init (\<lambda>_. 0) 4) [Recv [1, 0, 7] False] dec \<and>
     (\<exists>order rest. map snd order = ev_delivered [Recv [1, 0, 7] False] @ rest)"
proof -
  let ?es = "[ChReceive 5, ChWrite 5 [7], ChSend 5, ChStream 2, ChStream 1]" and ?e = "PacketProtoDecoder_Init (\<lambda>_. 0) 4"
  obtain ch where ch: "ch_exec (ch_start (\<lambda>_. ch_sample_flow)) ?es = Some (ch, [1, 0, 7])"
    using ch_sample_runs(2) by (auto split: option.splits)
  have r: "dec_recv ?e = Some (0, 6)"
    by (simp add: PacketProtoDecoder_Init_def PACKETPROTO_ENCLEN_def Let_def)
  obtain dec where "dec_input_handler_done (?e\<lparr>dec_recv := None, dec_buf := write_bytes (dec_buf ?e) 0 [1, 0, 7]\<rparr>)
      (int (length [1, 0, 7 :: byte])) = (dec, False)"
    by (simp add: dec_input_handler_done_def process_data_def PacketProtoDecoder_Init_def
        PACKETPROTO_ENCLEN_def write_bytes_def mem16_def byteorder_defs Let_def)
  then have "dec_step ?e (Recv [1, 0, 7] False) dec"
    by (intro dec_step.dec_recv [OF r]) simp_all
  then have run: "dec_run ?e [Recv [1, 0, 7] False] dec"
    using dec_run_step [OF dec_run_nil] by fastforce
  show ?thesis
    using ch run messages_arrive [OF _ _ _ ch run, of "\<lambda>_ _. Some (\<lambda>_. 0)" "\<lambda>_. 4" "\<lambda>_. 2" "[]"] ch_sample_init ch_sample_runs(1) by auto
qed

end
