(* ===== verification/Spec2Isabelle.thy ===== *)
theory Spec2Isabelle
  imports UdpPath PacketBuffer PacketProto SocksClient TcpRelay LwipChecksum UdpGwCorrect JobQueue SocksUdpGw PacketFlow
begin

text \<open>
  Verification of the C core of the VPN application (\<^verbatim>\<open>src/vpncore/src/main/jni\<close>).
\<close>

section \<open>Accepted connections and their SOCKS client\<close>

lemma concat_sum_small:
  assumes "unat acc + length (concat strs) < 2 ^ 64 - 1"
  shows "concat_sum acc strs \<noteq> None"
  using assms
proof (induction acc strs rule: concat_sum.induct)
  case (2 acc str strs)
  have u: "unat (of_nat (length str) :: size_t) = length str"
    using 2(2) by (simp add: unat_of_nat)
  have m: "unat (SIZE_MAX - 1) = 2 ^ 64 - 2"
    by simp
  have "acc \<le> SIZE_MAX - 1"
    using 2(2) m unfolding word_le_nat_alt by simp
  then have "unat (SIZE_MAX - 1 - acc) = 2 ^ 64 - 2 - unat acc"
    using m by (simp only: unat_sub)
  then have le: "\<not> of_nat (length str) > SIZE_MAX - 1 - acc"
    using 2(2) u unfolding word_less_nat_alt by simp
  have "unat (acc + of_nat (length str)) = unat acc + length str"
    using 2(2) u by (simp add: unat_word_ariths)
  then show ?case
    using 2 le by simp
qed simp

lemma concat_strings_short:
  assumes "length (concat strs) < 2 ^ 64 - 1"
  shows "concat_strings True strs = Some (concat strs)"
  using concat_sum_small [of 0 strs] assms by (auto simp: concat_strings_def split: option.splits)

lemma accept_auths:
  assumes "listener_accept_func opts [a, Auth_Password u p] pcb c n k v jobs = (Some (s, sc), auths', err)"
    and "opt_username opts = Some name" "append_source_to_username opts"
  shows "auths' = [a, Auth_Password (map of_char (name @ ''@'' @ BAddr_Print (baddr_from_lwip (remote_ip pcb) (remote_port pcb)))) p]"
  using assms by (auto simp: listener_accept_func_def accept_username_def concat_strings_def Let_def
      split: if_splits option.splits prod.splits)





end
